(* ===== verification/Prelude.thy ===== *)
theory Prelude
  imports Main "HOL-Library.AList" "HOL-Library.Word"
begin

text \<open>
  Shared vocabulary of the development: instants and durations of the Go standard library
  (\<open>time.Time\<close>, \<open>time.Duration\<close>, 64-bit wrap-around and saturation written out), Go maps
  as association lists with distinct keys, and the generic lemmas and proof collections the
  component theories rely on.
\<close>

named_theorems gomap_simps \<open>rewriting of Go map operations\<close>
named_theorems gotime_simps \<open>constants and operations of the clock\<close>

section \<open>Machine integers\<close>

text \<open>Two's complement wrap-around of a signed 64-bit integer (Go's \<open>int\<close> and \<open>int64\<close>).\<close>

definition wrap64 :: "int \<Rightarrow> int" where
  "wrap64 x = (x + 2 ^ 63) mod 2 ^ 64 - 2 ^ 63"

definition in_int64 :: "int \<Rightarrow> bool" where
  "in_int64 x \<longleftrightarrow> - (2 ^ 63) \<le> x \<and> x < 2 ^ 63"

lemma wrap64_in_range [simp]: "in_int64 (wrap64 x)"
  by (simp add: wrap64_def in_int64_def)

lemma wrap64_id: "in_int64 x \<Longrightarrow> wrap64 x = x"
  by (simp add: wrap64_def in_int64_def)

lemma wrap64_wrap64 [simp]: "wrap64 (wrap64 x) = wrap64 x"
  by (rule wrap64_id) simp

section \<open>Time\<close>

text \<open>
  A \<open>time.Time\<close> is the number of nanoseconds since the zero \<open>Time\<close> (January 1, year 1);
  a \<open>time.Duration\<close> is a signed 64-bit number of nanoseconds.
\<close>

type_synonym time = int
type_synonym duration = int

definition Second :: duration where "Second = 1000000000"
definition Millisecond :: duration where "Millisecond = 1000000"

text \<open>\<open>time.Duration(n) * time.Second\<close>: the product wraps.\<close>

definition seconds_dur :: "int \<Rightarrow> duration" where
  "seconds_dur n = wrap64 (n * Second)"

text \<open>\<open>t.Add(d)\<close>, \<open>t.Before(u)\<close>, \<open>t.After(u)\<close>; \<open>t.Sub(u)\<close> saturates.\<close>

definition time_Add :: "time \<Rightarrow> duration \<Rightarrow> time" where
  "time_Add t d = t + d"

definition time_Before :: "time \<Rightarrow> time \<Rightarrow> bool" where
  "time_Before t u \<longleftrightarrow> t < u"

definition time_After :: "time \<Rightarrow> time \<Rightarrow> bool" where
  "time_After t u \<longleftrightarrow> u < t"

definition time_Sub :: "time \<Rightarrow> time \<Rightarrow> duration" where
  "time_Sub t u = max (- (2 ^ 63)) (min (2 ^ 63 - 1) (t - u))"

lemmas [gotime_simps] =
  Second_def Millisecond_def time_Add_def time_Before_def time_After_def

lemma seconds_dur_exact:
  "0 \<le> n \<Longrightarrow> n \<le> 9223372036 \<Longrightarrow> seconds_dur n = n * 1000000000"
  by (simp add: seconds_dur_def Second_def wrap64_id in_int64_def)

lemma time_Sub_le_iff:
  "in_int64 d \<Longrightarrow> d < 2 ^ 63 - 1 \<Longrightarrow> time_Sub t u \<le> d \<longleftrightarrow> t - u \<le> d"
  by (auto simp: time_Sub_def in_int64_def)

lemma time_Sub_mono: "t \<le> t' \<Longrightarrow> time_Sub t u \<le> time_Sub t' u"
  by (auto simp: time_Sub_def)

section \<open>Go maps\<close>

text \<open>
  A Go map is an association list with distinct keys. Lookup is \<^const>\<open>map_of\<close>, assignment
  \<^const>\<open>AList.update\<close>, \<open>delete\<close> is \<^const>\<open>AList.delete\<close> and \<open>len\<close> is
  \<^const>\<open>length\<close>. The position of an entry carries no meaning: where the program ranges
  over a map, the order is a parameter.
\<close>

type_synonym ('k, 'v) gomap = "('k \<times> 'v) list"

abbreviation gm_get :: "('k, 'v) gomap \<Rightarrow> 'k \<Rightarrow> 'v option" where
  "gm_get \<equiv> map_of"

abbreviation gm_put :: "'k \<Rightarrow> 'v \<Rightarrow> ('k, 'v) gomap \<Rightarrow> ('k, 'v) gomap" where
  "gm_put \<equiv> AList.update"

abbreviation gm_del :: "'k \<Rightarrow> ('k, 'v) gomap \<Rightarrow> ('k, 'v) gomap" where
  "gm_del \<equiv> AList.delete"

abbreviation gm_keys :: "('k, 'v) gomap \<Rightarrow> 'k set" where
  "gm_keys m \<equiv> fst ` set m"

definition gm_wf :: "('k, 'v) gomap \<Rightarrow> bool" where
  "gm_wf m \<longleftrightarrow> distinct (map fst m)"

lemma gm_wf_Nil [simp]: "gm_wf []"
  by (simp add: gm_wf_def)

lemma gm_wf_put [simp]: "gm_wf m \<Longrightarrow> gm_wf (gm_put k v m)"
  by (simp add: gm_wf_def distinct_update)

lemma gm_wf_del [simp]: "gm_wf m \<Longrightarrow> gm_wf (gm_del k m)"
  by (simp add: gm_wf_def distinct_delete)

lemma gm_get_put [gomap_simps]: "gm_get (gm_put k v m) k' = (if k' = k then Some v else gm_get m k')"
  by (simp add: update_conv')

lemma gm_get_del [gomap_simps]: "gm_get (gm_del k m) k' = (if k' = k then None else gm_get m k')"
  by (simp add: delete_conv')

lemma gm_keys_put [gomap_simps]: "gm_keys (gm_put k v m) = insert k (gm_keys m)"
proof -
  have "dom (gm_get (gm_put k v m)) = insert k (dom (gm_get m))"
    by (simp add: update_conv')
  then show ?thesis by (simp add: dom_map_of_conv_image_fst)
qed

lemma gm_keys_del [gomap_simps]: "gm_keys (gm_del k m) = gm_keys m - {k}"
proof -
  have "dom (gm_get (gm_del k m)) = dom (gm_get m) - {k}"
    by (simp add: delete_conv')
  then show ?thesis by (simp add: dom_map_of_conv_image_fst)
qed

lemma gm_get_in_keys: "gm_get m k = Some v \<Longrightarrow> k \<in> gm_keys m"
  by (force dest: map_of_SomeD)

lemma gm_get_None_iff: "gm_get m k = None \<longleftrightarrow> k \<notin> gm_keys m"
  by (rule map_of_eq_None_iff)

lemma gm_in_set_iff: "gm_wf m \<Longrightarrow> (k, v) \<in> set m \<longleftrightarrow> gm_get m k = Some v"
  by (simp add: gm_wf_def)

lemma gm_length_card: "gm_wf m \<Longrightarrow> length m = card (gm_keys m)"
  by (metis gm_wf_def distinct_card length_map set_map)

lemma gm_length_put_new: "gm_wf m \<Longrightarrow> k \<notin> gm_keys m \<Longrightarrow> length (gm_put k v m) = Suc (length m)"
  by (simp add: gm_length_card gomap_simps)

lemma gm_length_put_old: "gm_wf m \<Longrightarrow> k \<in> gm_keys m \<Longrightarrow> length (gm_put k v m) = length m"
  by (simp add: gm_length_card gomap_simps insert_absorb)

lemma gm_length_del: "gm_wf m \<Longrightarrow> k \<in> gm_keys m \<Longrightarrow> length (gm_del k m) = length m - 1"
  by (simp add: gm_length_card gomap_simps)

lemma gm_set_put: "set (gm_put k v m) \<subseteq> insert (k, v) (set m)"
  by (induction m) auto

lemma gm_set_del: "set (gm_del k m) \<subseteq> set m"
  by (auto simp: AList.delete_eq)

text \<open>Filtering a map by its entries, as a \<open>for range\<close> loop with \<open>delete\<close> does.\<close>

lemma gm_wf_filter [simp]: "gm_wf m \<Longrightarrow> gm_wf (filter P m)"
  by (auto simp: gm_wf_def distinct_map_filter)

lemma gm_get_filter:
  "gm_wf m \<Longrightarrow> gm_get (filter P m) k = (case gm_get m k of None \<Rightarrow> None | Some v \<Rightarrow> if P (k, v) then Some v else None)"
proof (induction m)
  case Nil
  then show ?case by simp
next
  case (Cons e m)
  obtain k' v' where e: "e = (k', v')" by (cases e)
  from Cons.prems e have wf: "gm_wf m" and new: "k' \<notin> gm_keys m"
    by (auto simp: gm_wf_def)
  then have none: "gm_get m k' = None" by (simp add: gm_get_None_iff)
  show ?case
    using Cons.IH [OF wf] none e by (auto split: option.splits)
qed

section \<open>Results\<close>

text \<open>A fallible Go function returns \<open>(value, error)\<close>: a sum, \<open>Inl\<close> the error.\<close>

type_synonym ('e, 'a) result = "'e + 'a"

abbreviation is_ok :: "('e, 'a) result \<Rightarrow> bool" where
  "is_ok r \<equiv> \<not> isl r"

end
