(* ===== verification/Allocator.thy ===== *)
theory Allocator
  imports Prelude
begin

text \<open>
  The data-port allocator (\<open>src/internal/tunnel/lease/allocator.go\<close>). A port that is free in
  the allocator but held by another process is skipped for the running allocation only:
  what \<open>net.Listen\<close> answers to \<open>portInUse\<close> depends on the operating system and is the parameter
  \<open>probe\<close>. One allocation probes each port at most once, so a function of the port covers every
  behaviour of the probe.
\<close>

section \<open>Model\<close>

datatype lease_error =
    ErrNotFound
  | ErrPortsExhausted
  | ErrInvalidCIDR string
  | ErrOther string

record portAllocator =
  pa_min :: int
  pa_max :: int
  pa_next :: int
  pa_used :: "(int, bool) gomap"

definition newPortAllocator :: "int \<Rightarrow> int \<Rightarrow> portAllocator" where
  "newPortAllocator mn mx = \<lparr>pa_min = mn, pa_max = mx, pa_next = mn, pa_used = []\<rparr>"

definition reserve :: "int \<Rightarrow> portAllocator \<Rightarrow> portAllocator" where
  "reserve port a =
     (if port \<ge> pa_min a \<and> port \<le> pa_max a then a\<lparr>pa_used := gm_put port True (pa_used a)\<rparr> else a)"

definition release :: "int \<Rightarrow> portAllocator \<Rightarrow> portAllocator" where
  "release port a = a\<lparr>pa_used := gm_del port (pa_used a)\<rparr>"

definition free :: "portAllocator \<Rightarrow> int" where
  "free a = (pa_max a - pa_min a + 1) - int (length (pa_used a))"

text \<open>\<open>a.used[port]\<close>: a missing key reads as \<open>false\<close>.\<close>

definition used_at :: "portAllocator \<Rightarrow> int \<Rightarrow> bool" where
  "used_at a port = (gm_get (pa_used a) port = Some True)"

text \<open>\<open>a.next++\<close> with the wrap back to \<open>min\<close>.\<close>

definition advance :: "portAllocator \<Rightarrow> portAllocator" where
  "advance a = a\<lparr>pa_next := (if pa_next a + 1 > pa_max a then pa_min a else pa_next a + 1)\<rparr>"

text \<open>\<open>probe port\<close> is the outcome of \<open>net.Listen\<close> on the port; the listener is closed again.\<close>

type_synonym probe_outcome = "int \<Rightarrow> (string, nat) result"

definition portInUse :: "probe_outcome \<Rightarrow> int \<Rightarrow> bool" where
  "portInUse probe port = (case probe port of Inl e \<Rightarrow> True | Inr ln \<Rightarrow> False)"

text \<open>The loop of \<open>allocate\<close>; the first argument counts the iterations left.\<close>

fun allocate_loop :: "nat \<Rightarrow> probe_outcome \<Rightarrow> portAllocator \<Rightarrow> (lease_error, int) result \<times> portAllocator" where
  "allocate_loop 0 probe a = (Inl ErrPortsExhausted, a)"
| "allocate_loop (Suc n) probe a =
     (let port = pa_next a; a1 = advance a in
      if used_at a1 port then allocate_loop n probe a1
      else if portInUse probe port then allocate_loop n probe a1
      else (Inr port, a1\<lparr>pa_used := gm_put port True (pa_used a1)\<rparr>))"

definition allocate :: "probe_outcome \<Rightarrow> portAllocator \<Rightarrow> (lease_error, int) result \<times> portAllocator" where
  "allocate probe a = allocate_loop (nat (pa_max a - pa_min a + 1)) probe a"

section \<open>Invariant\<close>

definition in_range :: "portAllocator \<Rightarrow> int \<Rightarrow> bool" where
  "in_range a p \<longleftrightarrow> pa_min a \<le> p \<and> p \<le> pa_max a"

definition used_ports :: "portAllocator \<Rightarrow> int set" where
  "used_ports a = gm_keys (pa_used a)"

definition alloc_inv :: "portAllocator \<Rightarrow> bool" where
  "alloc_inv a \<longleftrightarrow> in_range a (pa_next a) \<and> gm_wf (pa_used a)
     \<and> (\<forall>(p, b) \<in> set (pa_used a). b \<and> in_range a p)"

section \<open>The candidate sequence\<close>

text \<open>The ports an allocation tries, in order: cyclically from \<open>next\<close>.\<close>

definition span :: "portAllocator \<Rightarrow> int" where
  "span a = pa_max a - pa_min a + 1"

definition candidate :: "portAllocator \<Rightarrow> nat \<Rightarrow> int" where
  "candidate a k = pa_min a + (pa_next a - pa_min a + int k) mod span a"

lemma advance_fields [simp]:
  "pa_min (advance a) = pa_min a" "pa_max (advance a) = pa_max a" "pa_used (advance a) = pa_used a"
  by (simp_all add: advance_def)

lemma advance_views [simp]:
  "used_at (advance a) = used_at a" "span (advance a) = span a" "in_range (advance a) = in_range a"
  "used_ports (advance a) = used_ports a"
  by (simp_all add: used_at_def span_def in_range_def used_ports_def fun_eq_iff)

lemma advance_in_range: "in_range a (pa_next a) \<Longrightarrow> in_range a (pa_next (advance a))"
  by (auto simp: advance_def in_range_def)

lemma alloc_inv_advance: "alloc_inv a \<Longrightarrow> alloc_inv (advance a)"
  by (auto simp: alloc_inv_def advance_in_range)

lemma candidate_0: "in_range a (pa_next a) \<Longrightarrow> candidate a 0 = pa_next a"
  by (simp add: candidate_def in_range_def span_def mod_pos_pos_trivial)

lemma advance_next:
  assumes "in_range a (pa_next a)"
  shows "pa_next (advance a) - pa_min a = (pa_next a - pa_min a + 1) mod span a"
proof (cases "pa_next a = pa_max a")
  case True
  then show ?thesis by (simp add: advance_def span_def)
next
  case False
  with assms have "pa_next a < pa_max a" and "pa_min a \<le> pa_next a"
    by (auto simp: in_range_def)
  then show ?thesis by (simp add: advance_def span_def mod_pos_pos_trivial)
qed

lemma candidate_advance:
  assumes "in_range a (pa_next a)"
  shows "candidate (advance a) k = candidate a (Suc k)"
proof -
  have "(pa_next (advance a) - pa_min a + int k) mod span a
      = (pa_next a - pa_min a + 1 + int k) mod span a"
    using advance_next [OF assms] by (simp add: mod_add_left_eq)
  then show ?thesis by (simp add: candidate_def algebra_simps)
qed

lemma candidate_image:
  assumes "in_range a (pa_next a)"
  shows "candidate a ` {0..<nat (span a)} = {p. in_range a p}"
proof
  have pos: "0 < span a" using assms by (simp add: in_range_def span_def)
  then have "pa_min a \<le> candidate a k" "candidate a k \<le> pa_max a" for k
    using pos_mod_bound [OF pos, of "pa_next a - pa_min a + int k"]
    by (auto simp: candidate_def span_def)
  then show "candidate a ` {0..<nat (span a)} \<subseteq> {p. in_range a p}"
    by (auto simp: in_range_def)
  show "{p. in_range a p} \<subseteq> candidate a ` {0..<nat (span a)}"
  proof
    fix p assume "p \<in> {p. in_range a p}"
    then have p: "pa_min a \<le> p" "p \<le> pa_max a" by (auto simp: in_range_def)
    define k where "k = nat ((p - pa_next a) mod span a)"
    have k: "int k = (p - pa_next a) mod span a" using pos by (simp add: k_def)
    have "(pa_next a - pa_min a + int k) mod span a = (p - pa_min a) mod span a"
      by (simp add: k mod_simps)
    also have "\<dots> = p - pa_min a"
      using p by (simp add: span_def mod_pos_pos_trivial)
    finally have "candidate a k = p" by (simp add: candidate_def)
    moreover have "k < nat (span a)"
      using pos pos_mod_bound [OF pos, of "p - pa_next a"] by (simp add: k_def nat_less_eq_zless)
    ultimately show "p \<in> candidate a ` {0..<nat (span a)}" by force
  qed
qed

section \<open>Allocation\<close>

definition available :: "probe_outcome \<Rightarrow> portAllocator \<Rightarrow> int \<Rightarrow> bool" where
  "available probe a p \<longleftrightarrow> \<not> used_at a p \<and> \<not> portInUse probe p"

lemma available_advance [simp]: "available probe (advance a) = available probe a"
  by (simp add: available_def fun_eq_iff)

lemma allocate_loop_find:
  "in_range a (pa_next a) \<Longrightarrow>
   fst (allocate_loop n probe a) =
     (case find (available probe a) (map (candidate a) [0..<n]) of
        None \<Rightarrow> Inl ErrPortsExhausted | Some p \<Rightarrow> Inr p)"
proof (induction n arbitrary: a)
  case 0
  then show ?case by simp
next
  case (Suc n)
  have split: "map (candidate a) [0..<Suc n] = pa_next a # map (candidate (advance a)) [0..<n]"
    using Suc.prems by (simp add: upt_conv_Cons map_Suc_upt [symmetric] candidate_0 candidate_advance del: upt_Suc)
  have "in_range (advance a) (pa_next (advance a))"
    using Suc.prems by (simp add: advance_in_range)
  note IH = Suc.IH [OF this]
  show ?case
    unfolding split using IH by (auto simp: Let_def available_def)
qed

lemma allocate_loop_frame:
  assumes "allocate_loop n probe a = (r, a')"
  shows "pa_min a' = pa_min a" "pa_max a' = pa_max a"
    "pa_used a' = (case r of Inl _ \<Rightarrow> pa_used a | Inr p \<Rightarrow> gm_put p True (pa_used a))"
  using assms
  by (induction n arbitrary: a) (auto simp: Let_def split: if_splits sum.splits)

lemma allocate_loop_next:
  "in_range a (pa_next a) \<Longrightarrow> allocate_loop n probe a = (r, a') \<Longrightarrow> in_range a (pa_next a')"
proof (induction n arbitrary: a)
  case 0
  then show ?case by simp
next
  case (Suc n)
  have adv: "in_range (advance a) (pa_next (advance a))"
    using Suc.prems(1) by (simp add: advance_in_range)
  with Suc.IH [OF adv] Suc.prems(2) show ?case
    by (auto simp: Let_def split: if_splits)
qed

lemma used_at_iff: "alloc_inv a \<Longrightarrow> used_at a p \<longleftrightarrow> p \<in> used_ports a"
  unfolding used_at_def used_ports_def alloc_inv_def
  by (metis (mono_tags, lifting) case_prodD gm_get_None_iff gm_get_in_keys map_of_SomeD option.exhaust)

lemma used_ports_in_range: "alloc_inv a \<Longrightarrow> used_ports a \<subseteq> {p. in_range a p}"
  by (auto simp: alloc_inv_def used_ports_def)

lemma alloc_inv_put:
  assumes "alloc_inv a" "in_range a p"
  shows "alloc_inv (a\<lparr>pa_used := gm_put p True (pa_used a)\<rparr>)"
  using assms gm_set_put [of p True "pa_used a"] by (fastforce simp: alloc_inv_def in_range_def)

lemma alloc_inv_del: "alloc_inv a \<Longrightarrow> alloc_inv (release p a)"
  using gm_set_del [of p "pa_used a"] by (fastforce simp: alloc_inv_def release_def in_range_def)

lemma reserve_inv: "alloc_inv a \<Longrightarrow> alloc_inv (reserve p a)"
  by (simp add: reserve_def alloc_inv_put in_range_def)

lemma used_ports_release [simp]: "used_ports (release p a) = used_ports a - {p}"
  by (simp add: used_ports_def release_def gomap_simps)

lemma used_ports_reserve: "in_range a p \<Longrightarrow> used_ports (reserve p a) = insert p (used_ports a)"
  by (simp add: used_ports_def reserve_def in_range_def gomap_simps)

lemma in_range_frame [simp]:
  "in_range (release p a) = in_range a" "in_range (reserve p a) = in_range a"
  by (simp_all add: fun_eq_iff in_range_def release_def reserve_def)

lemma new_alloc_inv: "mn \<le> mx \<Longrightarrow> alloc_inv (newPortAllocator mn mx)"
  by (simp add: newPortAllocator_def alloc_inv_def in_range_def)

lemma allocate_result:
  assumes "alloc_inv a"
  shows "fst (allocate probe a) =
     (case find (available probe a) (map (candidate a) [0..<nat (span a)]) of
        None \<Rightarrow> Inl ErrPortsExhausted | Some p \<Rightarrow> Inr p)"
  using assms by (simp add: allocate_def allocate_loop_find alloc_inv_def span_def)

lemma allocate_ok:
  assumes inv: "alloc_inv a" and ok: "allocate probe a = (Inr p, a')"
  shows "in_range a p" "p \<notin> used_ports a" "\<not> portInUse probe p" "used_ports a' = insert p (used_ports a)"
    "alloc_inv a'" "in_range a' = in_range a" "pa_min a' = pa_min a" "pa_max a' = pa_max a"
proof -
  from ok have loop: "allocate_loop (nat (pa_max a - pa_min a + 1)) probe a = (Inr p, a')"
    by (simp add: allocate_def)
  note frame = allocate_loop_frame [OF loop]
  from inv have nx: "in_range a (pa_next a)" by (simp add: alloc_inv_def)
  from allocate_result [OF inv, of probe] ok
  have "find (available probe a) (map (candidate a) [0..<nat (span a)]) = Some p"
    by (auto split: option.splits)
  then have mem: "p \<in> candidate a ` {0..<nat (span a)}" and av: "available probe a p"
    by (auto simp: find_Some_iff)
  from mem show range: "in_range a p"
    unfolding candidate_image [OF nx] by simp
  from av show "p \<notin> used_ports a" "\<not> portInUse probe p"
    using used_at_iff [OF inv] by (auto simp: available_def)
  from frame show "used_ports a' = insert p (used_ports a)"
    by (simp add: used_ports_def gomap_simps)
  from frame show same: "in_range a' = in_range a" and "pa_min a' = pa_min a" "pa_max a' = pa_max a"
    by (simp_all add: in_range_def fun_eq_iff)
  have "alloc_inv (a\<lparr>pa_used := gm_put p True (pa_used a)\<rparr>)"
    using inv range by (rule alloc_inv_put)
  with frame same allocate_loop_next [OF nx loop] show "alloc_inv a'"
    by (simp add: alloc_inv_def in_range_def)
qed

lemma allocate_err:
  assumes inv: "alloc_inv a" and err: "allocate probe a = (Inl e, a')"
  shows "e = ErrPortsExhausted" "\<And>p. in_range a p \<Longrightarrow> p \<in> used_ports a \<or> portInUse probe p"
    "used_ports a' = used_ports a" "alloc_inv a'" "in_range a' = in_range a"
    "pa_min a' = pa_min a" "pa_max a' = pa_max a"
proof -
  from err have loop: "allocate_loop (nat (pa_max a - pa_min a + 1)) probe a = (Inl e, a')"
    by (simp add: allocate_def)
  note frame = allocate_loop_frame [OF loop]
  from inv have nx: "in_range a (pa_next a)" by (simp add: alloc_inv_def)
  from allocate_result [OF inv, of probe] err
  show "e = ErrPortsExhausted" by (auto split: option.splits)
  from allocate_result [OF inv, of probe] err
  have none: "find (available probe a) (map (candidate a) [0..<nat (span a)]) = None"
    by (auto split: option.splits)
  show "p \<in> used_ports a \<or> portInUse probe p" if "in_range a p" for p
  proof -
    from that have "p \<in> candidate a ` {0..<nat (span a)}"
      unfolding candidate_image [OF nx] by simp
    with none have "\<not> available probe a p" by (auto simp: find_None_iff)
    then show ?thesis using used_at_iff [OF inv] by (auto simp: available_def)
  qed
  from frame show "used_ports a' = used_ports a" "pa_min a' = pa_min a" "pa_max a' = pa_max a"
    by (simp_all add: used_ports_def)
  from frame show "in_range a' = in_range a" by (simp add: in_range_def fun_eq_iff)
  with frame inv allocate_loop_next [OF nx loop] show "alloc_inv a'"
    by (simp add: alloc_inv_def in_range_def)
qed

section \<open>The allocator as an interface\<close>

text \<open>
  What the lease store relies on: the ports handed out are exactly the ports in use, each
  owned by one lease. \<open>owns\<close> says so for a set of owners \<open>D\<close> and the port \<open>f x\<close> of each.
\<close>

locale port_pool =
  fixes inv :: "'a \<Rightarrow> bool"
    and used :: "'a \<Rightarrow> int set"
    and ok :: "'a \<Rightarrow> int \<Rightarrow> bool"
    and alloc :: "probe_outcome \<Rightarrow> 'a \<Rightarrow> (lease_error, int) result \<times> 'a"
    and rel :: "int \<Rightarrow> 'a \<Rightarrow> 'a"
    and resv :: "int \<Rightarrow> 'a \<Rightarrow> 'a"
  assumes pool_alloc: "inv a \<Longrightarrow> alloc probe a = (Inr p, a') \<Longrightarrow>
        inv a' \<and> ok a p \<and> p \<notin> used a \<and> used a' = insert p (used a) \<and> ok a' = ok a"
    and pool_full: "inv a \<Longrightarrow> alloc probe a = (Inl e, a') \<Longrightarrow> inv a' \<and> used a' = used a \<and> ok a' = ok a"
    and pool_rel: "inv a \<Longrightarrow> inv (rel p a) \<and> used (rel p a) = used a - {p} \<and> ok (rel p a) = ok a"
    and pool_resv: "inv a \<Longrightarrow> ok a p \<Longrightarrow>
        inv (resv p a) \<and> used (resv p a) = insert p (used a) \<and> ok (resv p a) = ok a"
    and pool_used: "inv a \<Longrightarrow> p \<in> used a \<Longrightarrow> ok a p"
begin

definition owns :: "'a \<Rightarrow> 'k set \<Rightarrow> ('k \<Rightarrow> int) \<Rightarrow> bool" where
  "owns a D f \<longleftrightarrow> inv a \<and> inj_on f D \<and> f ` D = used a"

lemma owns_alloc:
  assumes "owns a D f" "k \<notin> D" "alloc probe a = (Inr p, a')" "\<And>x. x \<in> D \<Longrightarrow> g x = f x" "g k = p"
  shows "owns a' (insert k D) g"
proof -
  have im: "g ` D = f ` D" using assms(4) by (rule image_cong [OF refl])
  have inj: "inj_on g D" using assms(1,4) by (simp add: owns_def cong: inj_on_cong)
  have inv: "inv a" using assms(1) by (simp add: owns_def)
  from pool_alloc [OF inv assms(3)] assms(1,2,5) im inj show ?thesis
    by (auto simp: owns_def)
qed

lemma owns_full: "owns a D f \<Longrightarrow> alloc probe a = (Inl e, a') \<Longrightarrow> owns a' D f"
  using pool_full by (auto simp: owns_def)

lemma owns_undo: "owns a D f \<Longrightarrow> alloc probe a = (Inr p, a') \<Longrightarrow> owns (rel p a') D f"
  using pool_alloc [of a probe p a'] pool_rel [of a' p] by (auto simp: owns_def)

lemma owns_release:
  assumes "owns a D f" "k \<in> D"
  shows "owns (rel (f k) a) (D - {k}) f"
proof -
  have "f ` (D - {k}) = f ` D - {f k}"
    using assms by (auto simp: owns_def inj_on_def)
  then show ?thesis
    using assms pool_rel by (auto simp: owns_def inj_on_diff)
qed

lemma owns_cong: "owns a D f \<Longrightarrow> (\<And>x. x \<in> D \<Longrightarrow> g x = f x) \<Longrightarrow> owns a D g"
  by (simp add: owns_def cong: inj_on_cong image_cong_simp)

lemma owns_reserve:
  assumes "owns a D f" "k \<notin> D" "ok a (f k)" "f k \<notin> f ` D"
  shows "owns (resv (f k) a) (insert k D) f"
  using assms pool_resv by (auto simp: owns_def)

lemma owns_in_range: "owns a D f \<Longrightarrow> k \<in> D \<Longrightarrow> ok a (f k)"
  using pool_used by (auto simp: owns_def)

end

interpretation pool: port_pool alloc_inv used_ports in_range allocate release reserve
proof unfold_locales
  fix a a' probe p
  assume "alloc_inv a" "allocate probe a = (Inr p, a')"
  from allocate_ok [OF this] show
    "alloc_inv a' \<and> in_range a p \<and> p \<notin> used_ports a \<and> used_ports a' = insert p (used_ports a)
       \<and> in_range a' = in_range a" by simp
next
  fix a a' probe e
  assume "alloc_inv a" "allocate probe a = (Inl e, a')"
  from allocate_err [OF this] show
    "alloc_inv a' \<and> used_ports a' = used_ports a \<and> in_range a' = in_range a" by simp
qed (use used_ports_in_range in \<open>auto simp: alloc_inv_del reserve_inv used_ports_reserve\<close>)

section \<open>Properties\<close>

lemma free_card:
  assumes "alloc_inv a"
  shows "free a = int (card {p. in_range a p \<and> p \<notin> used_ports a})"
proof -
  have "{p. in_range a p} = {pa_min a..pa_max a}" by (auto simp: in_range_def)
  then have fin: "finite {p. in_range a p}" and card: "card {p. in_range a p} = nat (span a)"
    by (simp_all add: span_def)
  have sub: "used_ports a \<subseteq> {p. in_range a p}" using assms by (rule used_ports_in_range)
  have "{p. in_range a p \<and> p \<notin> used_ports a} = {p. in_range a p} - used_ports a" by auto
  then have "card {p. in_range a p \<and> p \<notin> used_ports a} = nat (span a) - card (used_ports a)"
    using sub fin card by (simp add: card_Diff_subset finite_subset)
  moreover have "card (used_ports a) \<le> nat (span a)"
    using card_mono [OF fin sub] card by simp
  moreover have "length (pa_used a) = card (used_ports a)"
    using assms by (simp add: alloc_inv_def gm_length_card used_ports_def)
  moreover have "0 < span a"
    using assms by (simp add: alloc_inv_def in_range_def span_def)
  ultimately show ?thesis by (simp add: free_def span_def of_nat_diff)
qed

text \<open>
  (C14) Allocation is correct and complete. Whenever a port of the range is neither in use nor
  held by another process, \<open>allocate\<close> returns such a port and marks exactly it as used;
  otherwise it returns \<open>ErrPortsExhausted\<close> and leaves the used ports alone. In particular a
  busy port is skipped without being leaked, and the round-robin cursor never hides a port.
\<close>

theorem allocate_correct:
  assumes "alloc_inv a"
  shows "case allocate probe a of
      (Inr p, a') \<Rightarrow> in_range a p \<and> p \<notin> used_ports a \<and> \<not> portInUse probe p
          \<and> used_ports a' = insert p (used_ports a) \<and> free a' = free a - 1 \<and> alloc_inv a'
    | (Inl e, a') \<Rightarrow> e = ErrPortsExhausted \<and> (\<forall>p. in_range a p \<longrightarrow> p \<in> used_ports a \<or> portInUse probe p)
          \<and> used_ports a' = used_ports a \<and> free a' = free a \<and> alloc_inv a'"
proof (cases "allocate probe a")
  case (Pair r a')
  show ?thesis
  proof (cases r)
    case (Inl e)
    with Pair have eq: "allocate probe a = (Inl e, a')" by simp
    note err = allocate_err [OF assms eq]
    then have "free a' = free a" using assms by (simp add: free_card)
    with eq err show ?thesis by simp
  next
    case (Inr p)
    with Pair have eq: "allocate probe a = (Inr p, a')" by simp
    note ok = allocate_ok [OF assms eq]
    have "length (pa_used a') = Suc (length (pa_used a))"
      using assms ok by (simp add: alloc_inv_def gm_length_card used_ports_def)
    then have "free a' = free a - 1" using ok by (simp add: free_def)
    with eq ok show ?thesis by simp
  qed
qed

definition demo_probe :: probe_outcome where
  "demo_probe p = (if p = 10000 then Inl ''address already in use'' else Inr 0)"

theorem allocate_correct_witness:
  "alloc_inv (reserve 10001 (newPortAllocator 10000 10002))
   \<and> fst (allocate demo_probe (reserve 10001 (newPortAllocator 10000 10002))) = Inr 10002
   \<and> free (snd (allocate demo_probe (reserve 10001 (newPortAllocator 10000 10002)))) = 1"
proof -
  let ?a = "reserve 10001 (newPortAllocator 10000 10002)"
  have inv: "alloc_inv ?a" by (simp add: reserve_inv new_alloc_inv)
  have run: "fst (allocate demo_probe ?a) = Inr 10002"
    by code_simp
  have "free (snd (allocate demo_probe ?a)) = free ?a - 1"
    using allocate_correct [OF inv, of demo_probe] run
    by (cases "allocate demo_probe ?a") simp
  moreover have "free ?a = 2" by code_simp
  ultimately show ?thesis using inv run by simp
qed

text \<open>
  Round robin: the port returned is the first available one in cyclic order starting at
  the cursor, so a port just released is not handed out again before the others were tried.
\<close>

lemma allocate_round_robin:
  assumes "alloc_inv a" "allocate probe a = (Inr p, a')"
  shows "\<exists>k. int k < span a \<and> p = candidate a k \<and> available probe a p
      \<and> (\<forall>j < k. \<not> available probe a (candidate a j))"
proof -
  from allocate_result [OF assms(1), of probe] assms(2)
  have "find (available probe a) (map (candidate a) [0..<nat (span a)]) = Some p"
    by (auto split: option.splits)
  then obtain k where "k < nat (span a)" "p = candidate a k" "available probe a p"
    "\<forall>j < k. \<not> available probe a (candidate a j)"
    by (auto simp: find_Some_iff)
  then show ?thesis by (intro exI [of _ k]) auto
qed

end
