(* ===== verification/Go_Strings.thy ===== *)
theory Go_Strings
  imports Prelude
begin

text \<open>
  The parts of Go's \<open>strings\<close>, \<open>strconv\<close> and \<open>net\<close> string packages the program calls. A Go
  string is a byte string, here a \<^typ>\<open>string\<close> (a list of 8-bit characters). The functions
  with an ASCII path and a table-driven Unicode path are written out on ASCII; the Unicode
  path, which consults the Unicode character database, is a field of the parameter
  \<open>unicode\<close>, so every statement holds whatever the tables say.
\<close>

record unicode =
  u_lower :: "string \<Rightarrow> string"          \<comment> \<open>\<open>strings.Map(unicode.ToLower, s)\<close>\<close>
  u_upper :: "string \<Rightarrow> string"          \<comment> \<open>\<open>strings.Map(unicode.ToUpper, s)\<close>\<close>
  u_trim :: "string \<Rightarrow> string"           \<comment> \<open>\<open>strings.TrimFunc(s, unicode.IsSpace)\<close>\<close>
  u_trim_right :: "string \<Rightarrow> string"     \<comment> \<open>\<open>strings.TrimRightFunc(s, unicode.IsSpace)\<close>\<close>
  u_fold :: "string \<Rightarrow> string \<Rightarrow> bool"   \<comment> \<open>the rune loop of \<open>strings.EqualFold\<close>\<close>
  u_quote :: "string \<Rightarrow> string"          \<comment> \<open>\<open>strconv.Quote\<close>, the verb \<open>%q\<close>\<close>

text \<open>
  Documented behaviour of \<open>strings.Map\<close> the policy relies on: it maps rune by rune, so a
  final full stop stays one.
\<close>

definition lower_keeps_dot :: "unicode \<Rightarrow> bool" where
  "lower_keeps_dot U \<longleftrightarrow> (\<forall>s. \<exists>t. u_lower U (s @ ''.'') = t @ ''.'')"

text \<open>A concrete table for evaluation: every rune beyond ASCII is caseless and no space.\<close>

definition plain_unicode :: unicode where
  "plain_unicode = \<lparr>u_lower = (\<lambda>s. s), u_upper = (\<lambda>s. s), u_trim = (\<lambda>s. s), u_trim_right = (\<lambda>s. s),
     u_fold = (\<lambda>s t. s = t), u_quote = (\<lambda>s. CHR 0x22 # s @ [CHR 0x22])\<rparr>"

lemma plain_unicode_keeps_dot: "lower_keeps_dot plain_unicode"
  by (simp add: lower_keeps_dot_def plain_unicode_def)

section \<open>Characters\<close>

abbreviation ord :: "char \<Rightarrow> nat" where
  "ord c \<equiv> of_char c"

definition is_ascii :: "char \<Rightarrow> bool" where
  "is_ascii c \<longleftrightarrow> ord c < 128"

definition ascii_lower :: "char \<Rightarrow> char" where
  "ascii_lower c = (if 65 \<le> ord c \<and> ord c \<le> 90 then char_of (ord c + 32) else c)"

definition ascii_upper :: "char \<Rightarrow> char" where
  "ascii_upper c = (if 97 \<le> ord c \<and> ord c \<le> 122 then char_of (ord c - 32) else c)"

text \<open>Go's \<open>asciiSpace\<close> table: tab, newline, vertical tab, form feed, return, blank.\<close>

definition ascii_space :: "char \<Rightarrow> bool" where
  "ascii_space c \<longleftrightarrow> ord c \<in> {9, 10, 11, 12, 13, 32}"

definition is_digit :: "char \<Rightarrow> bool" where
  "is_digit c \<longleftrightarrow> 48 \<le> ord c \<and> ord c \<le> 57"

definition digit_val :: "char \<Rightarrow> nat" where
  "digit_val c = ord c - 48"

section \<open>Package strings\<close>

definition ToLower :: "unicode \<Rightarrow> string \<Rightarrow> string" where
  "ToLower U s = (if list_all is_ascii s then map ascii_lower s else u_lower U s)"

definition ToUpper :: "unicode \<Rightarrow> string \<Rightarrow> string" where
  "ToUpper U s = (if list_all is_ascii s then map ascii_upper s else u_upper U s)"

definition TrimSpace :: "unicode \<Rightarrow> string \<Rightarrow> string" where
  "TrimSpace U s =
     (let t = dropWhile ascii_space s in
      if t = [] then []
      else if \<not> is_ascii (hd t) then u_trim U t
      else let r = rev (dropWhile ascii_space (rev t)) in
        if is_ascii (last r) then r else u_trim_right U r)"

fun EqualFold :: "unicode \<Rightarrow> string \<Rightarrow> string \<Rightarrow> bool" where
  "EqualFold U [] [] = True"
| "EqualFold U [] (c # t) = False"
| "EqualFold U (c # s) [] = False"
| "EqualFold U (a # s) (b # t) =
     (if \<not> is_ascii a \<or> \<not> is_ascii b then u_fold U (a # s) (b # t)
      else if ascii_lower a = ascii_lower b then EqualFold U s t
      else False)"

definition HasPrefix :: "string \<Rightarrow> string \<Rightarrow> bool" where
  "HasPrefix s p \<longleftrightarrow> take (length p) s = p"

definition HasSuffix :: "string \<Rightarrow> string \<Rightarrow> bool" where
  "HasSuffix s p \<longleftrightarrow> HasPrefix (rev s) (rev p)"

definition TrimPrefix :: "string \<Rightarrow> string \<Rightarrow> string" where
  "TrimPrefix s p = (if HasPrefix s p then drop (length p) s else s)"

definition TrimSuffix :: "string \<Rightarrow> string \<Rightarrow> string" where
  "TrimSuffix s p = (if HasSuffix s p then take (length s - length p) s else s)"

definition Trim :: "string \<Rightarrow> char set \<Rightarrow> string" where
  "Trim s cutset = rev (dropWhile (\<lambda>c. c \<in> cutset) (rev (dropWhile (\<lambda>c. c \<in> cutset) s)))"

text \<open>\<open>strings.Join\<close> with the separator first.\<close>

fun Join :: "string \<Rightarrow> string list \<Rightarrow> string" where
  "Join sep [] = []"
| "Join sep [s] = s"
| "Join sep (s # t # ss) = s @ sep @ Join sep (t # ss)"

text \<open>\<open>strings.Cut(s, c)\<close> for a one-byte separator: \<open>None\<close> when it does not occur.\<close>

definition Cut :: "string \<Rightarrow> char \<Rightarrow> (string \<times> string) option" where
  "Cut s c = (if c \<in> set s then Some (takeWhile (\<lambda>x. x \<noteq> c) s, tl (dropWhile (\<lambda>x. x \<noteq> c) s)) else None)"

section \<open>Package strconv\<close>

definition digits_val :: "string \<Rightarrow> nat" where
  "digits_val s = foldl (\<lambda>v c. 10 * v + digit_val c) 0 s"

text \<open>\<open>strconv.Atoi(s)\<close> and \<open>strconv.ParseInt(s, 10, 64)\<close>; \<open>None\<close> is a syntax or range error.\<close>

definition ParseInt :: "string \<Rightarrow> int option" where
  "ParseInt s =
     (let neg = (s \<noteq> [] \<and> hd s = CHR ''-'');
          ds = (if s \<noteq> [] \<and> (hd s = CHR ''-'' \<or> hd s = CHR ''+'') then tl s else s)
      in if ds = [] \<or> \<not> list_all is_digit ds then None
         else let v = int (digits_val ds) in
           if neg then (if v \<le> 2 ^ 63 then Some (- v) else None)
           else (if v < 2 ^ 63 then Some v else None))"

definition ParseBool :: "string \<Rightarrow> bool option" where
  "ParseBool s =
     (if s \<in> {''1'', ''t'', ''T'', ''true'', ''TRUE'', ''True''} then Some True
      else if s \<in> {''0'', ''f'', ''F'', ''false'', ''FALSE'', ''False''} then Some False
      else None)"

fun show_nat :: "nat \<Rightarrow> string" where
  "show_nat n = (if n < 10 then [char_of (48 + n)] else show_nat (n div 10) @ [char_of (48 + n mod 10)])"

declare show_nat.simps [simp del]

definition Itoa :: "int \<Rightarrow> string" where
  "Itoa i = (if i < 0 then CHR ''-'' # show_nat (nat (- i)) else show_nat (nat i))"

section \<open>Host and port\<close>

text \<open>\<open>strings.LastIndexByte\<close> as a split around the last occurrence.\<close>

definition split_last :: "char \<Rightarrow> string \<Rightarrow> (string \<times> string) option" where
  "split_last c s =
     (if c \<in> set s
      then Some (rev (tl (dropWhile (\<lambda>x. x \<noteq> c) (rev s))), rev (takeWhile (\<lambda>x. x \<noteq> c) (rev s)))
      else None)"

text \<open>
  \<open>net.SplitHostPort\<close>: the host is what precedes the last colon, or the bracketed part that
  ends right before it. Where the bracketed form applies, \<open>rest\<close> is what follows the first
  \<open>]\<close>: the address is well formed when that is the last colon and the port.
\<close>

definition SplitHostPort :: "string \<Rightarrow> (string, string \<times> string) result" where
  "SplitHostPort hostport =
     (case split_last CHR '':'' hostport of
        None \<Rightarrow> Inl ''missing port in address''
      | Some (pre, port) \<Rightarrow>
          if hd hostport = CHR ''[''
          then (case Cut hostport CHR '']'' of
                  None \<Rightarrow> Inl ''missing ']' in address''
                | Some (inside, rest) \<Rightarrow>
                    if rest = [] then Inl ''missing port in address''
                    else if rest = CHR '':'' # port
                    then (let host = tl inside in
                       if CHR ''['' \<in> set (tl hostport) then Inl ''unexpected '[' in address''
                       else if CHR '']'' \<in> set rest then Inl ''unexpected ']' in address''
                       else Inr (host, port))
                    else if hd rest = CHR '':'' then Inl ''too many colons in address''
                    else Inl ''missing port in address'')
          else if CHR '':'' \<in> set pre then Inl ''too many colons in address''
          else if CHR ''['' \<in> set hostport then Inl ''unexpected '[' in address''
          else if CHR '']'' \<in> set hostport then Inl ''unexpected ']' in address''
          else Inr (pre, port))"

definition JoinHostPort :: "string \<Rightarrow> string \<Rightarrow> string" where
  "JoinHostPort host port =
     (if CHR '':'' \<in> set host then ''['' @ host @ '']:'' @ port else host @ '':'' @ port)"

section \<open>Lemmas\<close>

lemma HasPrefix_append [simp]: "HasPrefix (p @ s) p"
  by (simp add: HasPrefix_def)

lemma HasPrefix_iff: "HasPrefix s p \<longleftrightarrow> (\<exists>t. s = p @ t)"
  by (metis HasPrefix_def append_eq_conv_conj append_take_drop_id)

lemma HasSuffix_iff: "HasSuffix s p \<longleftrightarrow> (\<exists>t. s = t @ p)"
  unfolding HasSuffix_def HasPrefix_iff by (metis rev_append rev_rev_ident)

lemma TrimPrefix_append [simp]: "TrimPrefix (p @ s) p = s"
  by (simp add: TrimPrefix_def)

lemma ascii_lower_upper_id: "is_ascii c \<Longrightarrow> ascii_lower (ascii_lower c) = ascii_lower c"
  by (auto simp: ascii_lower_def)

lemma dropWhile_mem: "c \<in> set s \<Longrightarrow> dropWhile (\<lambda>x. x \<noteq> c) s = c # tl (dropWhile (\<lambda>x. x \<noteq> c) s)"
  by (induction s) auto

lemma Cut_Some: 
  assumes "Cut s c = Some (a, b)"
  shows "s = a @ c # b" "c \<notin> set a"
proof -
  from assms have mem: "c \<in> set s" and a: "a = takeWhile (\<lambda>x. x \<noteq> c) s"
    and b: "b = tl (dropWhile (\<lambda>x. x \<noteq> c) s)"
    by (auto simp: Cut_def split: if_splits)
  have "takeWhile (\<lambda>x. x \<noteq> c) s @ dropWhile (\<lambda>x. x \<noteq> c) s = s" by simp
  then show "s = a @ c # b" using dropWhile_mem [OF mem] by (simp add: a b)
  show "c \<notin> set a" by (auto simp: a dest: set_takeWhileD)
qed

lemma Cut_append: "c \<notin> set a \<Longrightarrow> Cut (a @ c # b) c = Some (a, b)"
  by (auto simp: Cut_def takeWhile_append dropWhile_append)

lemma split_last_Cut: "split_last c s = map_option (\<lambda>(a, b). (rev b, rev a)) (Cut (rev s) c)"
  by (simp add: split_last_def Cut_def)

lemma split_last_append: "c \<notin> set b \<Longrightarrow> split_last c (a @ c # b) = Some (a, b)"
  by (simp add: split_last_Cut Cut_append)

lemma split_last_Some:
  assumes "split_last c s = Some (a, b)"
  shows "s = a @ c # b" "c \<notin> set b"
proof -
  from assms have cut: "Cut (rev s) c = Some (rev b, rev a)"
    by (auto simp: split_last_Cut)
  have "rev (rev s) = rev (rev b @ c # rev a)" using Cut_Some(1) [OF cut] by simp
  then show "s = a @ c # b" by simp
  show "c \<notin> set b" using Cut_Some(2) [OF cut] by simp
qed

lemma SplitHostPort_JoinHostPort:
  assumes "CHR ''['' \<notin> set host" "CHR '']'' \<notin> set host"
    and "CHR ''['' \<notin> set port" "CHR '']'' \<notin> set port" "CHR '':'' \<notin> set port"
  shows "SplitHostPort (JoinHostPort host port) = Inr (host, port)"
proof (cases "CHR '':'' \<in> set host")
  case True
  have s: "split_last CHR '':'' (''['' @ host @ '']:'' @ port) = Some (''['' @ host @ '']'', port)"
    using split_last_append [of "CHR '':''" port "''['' @ host @ '']''"] assms by simp
  have c: "Cut (''['' @ host @ '']:'' @ port) CHR '']'' = Some (''['' @ host, CHR '':'' # port)"
    using Cut_append [of "CHR '']''" "''['' @ host" "CHR '':'' # port"] assms by simp
  from s c assms True show ?thesis
    by (simp add: SplitHostPort_def JoinHostPort_def)
next
  case False
  have s: "split_last CHR '':'' (host @ CHR '':'' # port) = Some (host, port)"
    using assms by (simp add: split_last_append)
  from assms False have "hd (host @ CHR '':'' # port) \<noteq> CHR ''[''"
    by (cases host) auto
  with s assms False show ?thesis
    by (simp add: SplitHostPort_def JoinHostPort_def)
qed

end
