(* ===== verification/Go_Net.thy ===== *)
theory Go_Net
  imports Go_Strings
begin

text \<open>
  The parts of Go's \<open>net/netip\<close> and \<open>net\<close> packages the program calls: address parsing and
  printing, the address predicates, prefixes, CIDR parsing and membership. Addresses are byte
  lists (4 or 16 bytes), as \<open>net.IP\<close> is.
\<close>

unbundle bit_operations_syntax

type_synonym byte = "8 word"

section \<open>netip.Addr\<close>

text \<open>The zero \<open>Addr\<close>, an IPv4 address, an IPv6 address with its zone (empty when none).\<close>

datatype addr = AddrZero | Addr4 "byte list" | Addr6 "byte list" string

fun addr_wf :: "addr \<Rightarrow> bool" where
  "addr_wf AddrZero = True"
| "addr_wf (Addr4 b) = (length b = 4)"
| "addr_wf (Addr6 b z) = (length b = 16)"

fun Zone :: "addr \<Rightarrow> string" where
  "Zone (Addr6 b z) = z"
| "Zone _ = []"

definition addr_IsValid :: "addr \<Rightarrow> bool" where
  "addr_IsValid a \<longleftrightarrow> a \<noteq> AddrZero"

definition v4InV6Prefix :: "byte list" where
  "v4InV6Prefix = [0, 0, 0, 0, 0, 0, 0, 0, 0, 0, 0xff, 0xff]"

fun Unmap :: "addr \<Rightarrow> addr" where
  "Unmap (Addr6 b z) = (if take 12 b = v4InV6Prefix then Addr4 (drop 12 b) else Addr6 b z)"
| "Unmap a = a"

definition IPv4Unspecified :: addr where "IPv4Unspecified = Addr4 [0, 0, 0, 0]"
definition IPv6Unspecified :: addr where "IPv6Unspecified = Addr6 (replicate 16 0) []"

definition IsUnspecified :: "addr \<Rightarrow> bool" where
  "IsUnspecified a \<longleftrightarrow> a = IPv4Unspecified \<or> a = IPv6Unspecified"

definition IsLoopback :: "addr \<Rightarrow> bool" where
  "IsLoopback a = (case Unmap a of
      Addr4 b \<Rightarrow> b ! 0 = 127
    | Addr6 b z \<Rightarrow> b = replicate 15 0 @ [1]
    | AddrZero \<Rightarrow> False)"

definition IsLinkLocalUnicast :: "addr \<Rightarrow> bool" where
  "IsLinkLocalUnicast a = (case Unmap a of
      Addr4 b \<Rightarrow> b ! 0 = 169 \<and> b ! 1 = 254
    | Addr6 b z \<Rightarrow> b ! 0 = 0xfe \<and> b ! 1 AND 0xc0 = 0x80
    | AddrZero \<Rightarrow> False)"

definition IsMulticast :: "addr \<Rightarrow> bool" where
  "IsMulticast a = (case Unmap a of
      Addr4 b \<Rightarrow> b ! 0 AND 0xf0 = 0xe0
    | Addr6 b z \<Rightarrow> b ! 0 = 0xff
    | AddrZero \<Rightarrow> False)"

definition IsPrivate :: "addr \<Rightarrow> bool" where
  "IsPrivate a = (case Unmap a of
      Addr4 b \<Rightarrow> b ! 0 = 10 \<or> (b ! 0 = 172 \<and> b ! 1 AND 0xf0 = 16) \<or> (b ! 0 = 192 \<and> b ! 1 = 168)
    | Addr6 b z \<Rightarrow> b ! 0 AND 0xfe = 0xfc
    | AddrZero \<Rightarrow> False)"

definition IsGlobalUnicast :: "addr \<Rightarrow> bool" where
  "IsGlobalUnicast a =
     (if a = AddrZero then False
      else let a = Unmap a in
        if a = IPv4Unspecified \<or> a = Addr4 [255, 255, 255, 255] then False
        else a \<noteq> IPv6Unspecified \<and> \<not> IsLoopback a \<and> \<not> IsMulticast a \<and> \<not> IsLinkLocalUnicast a)"

text \<open>\<open>netip.AddrFromSlice\<close> (\<open>None\<close> when it reports \<open>!ok\<close>).\<close>

definition AddrFromSlice :: "byte list \<Rightarrow> addr option" where
  "AddrFromSlice b =
     (if length b = 4 then Some (Addr4 b) else if length b = 16 then Some (Addr6 b []) else None)"

section \<open>Masks and prefixes\<close>

text \<open>\<open>net.CIDRMask(n, 8 * len)\<close>: byte \<open>i\<close> keeps the bits \<open>8 * i\<close> up to \<open>n\<close>.\<close>

definition mask_byte :: "nat \<Rightarrow> byte" where
  "mask_byte k = (if k \<ge> 8 then 0xff else NOT (drop_bit k 0xff))"

definition CIDRMask :: "nat \<Rightarrow> nat \<Rightarrow> byte list" where
  "CIDRMask n len = map (\<lambda>i. mask_byte (n - 8 * i)) [0..<len]"

definition masked_eq :: "byte list \<Rightarrow> byte list \<Rightarrow> byte list \<Rightarrow> bool" where
  "masked_eq m a b \<longleftrightarrow> map2 (AND) a m = map2 (AND) b m"

text \<open>\<open>netip.Prefix.Contains\<close> for a prefix given by its bytes and bit length.\<close>

fun prefix_Contains :: "byte list \<times> nat \<Rightarrow> addr \<Rightarrow> bool" where
  "prefix_Contains (pb, bits) AddrZero = False"
| "prefix_Contains (pb, bits) (Addr4 b) = (length pb = 4 \<and> masked_eq (CIDRMask bits 4) pb b)"
| "prefix_Contains (pb, bits) (Addr6 b z) = (z = [] \<and> length pb = 16 \<and> masked_eq (CIDRMask bits 16) pb b)"

section \<open>Parsing addresses\<close>

text \<open>
  \<open>parseIPv4Fields\<close>: the value and the number of digits of the current octet, and the octets
  read so far. A field without digits, a leading zero, a value above 255, a fifth field and any
  other character are errors.
\<close>

fun parseIPv4Fields :: "string \<Rightarrow> nat \<Rightarrow> nat \<Rightarrow> byte list \<Rightarrow> byte list option" where
  "parseIPv4Fields [] val digLen flds =
     (if length flds < 3 then None else Some (flds @ [of_nat val]))"
| "parseIPv4Fields (c # cs) val digLen flds =
     (if is_digit c then
        (if digLen = 1 \<and> val = 0 then None
         else let val' = val * 10 + digit_val c in
           if val' > 255 then None else parseIPv4Fields cs val' (digLen + 1) flds)
      else if c = CHR ''.'' then
        (if digLen = 0 \<or> cs = [] then None
         else if length flds = 3 then None
         else parseIPv4Fields cs 0 0 (flds @ [of_nat val]))
      else None)"

definition parseIPv4 :: "string \<Rightarrow> addr option" where
  "parseIPv4 s = map_option Addr4 (parseIPv4Fields s 0 0 [])"

definition hex_val :: "char \<Rightarrow> nat option" where
  "hex_val c =
     (if is_digit c then Some (digit_val c)
      else if 97 \<le> ord c \<and> ord c \<le> 102 then Some (ord c - 87)
      else if 65 \<le> ord c \<and> ord c \<le> 70 then Some (ord c - 55)
      else None)"

text \<open>The hex digits of one group: value, number of digits, rest; \<open>None\<close> at a fifth digit.\<close>

fun hex_group :: "string \<Rightarrow> nat \<Rightarrow> nat \<Rightarrow> (nat \<times> nat \<times> string) option" where
  "hex_group [] acc off = Some (acc, off, [])"
| "hex_group (c # cs) acc off =
     (case hex_val c of
        None \<Rightarrow> Some (acc, off, c # cs)
      | Some h \<Rightarrow> if off > 3 then None else hex_group cs (16 * acc + h) (off + 1))"

text \<open>After the loop: nothing may be left, and an ellipsis stands for at least one zero group.\<close>

definition finishIPv6 :: "string \<Rightarrow> byte list \<Rightarrow> nat option \<Rightarrow> byte list option" where
  "finishIPv6 s ip ellipsis =
     (if s \<noteq> [] then None
      else if length ip < 16
      then (case ellipsis of None \<Rightarrow> None
            | Some e \<Rightarrow> Some (take e ip @ replicate (16 - length ip) 0 @ drop e ip))
      else (if ellipsis \<noteq> None then None else Some ip))"

text \<open>
  The loop of \<open>parseIPv6\<close>. Its counter \<open>i\<close> is \<open>length ip\<close> and grows by two, so the loop
  \<open>for i < 16\<close> runs at most eight times; the first argument counts the iterations left.
\<close>

fun parseIPv6Loop :: "nat \<Rightarrow> string \<Rightarrow> byte list \<Rightarrow> nat option \<Rightarrow> byte list option" where
  "parseIPv6Loop 0 s ip ellipsis = finishIPv6 s ip ellipsis"
| "parseIPv6Loop (Suc n) s ip ellipsis =
     (case hex_group s 0 0 of
        None \<Rightarrow> None
      | Some (acc, off, rest) \<Rightarrow>
          if off = 0 then None
          else if rest \<noteq> [] \<and> hd rest = CHR ''.'' then
            (if ellipsis = None \<and> length ip \<noteq> 12 then None
             else if length ip + 4 > 16 then None
             else (case parseIPv4Fields s 0 0 [] of
                     None \<Rightarrow> None
                   | Some four \<Rightarrow> finishIPv6 [] (ip @ four) ellipsis))
          else let ip' = ip @ [of_nat (acc div 256), of_nat (acc mod 256)] in
            (case rest of
               [] \<Rightarrow> finishIPv6 [] ip' ellipsis
             | c # s1 \<Rightarrow>
                 if c \<noteq> CHR '':'' then None
                 else (case s1 of
                         [] \<Rightarrow> None
                       | c1 # s2 \<Rightarrow>
                           if c1 = CHR '':'' then
                             (if ellipsis \<noteq> None then None
                              else if s2 = [] then finishIPv6 [] ip' (Some (length ip'))
                              else parseIPv6Loop n s2 ip' (Some (length ip')))
                           else parseIPv6Loop n s1 ip' ellipsis)))"

definition parseIPv6 :: "string \<Rightarrow> addr option" where
  "parseIPv6 s0 =
     (case (case Cut s0 CHR ''%'' of None \<Rightarrow> Some (s0, []) | Some (s, z) \<Rightarrow> if z = [] then None else Some (s, z)) of
        None \<Rightarrow> None
      | Some (s, zone) \<Rightarrow>
          if take 2 s = ''::'' then
            (if drop 2 s = [] then Some (Addr6 (replicate 16 0) zone)
             else map_option (\<lambda>b. Addr6 b zone) (parseIPv6Loop 8 (drop 2 s) [] (Some 0)))
          else map_option (\<lambda>b. Addr6 b zone) (parseIPv6Loop 8 s [] None))"

text \<open>\<open>netip.ParseAddr\<close>: the first of \<open>.\<close>, \<open>:\<close> and \<open>%\<close> decides.\<close>

definition ParseAddr :: "string \<Rightarrow> addr option" where
  "ParseAddr s =
     (case find (\<lambda>c. c = CHR ''.'' \<or> c = CHR '':'' \<or> c = CHR ''%'') s of
        None \<Rightarrow> None
      | Some c \<Rightarrow> if c = CHR ''.'' then parseIPv4 s else if c = CHR '':'' then parseIPv6 s else None)"

section \<open>Printing addresses\<close>

definition hex_digit :: "nat \<Rightarrow> char" where
  "hex_digit n = (if n < 10 then char_of (48 + n) else char_of (87 + n))"

fun show_hex :: "nat \<Rightarrow> string" where
  "show_hex n = (if n < 16 then [hex_digit n] else show_hex (n div 16) @ [hex_digit (n mod 16)])"

declare show_hex.simps [simp del]

definition string4 :: "byte list \<Rightarrow> string" where
  "string4 b = Join ''.'' (map (\<lambda>x. show_nat (unat x)) b)"

fun v6groups :: "byte list \<Rightarrow> nat list" where
  "v6groups (a # b # bs) = (256 * unat a + unat b) # v6groups bs"
| "v6groups _ = []"

text \<open>The first longest run of at least two zero groups, as \<open>[start, end)\<close>; empty when none.\<close>

definition zero_run :: "nat list \<Rightarrow> nat \<times> nat" where
  "zero_run ws =
     foldl (\<lambda>(s, e) i. let j = i + length (takeWhile (\<lambda>w. w = 0) (drop i ws)) in
              if j - i \<ge> 2 \<and> j - i > e - s then (i, j) else (s, e)) (255, 255) [0..<length ws]"

definition string6 :: "byte list \<Rightarrow> string" where
  "string6 b =
     (let ws = v6groups b; (zs, ze) = zero_run ws in
      if zs = 255 then Join '':'' (map show_hex ws)
      else Join '':'' (map show_hex (take zs ws)) @ ''::'' @ Join '':'' (map show_hex (drop ze ws)))"

fun addr_String :: "addr \<Rightarrow> string" where
  "addr_String AddrZero = ''invalid IP''"
| "addr_String (Addr4 b) = string4 b"
| "addr_String (Addr6 b z) =
     (if take 12 b = v4InV6Prefix then ''::ffff:'' @ string4 (drop 12 b) else string6 b)
     @ (if z = [] then [] else CHR ''%'' # z)"

section \<open>net.IP, net.IPNet and ParseCIDR\<close>

definition To4 :: "byte list \<Rightarrow> byte list option" where
  "To4 ip = (if length ip = 4 then Some ip
     else if length ip = 16 \<and> take 12 ip = v4InV6Prefix then Some (drop 12 ip) else None)"

record ipnet =
  net_IP :: "byte list"
  net_Mask :: "byte list"

text \<open>\<open>networkNumberAndMask\<close>; the empty pair when the lengths do not fit.\<close>

definition networkNumberAndMask :: "ipnet \<Rightarrow> byte list \<times> byte list" where
  "networkNumberAndMask n =
     (let ip = (case To4 (net_IP n) of Some x \<Rightarrow> x | None \<Rightarrow> net_IP n); m = net_Mask n in
      if length ip \<noteq> 4 \<and> length ip \<noteq> 16 then ([], [])
      else if length m = 4 then (if length ip = 4 then (ip, m) else ([], []))
      else if length m = 16 then (if length ip = 4 then (ip, drop 12 m) else (ip, m))
      else ([], []))"

definition ipnet_Contains :: "ipnet \<Rightarrow> byte list \<Rightarrow> bool" where
  "ipnet_Contains n ip0 =
     (let (nn, m) = networkNumberAndMask n; ip = (case To4 ip0 of Some x \<Rightarrow> x | None \<Rightarrow> ip0) in
      length ip = length nn \<and> masked_eq m nn ip)"

text \<open>\<open>dtoi\<close>: the decimal prefix, refused when empty or at least \<open>0xFFFFFF\<close>.\<close>

definition dtoi_all :: "string \<Rightarrow> nat option" where
  "dtoi_all s = (if s = [] \<or> \<not> list_all is_digit s \<or> digits_val s \<ge> 0xFFFFFF then None else Some (digits_val s))"

text \<open>\<open>net.ParseIP\<close>: the 16-byte form, \<open>None\<close> is \<open>nil\<close>; and \<open>IP.IsUnspecified\<close>.\<close>

definition ParseIP :: "string \<Rightarrow> byte list option" where
  "ParseIP s =
     (case ParseAddr s of
        Some (Addr4 b) \<Rightarrow> Some (v4InV6Prefix @ b)
      | Some (Addr6 b z) \<Rightarrow> if z = [] then Some b else None
      | _ \<Rightarrow> None)"

definition IP_IsUnspecified :: "byte list \<Rightarrow> bool" where
  "IP_IsUnspecified ip \<longleftrightarrow> To4 ip = Some [0, 0, 0, 0] \<or> ip = replicate 16 0"

definition ParseCIDR :: "string \<Rightarrow> ipnet option" where
  "ParseCIDR s =
     (case Cut s CHR ''/'' of
        None \<Rightarrow> None
      | Some (a, mk) \<Rightarrow>
          (case ParseAddr a of
             None \<Rightarrow> None
           | Some AddrZero \<Rightarrow> None
           | Some (Addr4 b) \<Rightarrow>
               (case dtoi_all mk of
                  None \<Rightarrow> None
                | Some n \<Rightarrow> if n > 32 then None
                    else Some \<lparr>net_IP = map2 (AND) b (CIDRMask n 4), net_Mask = CIDRMask n 4\<rparr>)
           | Some (Addr6 b z) \<Rightarrow>
               if z \<noteq> [] then None
               else (case dtoi_all mk of
                       None \<Rightarrow> None
                     | Some n \<Rightarrow> if n > 128 then None
                         else Some \<lparr>net_IP = map2 (AND) b (CIDRMask n 16), net_Mask = CIDRMask n 16\<rparr>)))"

section \<open>Bytes under a mask\<close>

lemma nat_and_high_bits:
  assumes "(n::nat) < 2 ^ N" "j \<le> N"
  shows "n AND push_bit j (mask (N - j)) = 2 ^ j * (n div 2 ^ j)"
proof -
  have n: "take_bit N n = n" using assms(1) by (simp add: take_bit_nat_eq_self_iff)
  have lt: "bit n k \<Longrightarrow> k < N" for k
    using n by (metis bit_take_bit_iff)
  have "n AND push_bit j (mask (N - j)) = push_bit j (drop_bit j n)"
    by (rule bit_eqI) (use lt assms(2) in \<open>auto simp: bit_simps intro: diff_less_mono\<close>)
  then show ?thesis by (simp add: push_bit_eq_mult drop_bit_eq_div mult.commute)
qed

lemma byte_bound: "unat (x::byte) < 256"
  using unsigned_less [of x, where 'a = nat] by simp

lemma byte_and_high_bits:
  assumes "unat m = push_bit j (mask (8 - j))" "j \<le> 8"
  shows "unat ((x::byte) AND m) = 2 ^ j * (unat x div 2 ^ j)"
proof -
  have "unat x < 2 ^ 8" using byte_bound [of x] by simp
  from nat_and_high_bits [OF this assms(2)] show ?thesis
    by (simp add: unsigned_and_eq assms(1))
qed

lemma byte_and_f0: "unat ((x::byte) AND 0xf0) = 16 * (unat x div 16)"
  using byte_and_high_bits [of "0xf0" 4 x] by (simp add: push_bit_eq_mult mask_eq_exp_minus_1)

lemma byte_and_fe: "unat ((x::byte) AND 0xfe) = 2 * (unat x div 2)"
  using byte_and_high_bits [of "0xfe" 1 x] by (simp add: push_bit_eq_mult mask_eq_exp_minus_1)

lemma byte_and_c0: "unat ((x::byte) AND 0xc0) = 64 * (unat x div 64)"
  using byte_and_high_bits [of "0xc0" 6 x] by (simp add: push_bit_eq_mult mask_eq_exp_minus_1)

lemma byte_eq_unat: "(x::byte) = y \<longleftrightarrow> unat x = unat y"
  by (simp add: word_unat_eq_iff)

end
