(* ===== verification/Token.thy ===== *)
theory Token
  imports Allocator Go_Net
begin

text \<open>
  Lease tokens (\<open>mintToken\<close> in \<open>src/internal/tunnel/lease/store.go\<close>): 20 random bytes in
  unpadded lower-case base32. The random source is the argument of \<open>mintToken\<close>: an error or
  the bytes it delivered.
\<close>

section \<open>Model\<close>

definition alphabet :: string where
  "alphabet = ''abcdefghijklmnopqrstuvwxyz234567''"

text \<open>The bits of a byte and of a list of bytes, most significant first.\<close>

definition byte_bits :: "byte \<Rightarrow> bool list" where
  "byte_bits b = map (bit b) [7, 6, 5, 4, 3, 2, 1, 0]"

definition bits_val :: "bool list \<Rightarrow> nat" where
  "bits_val bs = horner_sum of_bool 2 (rev bs)"

text \<open>Groups of five bits, the last one filled up with zero bits.\<close>

fun quintets :: "bool list \<Rightarrow> bool list list" where
  "quintets (a # b # c # d # e # bs) = [a, b, c, d, e] # quintets bs"
| "quintets [] = []"
| "quintets bs = [bs @ replicate (5 - length bs) False]"

definition EncodeToString :: "byte list \<Rightarrow> string" where
  "EncodeToString bytes = map (\<lambda>q. alphabet ! bits_val q) (quintets (concat (map byte_bits bytes)))"

definition mintToken :: "(string, byte list) result \<Rightarrow> (lease_error, string) result" where
  "mintToken rnd = (case rnd of Inl e \<Rightarrow> Inl (ErrOther e) | Inr buf \<Rightarrow> Inr (EncodeToString buf))"

section \<open>Lemmas\<close>

lemma length_alphabet: "length alphabet = 32"
  by (simp add: alphabet_def)

lemma distinct_alphabet: "distinct alphabet"
  by (simp add: alphabet_def)

lemma length_byte_bits [simp]: "length (byte_bits b) = 8"
  by (simp add: byte_bits_def)

lemma byte_bits_inj: "byte_bits a = byte_bits b \<Longrightarrow> a = b"
proof (rule bit_word_eqI)
  fix n :: nat
  assume eq: "byte_bits a = byte_bits b" and "n < LENGTH(8)"
  then have "n \<in> {0, 1, 2, 3, 4, 5, 6, 7}" by auto
  with eq show "bit a n \<longleftrightarrow> bit b n" by (auto simp: byte_bits_def)
qed

lemma bits_val_inj:
  assumes "length xs = length ys" "bits_val xs = bits_val ys"
  shows "xs = ys"
proof -
  have "rev xs = rev ys"
  proof (rule nth_equalityI)
    fix i assume "i < length (rev xs)"
    moreover have "bit (bits_val xs) i \<longleftrightarrow> bit (bits_val ys) i" using assms(2) by simp
    ultimately show "rev xs ! i = rev ys ! i"
      using assms(1) by (simp add: bits_val_def bit_horner_sum_bit_iff)
  qed (use assms in simp)
  then show ?thesis by simp
qed

lemma bits_val_less: "bits_val bs < 2 ^ length bs"
  by (metis bits_val_def horner_sum_of_bool_2_less length_rev)

lemma quintets_lengths: "q \<in> set (quintets bs) \<Longrightarrow> length q = 5"
  by (induction bs rule: quintets.induct) auto

lemma quintets_append:
  "length xs = 5 \<Longrightarrow> quintets (xs @ bs) = xs # quintets bs"
  by (auto simp: length_Suc_conv numeral_eq_Suc)

lemma quintets_exact:
  "5 dvd length bs \<Longrightarrow> concat (quintets bs) = bs \<and> length (quintets bs) = length bs div 5"
proof (induction "length bs div 5" arbitrary: bs)
  case 0
  then have "bs = []" by (auto elim!: dvdE)
  then show ?case by simp
next
  case (Suc n)
  then have len: "5 \<le> length bs" by (auto elim!: dvdE)
  define xs ys where "xs = take 5 bs" and "ys = drop 5 bs"
  then have bs: "bs = xs @ ys" and xs: "length xs = 5" using len by auto
  have "5 dvd length ys" "n = length ys div 5"
    using Suc.prems Suc.hyps(2) by (auto simp: bs xs)
  with Suc.hyps(1) [of ys] show ?case by (simp add: bs xs quintets_append)
qed

lemma concat_map_inj:
  assumes "concat (map f as) = concat (map f bs)" "\<And>x. length (f x) = n" "0 < n"
    "\<And>x y. f x = f y \<Longrightarrow> x = y"
  shows "as = bs"
  using assms(1)
proof (induction as arbitrary: bs)
  case Nil
  then show ?case using assms(2,3) by (cases bs) (auto, metis length_0_conv less_irrefl)
next
  case (Cons a as)
  show ?case
  proof (cases bs)
    case Nil
    with Cons.prems assms(2) [of a] assms(3) show ?thesis by auto
  next
    case (Cons b bs')
    with Cons.prems assms(2) have "f a = f b" "concat (map f as) = concat (map f bs')" by auto
    with Cons Cons.IH assms(4) show ?thesis by auto
  qed
qed

lemma length_concat_bits: "length (concat (map byte_bits bytes)) = 8 * length bytes"
  by (induction bytes) auto

lemma EncodeToString_inj:
  assumes "5 dvd length xs" "length xs = length ys" "EncodeToString xs = EncodeToString ys"
  shows "xs = ys"
proof -
  let ?q = "\<lambda>bytes. quintets (concat (map byte_bits bytes))"
  have "?q xs = ?q ys"
  proof (rule map_inj_on [OF assms(3) [unfolded EncodeToString_def]], rule inj_onI)
    fix p q assume "p \<in> set (?q xs) \<union> set (?q ys)" "q \<in> set (?q xs) \<union> set (?q ys)"
      and eq: "alphabet ! bits_val p = alphabet ! bits_val q"
    then have len: "length p = 5" "length q = 5" by (auto dest: quintets_lengths)
    then have "bits_val p < 32" "bits_val q < 32"
      using bits_val_less [of p] bits_val_less [of q] by simp_all
    with eq have "bits_val p = bits_val q"
      by (simp add: nth_eq_iff_index_eq distinct_alphabet length_alphabet)
    with len show "p = q" by (simp add: bits_val_inj)
  qed
  moreover have "concat (?q bytes) = concat (map byte_bits bytes)" if "5 dvd length bytes" for bytes
    using quintets_exact [of "concat (map byte_bits bytes)"] that by (simp add: length_concat_bits)
  ultimately have "concat (map byte_bits xs) = concat (map byte_bits ys)"
    using assms(1,2) by metis
  then show ?thesis
    by (rule concat_map_inj [where n = 8]) (auto intro: byte_bits_inj)
qed

lemma EncodeToString_alphabet: "set (EncodeToString bytes) \<subseteq> set alphabet"
proof -
  have "alphabet ! bits_val q \<in> set alphabet" if "q \<in> set (quintets bs)" for q bs
    using quintets_lengths [OF that] bits_val_less [of q] by (simp add: length_alphabet)
  then show ?thesis by (auto simp: EncodeToString_def)
qed

lemma length_EncodeToString: "5 dvd length bytes \<Longrightarrow> length (EncodeToString bytes) = 8 * length bytes div 5"
  using quintets_exact [of "concat (map byte_bits bytes)"]
  by (simp add: EncodeToString_def length_concat_bits)

section \<open>Properties\<close>

text \<open>
  Tokens keep the entropy of the random source: from 20 random bytes \<open>mintToken\<close> makes a
  32-character token over the 32-letter alphabet (so it is safe as an SSH user name), and two
  different draws never give the same token.
\<close>

lemma mint_token_faithful:
  assumes "length a = 20" "length b = 20" "mintToken (Inr a) = Inr s" "mintToken (Inr b) = Inr t"
  shows "length s = 32 \<and> set s \<subseteq> set alphabet \<and> (s = t \<longleftrightarrow> a = b)"
  using assms EncodeToString_alphabet [of a] EncodeToString_inj [of a b]
  by (auto simp: mintToken_def length_EncodeToString)

end
