(* ===== verification/Lease_Store.thy ===== *)
theory Lease_Store
  imports Token "HOL-Library.Char_ord" "HOL-Library.List_Lexorder" "HOL-Library.Multiset"
begin

text \<open>
  The lease store (\<open>src/internal/tunnel/lease/store.go\<close>). The two in-memory indexes hold
  pointers to shared \<open>Lease\<close> objects and \<open>Extend\<close> mutates through them, so the objects live in
  an explicit heap. The database is bbolt, a third-party package: its operations are the
  parameter \<open>B\<close>, and \<open>bolt_ok\<close> states what its documentation promises. The JSON codec of a
  lease is the parameter \<open>J\<close>; the clock, the random source, the port probe and the iteration
  order of maps are arguments.
\<close>

section \<open>Leases\<close>

definition StatusActive :: string where "StatusActive = ''active''"
definition StatusExpired :: string where "StatusExpired = ''expired''"
definition StatusRevoked :: string where "StatusRevoked = ''revoked''"

record Lease =
  l_LeaseID :: string
  l_Token :: string
  l_AllocatedPort :: int
  l_AllowlistCIDRs :: "string list"
  l_CreatedAt :: time
  l_ExpiresAt :: time
  l_Status :: string

definition Expired :: "Lease \<Rightarrow> time \<Rightarrow> bool" where
  "Expired l now \<longleftrightarrow> \<not> time_Before now (l_ExpiresAt l)"

definition AllowsIP :: "Lease \<Rightarrow> byte list \<Rightarrow> bool" where
  "AllowsIP l ip =
     (if l_AllowlistCIDRs l = [] then True
      else list_ex (\<lambda>c. case ParseCIDR c of None \<Rightarrow> False | Some n \<Rightarrow> ipnet_Contains n ip) (l_AllowlistCIDRs l))"

record CreateParams =
  cp_LeaseID :: string
  cp_Duration :: duration
  cp_AllowlistCIDRs :: "string list"

section \<open>What lies outside: bbolt and JSON\<close>

text \<open>
  \<open>bolt_update\<close> is \<open>db.Update\<close>; the other operations act inside a transaction, on the bucket
  of leases. \<open>bolt_entries\<close> lists the bucket as \<open>ForEach\<close> visits it.
\<close>

record 'db bolt =
  bolt_update :: "('db \<Rightarrow> (string, 'db) result) \<Rightarrow> 'db \<Rightarrow> string option \<times> 'db"
  bolt_bucket :: "'db \<Rightarrow> bool"
  bolt_create :: "'db \<Rightarrow> (string, 'db) result"
  bolt_put :: "string \<Rightarrow> string \<Rightarrow> 'db \<Rightarrow> (string, 'db) result"
  bolt_delete :: "string \<Rightarrow> 'db \<Rightarrow> (string, 'db) result"
  bolt_entries :: "'db \<Rightarrow> (string \<times> string) list"

definition rows :: "'db bolt \<Rightarrow> 'db \<Rightarrow> string \<Rightarrow> string option" where
  "rows B d = map_of (bolt_entries B d)"

text \<open>
  Documented behaviour: an update whose function returns \<open>nil\<close> either commits it or reports an
  error and leaves the database as it was; one whose function fails is rolled back and reports
  an error. Put, delete and bucket creation act on the bucket as on a map.
\<close>

definition bolt_ok :: "'db bolt \<Rightarrow> bool" where
  "bolt_ok B \<longleftrightarrow>
     (\<forall>f d d'. bolt_update B f d = (None, d') \<longrightarrow>
        (\<exists>d1. f d = Inr d1 \<and> rows B d' = rows B d1 \<and> bolt_bucket B d' = bolt_bucket B d1)) \<and>
     (\<forall>f d e d'. bolt_update B f d = (Some e, d') \<longrightarrow>
        rows B d' = rows B d \<and> bolt_bucket B d' = bolt_bucket B d) \<and>
     (\<forall>k v d d'. bolt_bucket B d \<longrightarrow> bolt_put B k v d = Inr d' \<longrightarrow>
        rows B d' = (rows B d)(k \<mapsto> v) \<and> bolt_bucket B d') \<and>
     (\<forall>k d d'. bolt_bucket B d \<longrightarrow> bolt_delete B k d = Inr d' \<longrightarrow>
        rows B d' = (rows B d)(k := None) \<and> bolt_bucket B d') \<and>
     (\<forall>d d'. bolt_create B d = Inr d' \<longrightarrow> rows B d' = rows B d \<and> bolt_bucket B d') \<and>
     (\<forall>d. distinct (map fst (bolt_entries B d)))"

record codec =
  marshal :: "Lease \<Rightarrow> (string, string) result"
  unmarshal :: "string \<Rightarrow> Lease option"

text \<open>Well-formed UTF-8, the strings JSON transports unchanged.\<close>

definition cont :: "char \<Rightarrow> bool" where
  "cont c \<longleftrightarrow> 0x80 \<le> ord c \<and> ord c \<le> 0xBF"

fun utf8_valid :: "string \<Rightarrow> bool" where
  "utf8_valid [] = True"
| "utf8_valid (a # s) =
     (if ord a < 0x80 then utf8_valid s
      else if 0xC2 \<le> ord a \<and> ord a \<le> 0xDF then
        (case s of b # t \<Rightarrow> cont b \<and> utf8_valid t | _ \<Rightarrow> False)
      else if 0xE0 \<le> ord a \<and> ord a \<le> 0xEF then
        (case s of b # c # t \<Rightarrow> cont b \<and> cont c \<and> (ord a = 0xE0 \<longrightarrow> 0xA0 \<le> ord b)
            \<and> (ord a = 0xED \<longrightarrow> ord b \<le> 0x9F) \<and> utf8_valid t | _ \<Rightarrow> False)
      else if 0xF0 \<le> ord a \<and> ord a \<le> 0xF4 then
        (case s of b # c # d # t \<Rightarrow> cont b \<and> cont c \<and> cont d \<and> (ord a = 0xF0 \<longrightarrow> 0x90 \<le> ord b)
            \<and> (ord a = 0xF4 \<longrightarrow> ord b \<le> 0x8F) \<and> utf8_valid t | _ \<Rightarrow> False)
      else False)"

definition wire_ok :: "Lease \<Rightarrow> bool" where
  "wire_ok l \<longleftrightarrow> utf8_valid (l_LeaseID l) \<and> utf8_valid (l_Token l) \<and> list_all utf8_valid (l_AllowlistCIDRs l)"

text \<open>Decoding what was encoded gives the lease back (an instant outside RFC 3339 does not encode).\<close>

definition codec_ok :: "codec \<Rightarrow> bool" where
  "codec_ok J \<longleftrightarrow> (\<forall>l bs. wire_ok l \<longrightarrow> marshal J l = Inr bs \<longrightarrow> unmarshal J bs = Some l)"

section \<open>The store\<close>

record 'db Store =
  s_db :: 'db
  s_heap :: "nat \<Rightarrow> Lease option"
  s_brk :: nat
  s_byID :: "(string, nat) gomap"
  s_byToken :: "(string, nat) gomap"
  s_alloc :: portAllocator

text \<open>Allocate an object and enter it into both indexes.\<close>

definition index_lease :: "Lease \<Rightarrow> 'db Store \<Rightarrow> 'db Store" where
  "index_lease l s =
     s\<lparr>s_heap := (s_heap s)(s_brk s \<mapsto> l), s_brk := Suc (s_brk s),
       s_byID := gm_put (l_LeaseID l) (s_brk s) (s_byID s),
       s_byToken := gm_put (l_Token l) (s_brk s) (s_byToken s)\<rparr>"

text \<open>The body of the \<open>ForEach\<close> callback of \<open>Open\<close>: the store so far and the stale keys.\<close>

definition load_entry ::
  "codec \<Rightarrow> time \<Rightarrow> int \<Rightarrow> int \<Rightarrow> 'db Store \<times> string list \<Rightarrow> string \<times> string \<Rightarrow> 'db Store \<times> string list" where
  "load_entry J now minPort maxPort acc kv =
     (case (acc, kv) of ((s, stale), (k, v)) \<Rightarrow>
        (case unmarshal J v of
           None \<Rightarrow> (s, stale @ [k])
         | Some l \<Rightarrow>
             if l_Status l \<noteq> StatusActive \<or> Expired l now then (s, stale @ [k])
             else if l_AllocatedPort l < minPort \<or> l_AllocatedPort l > maxPort then (s, stale @ [k])
             else (let s1 = index_lease l s in
                   (s1\<lparr>s_alloc := reserve (l_AllocatedPort l) (s_alloc s1)\<rparr>, stale))))"

fun delete_all :: "'db bolt \<Rightarrow> string list \<Rightarrow> 'db \<Rightarrow> (string, 'db) result" where
  "delete_all B [] d = Inr d"
| "delete_all B (k # ks) d = (case bolt_delete B k d of Inl e \<Rightarrow> Inl e | Inr d' \<Rightarrow> delete_all B ks d')"

definition empty_store :: "int \<Rightarrow> int \<Rightarrow> 'db \<Rightarrow> 'db Store" where
  "empty_store minPort maxPort d =
     \<lparr>s_db = d, s_heap = Map.empty, s_brk = 0, s_byID = [], s_byToken = [],
      s_alloc = newPortAllocator minPort maxPort\<rparr>"

definition load_all :: "'db bolt \<Rightarrow> codec \<Rightarrow> time \<Rightarrow> int \<Rightarrow> int \<Rightarrow> 'db \<Rightarrow> 'db Store \<times> string list" where
  "load_all B J now minPort maxPort d =
     foldl (load_entry J now minPort maxPort) (empty_store minPort maxPort d, []) (bolt_entries B d)"

text \<open>\<open>opened\<close> is the outcome of \<open>bolt.Open\<close>; \<open>open_tx\<close> is the transaction of \<open>Open\<close>.\<close>

definition open_tx :: "'db bolt \<Rightarrow> codec \<Rightarrow> time \<Rightarrow> int \<Rightarrow> int \<Rightarrow> 'db \<Rightarrow> (string, 'db Store) result" where
  "open_tx B J now minPort maxPort d =
     (case bolt_create B d of
        Inl e \<Rightarrow> Inl e
      | Inr d1 \<Rightarrow>
          (case load_all B J now minPort maxPort d1 of (s, stale) \<Rightarrow>
             (case delete_all B stale d1 of Inl e \<Rightarrow> Inl e | Inr d2 \<Rightarrow> Inr (s\<lparr>s_db := d2\<rparr>))))"

definition Open ::
  "'db bolt \<Rightarrow> codec \<Rightarrow> time \<Rightarrow> int \<Rightarrow> int \<Rightarrow> (string, 'db) result \<Rightarrow> (string, 'db Store) result" where
  "Open B J now minPort maxPort opened =
     (case opened of
        Inl e \<Rightarrow> Inl (''open lease db: '' @ e)
      | Inr d \<Rightarrow>
          (case bolt_update B (\<lambda>d. map_sum id s_db (open_tx B J now minPort maxPort d)) d of
             (Some e, _) \<Rightarrow> Inl e
           | (None, d') \<Rightarrow> map_sum id (s_db_update (\<lambda>_. d')) (open_tx B J now minPort maxPort d)))"

definition persist :: "'db bolt \<Rightarrow> codec \<Rightarrow> Lease \<Rightarrow> 'db \<Rightarrow> lease_error option \<times> 'db" where
  "persist B J l d =
     (case marshal J l of
        Inl e \<Rightarrow> (Some (ErrOther e), d)
      | Inr bytes \<Rightarrow>
          (case bolt_update B (\<lambda>d. if \<not> bolt_bucket B d then Inl ''leases bucket missing''
                                 else bolt_put B (l_LeaseID l) bytes d) d of
             (Some e, d') \<Rightarrow> (Some (ErrOther e), d')
           | (None, d') \<Rightarrow> (None, d')))"

definition Get :: "'db Store \<Rightarrow> string \<Rightarrow> Lease option" where
  "Get s i = (case gm_get (s_byID s) i of None \<Rightarrow> None | Some p \<Rightarrow> s_heap s p)"

definition ByToken :: "'db Store \<Rightarrow> string \<Rightarrow> Lease option" where
  "ByToken s t =
     (case gm_get (s_byToken s) t of
        None \<Rightarrow> None
      | Some p \<Rightarrow> (case s_heap s p of None \<Rightarrow> None | Some l \<Rightarrow> if l_Token l \<noteq> t then None else Some l))"

definition Create ::
  "'db bolt \<Rightarrow> codec \<Rightarrow> probe_outcome \<Rightarrow> (string, byte list) result \<Rightarrow> time \<Rightarrow> CreateParams \<Rightarrow> 'db Store
   \<Rightarrow> (lease_error, Lease) result \<times> 'db Store" where
  "Create B J probe rnd now p s =
     (case Get s (cp_LeaseID p) of
        Some existing \<Rightarrow> (Inr existing, s)
      | None \<Rightarrow>
          (case find (\<lambda>c. ParseCIDR c = None) (cp_AllowlistCIDRs p) of
             Some c \<Rightarrow> (Inl (ErrInvalidCIDR c), s)
           | None \<Rightarrow>
               (case allocate probe (s_alloc s) of
                  (Inl e, a1) \<Rightarrow> (Inl e, s\<lparr>s_alloc := a1\<rparr>)
                | (Inr port, a1) \<Rightarrow>
                    (case mintToken rnd of
                       Inl e \<Rightarrow> (Inl e, s\<lparr>s_alloc := release port a1\<rparr>)
                     | Inr token \<Rightarrow>
                         (let l = \<lparr>l_LeaseID = cp_LeaseID p, l_Token = token, l_AllocatedPort = port,
                                   l_AllowlistCIDRs = cp_AllowlistCIDRs p, l_CreatedAt = now,
                                   l_ExpiresAt = time_Add now (cp_Duration p), l_Status = StatusActive\<rparr>
                          in case persist B J l (s_db s) of
                               (Some e, d') \<Rightarrow> (Inl e, s\<lparr>s_db := d', s_alloc := release port a1\<rparr>)
                             | (None, d') \<Rightarrow> (Inr l, index_lease l (s\<lparr>s_db := d', s_alloc := a1\<rparr>)))))))"

definition Extend ::
  "'db bolt \<Rightarrow> codec \<Rightarrow> string \<Rightarrow> duration \<Rightarrow> 'db Store \<Rightarrow> (lease_error, Lease) result \<times> 'db Store" where
  "Extend B J i d s =
     (case gm_get (s_byID s) i of
        None \<Rightarrow> (Inl ErrNotFound, s)
      | Some p \<Rightarrow>
          (case s_heap s p of
             None \<Rightarrow> (Inl ErrNotFound, s)
           | Some l \<Rightarrow>
               (let updated = l\<lparr>l_ExpiresAt := time_Add (l_ExpiresAt l) d\<rparr> in
                case persist B J updated (s_db s) of
                  (Some e, d') \<Rightarrow> (Inl e, s\<lparr>s_db := d'\<rparr>)
                | (None, d') \<Rightarrow>
                    (let l' = l\<lparr>l_ExpiresAt := l_ExpiresAt updated\<rparr> in
                     (Inr l', s\<lparr>s_db := d', s_heap := (s_heap s)(p \<mapsto> l')\<rparr>)))))"

text \<open>\<open>remove(id, _)\<close>; \<open>None\<close> is the \<open>nil\<close> error.\<close>

definition remove :: "'db bolt \<Rightarrow> string \<Rightarrow> 'db Store \<Rightarrow> lease_error option \<times> 'db Store" where
  "remove B i s =
     (case gm_get (s_byID s) i of
        None \<Rightarrow> (Some ErrNotFound, s)
      | Some p \<Rightarrow>
          (case s_heap s p of
             None \<Rightarrow> (Some ErrNotFound, s)
           | Some l \<Rightarrow>
               (case bolt_update B (\<lambda>d. if \<not> bolt_bucket B d then Inr d else bolt_delete B i d) (s_db s) of
                  (Some e, d') \<Rightarrow> (Some (ErrOther e), s\<lparr>s_db := d'\<rparr>)
                | (None, d') \<Rightarrow>
                    (None, s\<lparr>s_db := d', s_byID := gm_del i (s_byID s),
                             s_byToken := gm_del (l_Token l) (s_byToken s),
                             s_alloc := release (l_AllocatedPort l) (s_alloc s)\<rparr>))))"

definition Revoke :: "'db bolt \<Rightarrow> string \<Rightarrow> 'db Store \<Rightarrow> lease_error option \<times> 'db Store" where
  "Revoke B i s = remove B i s"

definition MarkExpired :: "'db bolt \<Rightarrow> string \<Rightarrow> 'db Store \<Rightarrow> lease_error option \<times> 'db Store" where
  "MarkExpired B i s = remove B i s"

text \<open>The result is \<open>(wasExpired, removed, err)\<close>.\<close>

definition MarkExpiredIfBefore ::
  "'db bolt \<Rightarrow> string \<Rightarrow> time \<Rightarrow> 'db Store \<Rightarrow> (bool \<times> bool \<times> lease_error option) \<times> 'db Store" where
  "MarkExpiredIfBefore B i cutoff s =
     (case Get s i of
        None \<Rightarrow> ((False, False, None), s)
      | Some l \<Rightarrow>
          if time_After (l_ExpiresAt l) cutoff then ((False, False, None), s)
          else (case remove B i s of
                  (Some e, s') \<Rightarrow> ((True, False, Some e), s')
                | (None, s') \<Rightarrow> ((True, True, None), s')))"

text \<open>\<open>rng\<close> is the order in which \<open>for range\<close> visits the index.\<close>

definition store_List :: "((string, nat) gomap \<Rightarrow> (string, nat) gomap) \<Rightarrow> 'db Store \<Rightarrow> Lease list" where
  "store_List rng s = sort_key l_LeaseID (List.map_filter (\<lambda>(i, p). s_heap s p) (rng (s_byID s)))"

definition ExpiredBefore :: "((string, nat) gomap \<Rightarrow> (string, nat) gomap) \<Rightarrow> time \<Rightarrow> 'db Store \<Rightarrow> string list" where
  "ExpiredBefore rng now s =
     map fst (filter (\<lambda>(i, p). case s_heap s p of None \<Rightarrow> False | Some l \<Rightarrow> Expired l now) (rng (s_byID s)))"

definition Stats :: "'db Store \<Rightarrow> int \<times> int" where
  "Stats s = (int (length (s_byID s)), free (s_alloc s))"

end
