(* ===== verification/Lease_Invariant.thy ===== *)
theory Lease_Invariant
  imports Lease_Store
begin

text \<open>
  The invariant of the lease store and its preservation: the two indexes agree and share their
  objects, every live lease owns one port of the allocator, and the database holds exactly the
  live leases. \<open>Get\<close> is the abstraction: each operation is described by its effect on the map
  from identifiers to leases.
\<close>

section \<open>The invariant\<close>

definition idx_inv :: "'db Store \<Rightarrow> bool" where
  "idx_inv s \<longleftrightarrow> gm_wf (s_byID s) \<and> gm_wf (s_byToken s) \<and>
     (\<forall>i p. gm_get (s_byID s) i = Some p \<longrightarrow>
        p < s_brk s \<and> (\<exists>l. s_heap s p = Some l \<and> l_LeaseID l = i \<and> gm_get (s_byToken s) (l_Token l) = Some p
                          \<and> l_Status l = StatusActive)) \<and>
     (\<forall>t p. gm_get (s_byToken s) t = Some p \<longrightarrow>
        (\<exists>l. s_heap s p = Some l \<and> l_Token l = t \<and> gm_get (s_byID s) (l_LeaseID l) = Some p))"

definition port_of :: "'db Store \<Rightarrow> string \<Rightarrow> int" where
  "port_of s i = (case Get s i of None \<Rightarrow> 0 | Some l \<Rightarrow> l_AllocatedPort l)"

definition mem_inv :: "'db Store \<Rightarrow> bool" where
  "mem_inv s \<longleftrightarrow> idx_inv s \<and> pool.owns (s_alloc s) (gm_keys (s_byID s)) (port_of s)"

text \<open>A row of the database and what the store returns for its key.\<close>

definition row_ok :: "codec \<Rightarrow> string option \<Rightarrow> Lease option \<Rightarrow> bool" where
  "row_ok J r g =
     (case r of
        None \<Rightarrow> g = None
      | Some bs \<Rightarrow> (case g of None \<Rightarrow> False | Some l \<Rightarrow> unmarshal J bs = Some l \<and> wire_ok l))"

definition db_inv :: "'db bolt \<Rightarrow> codec \<Rightarrow> 'db Store \<Rightarrow> bool" where
  "db_inv B J s \<longleftrightarrow> bolt_bucket B (s_db s) \<and> (\<forall>i. row_ok J (rows B (s_db s) i) (Get s i))"

definition store_inv :: "'db bolt \<Rightarrow> codec \<Rightarrow> 'db Store \<Rightarrow> bool" where
  "store_inv B J s \<longleftrightarrow> mem_inv s \<and> db_inv B J s"

section \<open>Lookups\<close>

lemma idx_get:
  assumes "idx_inv s" "gm_get (s_byID s) i = Some p"
  obtains l where "s_heap s p = Some l" "l_LeaseID l = i" "gm_get (s_byToken s) (l_Token l) = Some p"
    "l_Status l = StatusActive" "p < s_brk s" "Get s i = Some l"
  using assms unfolding idx_inv_def Get_def by fastforce

lemma Get_Some_iff:
  assumes "idx_inv s"
  shows "Get s i = Some l \<longleftrightarrow> (\<exists>p. gm_get (s_byID s) i = Some p \<and> s_heap s p = Some l)"
  by (simp add: Get_def split: option.splits)

lemma Get_fields:
  assumes "idx_inv s" "Get s i = Some l"
  shows "l_LeaseID l = i" "l_Status l = StatusActive"
  using assms idx_get [OF assms(1)] by (metis Get_Some_iff option.inject)+

lemma Get_keys: "idx_inv s \<Longrightarrow> Get s i \<noteq> None \<longleftrightarrow> i \<in> gm_keys (s_byID s)"
  by (metis Get_def gm_get_None_iff idx_get option.distinct(1) option.exhaust option.simps(4))

lemma ByToken_iff:
  assumes "idx_inv s"
  shows "ByToken s t = Some l \<longleftrightarrow> l_Token l = t \<and> Get s (l_LeaseID l) = Some l"
proof
  assume "ByToken s t = Some l"
  then obtain p where p: "gm_get (s_byToken s) t = Some p" "s_heap s p = Some l" "l_Token l = t"
    by (auto simp: ByToken_def split: option.splits if_splits)
  with assms have "gm_get (s_byID s) (l_LeaseID l) = Some p" by (fastforce simp: idx_inv_def)
  with p show "l_Token l = t \<and> Get s (l_LeaseID l) = Some l" by (simp add: Get_def)
next
  assume l: "l_Token l = t \<and> Get s (l_LeaseID l) = Some l"
  then obtain p where p: "gm_get (s_byID s) (l_LeaseID l) = Some p" "s_heap s p = Some l"
    by (auto simp: Get_def split: option.splits)
  with assms have "gm_get (s_byToken s) (l_Token l) = Some p" by (fastforce simp: idx_inv_def)
  with p l show "ByToken s t = Some l" by (simp add: ByToken_def)
qed

lemma tokens_distinct:
  assumes "idx_inv s" "Get s i = Some l" "Get s j = Some m" "l_Token l = l_Token m"
  shows "i = j"
proof -
  note ids = Get_fields(1) [OF assms(1,2)] Get_fields(1) [OF assms(1,3)]
  have "ByToken s (l_Token l) = Some l"
    unfolding ByToken_iff [OF assms(1)] using ids assms(2) by simp
  moreover have "ByToken s (l_Token m) = Some m"
    unfolding ByToken_iff [OF assms(1)] using ids assms(3) by simp
  ultimately have "Some l = Some m" unfolding assms(4) by (rule trans [OF sym])
  then show ?thesis using ids by simp
qed

section \<open>Index updates\<close>

lemma index_lease_sel [simp]:
  "s_heap (index_lease l s) = (s_heap s)(s_brk s \<mapsto> l)" "s_brk (index_lease l s) = Suc (s_brk s)"
  "s_byID (index_lease l s) = gm_put (l_LeaseID l) (s_brk s) (s_byID s)"
  "s_byToken (index_lease l s) = gm_put (l_Token l) (s_brk s) (s_byToken s)"
  "s_alloc (index_lease l s) = s_alloc s" "s_db (index_lease l s) = s_db s"
  by (simp_all add: index_lease_def)

lemma idx_invI:
  assumes "gm_wf (s_byID s)" "gm_wf (s_byToken s)"
    and "\<And>i p. gm_get (s_byID s) i = Some p \<Longrightarrow> p < s_brk s \<and> (\<exists>l. s_heap s p = Some l \<and> l_LeaseID l = i
          \<and> gm_get (s_byToken s) (l_Token l) = Some p \<and> l_Status l = StatusActive)"
    and "\<And>t p. gm_get (s_byToken s) t = Some p \<Longrightarrow>
          \<exists>l. s_heap s p = Some l \<and> l_Token l = t \<and> gm_get (s_byID s) (l_LeaseID l) = Some p"
  shows "idx_inv s"
  using assms unfolding idx_inv_def by blast

lemma Get_index:
  assumes "idx_inv s" 
  shows "Get (index_lease l s) = (Get s)(l_LeaseID l \<mapsto> l)"
proof
  fix i
  show "Get (index_lease l s) i = ((Get s)(l_LeaseID l \<mapsto> l)) i"
  proof (cases "gm_get (s_byID s) i")
    case None
    then show ?thesis by (simp add: Get_def index_lease_def gomap_simps)
  next
    case (Some p)
    then have "p < s_brk s" using idx_get [OF assms] by metis
    with Some show ?thesis by (simp add: Get_def index_lease_def gomap_simps)
  qed
qed

lemma idx_inv_index:
  assumes "idx_inv s" "l_LeaseID l \<notin> gm_keys (s_byID s)" "l_Token l \<notin> gm_keys (s_byToken s)"
    and "l_Status l = StatusActive"
  shows "idx_inv (index_lease l s)"
proof -
  have tok: "gm_get (s_byToken s) t = Some p \<Longrightarrow> p < s_brk s" for t p
    using assms(1) by (fastforce simp: idx_inv_def)
  have keys: "gm_get (s_byID s) (l_LeaseID l) = None" "gm_get (s_byToken s) (l_Token l) = None"
    using assms(2,3) by (simp_all add: gm_get_None_iff)
  have hp: "gm_get (s_byID s) j = Some p \<Longrightarrow> s_heap (index_lease l s) p = s_heap s p" for j p
    using idx_get [OF assms(1)] by (metis index_lease_sel(1) fun_upd_other less_irrefl)
  have ht: "gm_get (s_byToken s) t = Some p \<Longrightarrow> s_heap (index_lease l s) p = s_heap s p" for t p
    using tok by (metis index_lease_sel(1) fun_upd_other less_irrefl)
  show ?thesis
  proof (rule idx_invI)
    fix i p assume "gm_get (s_byID (index_lease l s)) i = Some p"
    then consider "i = l_LeaseID l" "p = s_brk s" | "i \<noteq> l_LeaseID l" "gm_get (s_byID s) i = Some p"
      by (auto simp: gomap_simps split: if_splits)
    then show "p < s_brk (index_lease l s) \<and> (\<exists>la. s_heap (index_lease l s) p = Some la \<and> l_LeaseID la = i
        \<and> gm_get (s_byToken (index_lease l s)) (l_Token la) = Some p \<and> l_Status la = StatusActive)"
    proof cases
      case 1
      then show ?thesis using assms(4) by (simp add: gomap_simps)
    next
      case 2
      from 2(2) obtain la where la: "s_heap s p = Some la" "l_LeaseID la = i"
        "gm_get (s_byToken s) (l_Token la) = Some p" "l_Status la = StatusActive" "p < s_brk s"
        using idx_get [OF assms(1)] by metis
      moreover have "l_Token la \<noteq> l_Token l" using la(3) keys(2) by auto
      ultimately show ?thesis using hp [OF 2(2)] by (simp add: gomap_simps)
    qed
  next
    fix t p assume "gm_get (s_byToken (index_lease l s)) t = Some p"
    then consider "t = l_Token l" "p = s_brk s" | "t \<noteq> l_Token l" "gm_get (s_byToken s) t = Some p"
      by (auto simp: gomap_simps split: if_splits)
    then show "\<exists>la. s_heap (index_lease l s) p = Some la \<and> l_Token la = t
        \<and> gm_get (s_byID (index_lease l s)) (l_LeaseID la) = Some p"
    proof cases
      case 1
      then show ?thesis by (simp add: gomap_simps)
    next
      case 2
      then obtain la where la: "s_heap s p = Some la" "l_Token la = t" "gm_get (s_byID s) (l_LeaseID la) = Some p"
        using assms(1) unfolding idx_inv_def by blast
      moreover have "l_LeaseID la \<noteq> l_LeaseID l" using la(3) keys(1) by auto
      ultimately show ?thesis using ht [OF 2(2)] by (simp add: gomap_simps)
    qed
  qed (use assms(1) in \<open>simp_all add: idx_inv_def\<close>)
qed

lemma idx_inv_delete:
  assumes "idx_inv s" "gm_get (s_byID s) i = Some p" "s_heap s p = Some l"
  shows "idx_inv (s\<lparr>s_byID := gm_del i (s_byID s), s_byToken := gm_del (l_Token l) (s_byToken s)\<rparr>)"
proof -
  have l: "l_LeaseID l = i" "gm_get (s_byToken s) (l_Token l) = Some p"
    using idx_get [OF assms(1,2)] assms(3) by (metis option.inject)+
  have other: "gm_get (s_byID s) j = Some q \<Longrightarrow> s_heap s q = Some m \<Longrightarrow> j \<noteq> i \<Longrightarrow> l_Token m \<noteq> l_Token l" for j q m
    using idx_get [OF assms(1)] l assms(3) by (metis option.inject)
  have rev: "\<exists>m. s_heap s q = Some m \<and> l_Token m = t \<and> gm_get (s_byID s) (l_LeaseID m) = Some q"
    if "gm_get (s_byToken s) t = Some q" for t q
    using assms(1) that unfolding idx_inv_def by blast
  let ?s = "s\<lparr>s_byID := gm_del i (s_byID s), s_byToken := gm_del (l_Token l) (s_byToken s)\<rparr>"
  show ?thesis
  proof (rule idx_invI)
    fix j q assume "gm_get (s_byID ?s) j = Some q"
    then have j: "j \<noteq> i" "gm_get (s_byID s) j = Some q" by (auto simp: gomap_simps split: if_splits)
    from idx_get [OF assms(1) j(2)] obtain m where m: "s_heap s q = Some m" "l_LeaseID m = j"
      "gm_get (s_byToken s) (l_Token m) = Some q" "l_Status m = StatusActive" "q < s_brk s" by metis
    then show "q < s_brk ?s \<and> (\<exists>m. s_heap ?s q = Some m \<and> l_LeaseID m = j
        \<and> gm_get (s_byToken ?s) (l_Token m) = Some q \<and> l_Status m = StatusActive)"
      using other [OF j(2) m(1) j(1)] by (simp add: gomap_simps)
  next
    fix t q assume "gm_get (s_byToken ?s) t = Some q"
    then have t: "t \<noteq> l_Token l" "gm_get (s_byToken s) t = Some q" by (auto simp: gomap_simps split: if_splits)
    from rev [OF t(2)] obtain m where m: "s_heap s q = Some m" "l_Token m = t"
      "gm_get (s_byID s) (l_LeaseID m) = Some q" by blast
    have "l_LeaseID m \<noteq> i" using m t(1) assms(2,3) by auto
    with m show "\<exists>m. s_heap ?s q = Some m \<and> l_Token m = t \<and> gm_get (s_byID ?s) (l_LeaseID m) = Some q"
      by (simp add: gomap_simps)
  qed (use assms(1) in \<open>simp_all add: idx_inv_def\<close>)
qed

lemma Get_delete:
  "Get (s\<lparr>s_byID := gm_del i (s_byID s), s_byToken := x\<rparr>) = (Get s)(i := None)"
  by (auto simp: Get_def gomap_simps fun_eq_iff split: option.splits)

lemma idx_inv_update:
  assumes "idx_inv s" "gm_get (s_byID s) i = Some p" "s_heap s p = Some l"
    and "l_LeaseID l' = l_LeaseID l" "l_Token l' = l_Token l" "l_Status l' = l_Status l"
  shows "idx_inv (s\<lparr>s_heap := (s_heap s)(p \<mapsto> l')\<rparr>)"
proof (rule idx_invI)
  let ?s = "s\<lparr>s_heap := (s_heap s)(p \<mapsto> l')\<rparr>"
  fix j q assume "gm_get (s_byID ?s) j = Some q"
  then have j: "gm_get (s_byID s) j = Some q" by simp
  from idx_get [OF assms(1) j] obtain m where "s_heap s q = Some m" "l_LeaseID m = j"
    "gm_get (s_byToken s) (l_Token m) = Some q" "l_Status m = StatusActive" "q < s_brk s" by metis
  then show "q < s_brk ?s \<and> (\<exists>m. s_heap ?s q = Some m \<and> l_LeaseID m = j
      \<and> gm_get (s_byToken ?s) (l_Token m) = Some q \<and> l_Status m = StatusActive)"
    using assms(3-6) by (cases "q = p") auto
next
  let ?s = "s\<lparr>s_heap := (s_heap s)(p \<mapsto> l')\<rparr>"
  fix t q assume "gm_get (s_byToken ?s) t = Some q"
  then have "gm_get (s_byToken s) t = Some q" by simp
  then obtain m where "s_heap s q = Some m" "l_Token m = t" "gm_get (s_byID s) (l_LeaseID m) = Some q"
    using assms(1) unfolding idx_inv_def by blast
  then show "\<exists>m. s_heap ?s q = Some m \<and> l_Token m = t \<and> gm_get (s_byID ?s) (l_LeaseID m) = Some q"
    using assms(3-6) by (cases "q = p") auto
qed (use assms(1) in \<open>simp_all add: idx_inv_def\<close>)

lemma Get_update:
  assumes "idx_inv s" "gm_get (s_byID s) i = Some p" "s_heap s p = Some l"
  shows "Get (s\<lparr>s_heap := (s_heap s)(p \<mapsto> l')\<rparr>) = (Get s)(i \<mapsto> l')"
proof
  fix j
  have l: "l_LeaseID l = i" using idx_get [OF assms(1,2)] assms(3) by (metis option.inject)
  have uniq: "j = i" if "gm_get (s_byID s) j = Some p"
    using idx_get [OF assms(1) that] l assms(3) by (metis option.inject)
  show "Get (s\<lparr>s_heap := (s_heap s)(p \<mapsto> l')\<rparr>) j = ((Get s)(i \<mapsto> l')) j"
  proof (cases "j = i")
    case True
    then show ?thesis using assms(2) by (simp add: Get_def)
  next
    case False
    then have "gm_get (s_byID s) j \<noteq> Some p" using uniq by blast
    with False show ?thesis by (simp add: Get_def split: option.splits)
  qed
qed

text \<open>Neither lookups nor the index invariant look at the database or the allocator.\<close>

lemma Get_frame [simp]: "Get (s\<lparr>s_db := d\<rparr>) = Get s" "Get (s\<lparr>s_alloc := a\<rparr>) = Get s"
  by (simp_all add: Get_def fun_eq_iff split: option.splits)

lemma store_frame [simp]:
  "idx_inv (s\<lparr>s_db := d\<rparr>) = idx_inv s" "idx_inv (s\<lparr>s_alloc := a\<rparr>) = idx_inv s"
  "port_of (s\<lparr>s_db := d\<rparr>) = port_of s" "port_of (s\<lparr>s_alloc := a\<rparr>) = port_of s"
  by (simp_all add: idx_inv_def port_of_def fun_eq_iff)

lemma mem_inv_frame [simp]: "mem_inv (s\<lparr>s_db := d\<rparr>) = mem_inv s"
  by (simp add: mem_inv_def)

section \<open>The database\<close>

lemma bolt_update_commit:
  assumes "bolt_ok B" "bolt_update B f d = (None, d')"
  obtains d1 where "f d = Inr d1" "rows B d' = rows B d1" "bolt_bucket B d' = bolt_bucket B d1"
  using assms unfolding bolt_ok_def by blast

lemma bolt_update_abort:
  assumes "bolt_ok B" "bolt_update B f d = (Some e, d')"
  shows "rows B d' = rows B d" "bolt_bucket B d' = bolt_bucket B d"
  using assms unfolding bolt_ok_def by blast+

lemma bolt_put_rows:
  assumes "bolt_ok B" "bolt_bucket B d" "bolt_put B k v d = Inr d'"
  shows "rows B d' = (rows B d)(k \<mapsto> v)" "bolt_bucket B d'"
  using assms unfolding bolt_ok_def by blast+

lemma bolt_delete_rows:
  assumes "bolt_ok B" "bolt_bucket B d" "bolt_delete B k d = Inr d'"
  shows "rows B d' = (rows B d)(k := None)" "bolt_bucket B d'"
  using assms unfolding bolt_ok_def by blast+

lemma persist_ok:
  assumes "bolt_ok B" "codec_ok J" "wire_ok l" "bolt_bucket B d" "persist B J l d = (None, d')"
  obtains bs where "rows B d' = (rows B d)(l_LeaseID l \<mapsto> bs)" "unmarshal J bs = Some l" "bolt_bucket B d'"
proof -
  from assms(5) obtain bs where m: "marshal J l = Inr bs"
    and u: "bolt_update B (\<lambda>d. if \<not> bolt_bucket B d then Inl ''leases bucket missing''
                               else bolt_put B (l_LeaseID l) bs d) d = (None, d')"
    by (auto simp: persist_def split: sum.splits prod.splits option.splits)
  from bolt_update_commit [OF assms(1) u] assms(4) obtain d1 where
    d1: "bolt_put B (l_LeaseID l) bs d = Inr d1" "rows B d' = rows B d1" "bolt_bucket B d' = bolt_bucket B d1"
    by auto
  from bolt_put_rows [OF assms(1,4) d1(1)] d1 have "rows B d' = (rows B d)(l_LeaseID l \<mapsto> bs)" "bolt_bucket B d'"
    by simp_all
  moreover have "unmarshal J bs = Some l" using m assms(2,3) by (simp add: codec_ok_def)
  ultimately show ?thesis using that by blast
qed

lemma persist_err:
  assumes "bolt_ok B" "persist B J l d = (Some e, d')"
  shows "rows B d' = rows B d" "bolt_bucket B d' = bolt_bucket B d"
  using assms bolt_update_abort [OF assms(1)]
  by (auto simp: persist_def split: sum.splits prod.splits option.splits)

lemma db_inv_keep:
  assumes "db_inv B J s" "rows B d' = rows B (s_db s)" "bolt_bucket B d' = bolt_bucket B (s_db s)"
    "s_db s' = d'" "Get s' = Get s"
  shows "db_inv B J s'"
  using assms by (simp add: db_inv_def)

lemma db_inv_put:
  assumes "db_inv B J s" "rows B d' = (rows B (s_db s))(i \<mapsto> bs)" "bolt_bucket B d'"
    "unmarshal J bs = Some l" "wire_ok l" "s_db s' = d'" "Get s' = (Get s)(i \<mapsto> l)"
  shows "db_inv B J s'"
  using assms by (simp add: db_inv_def row_ok_def [of _ "Some _" "Some _"] row_ok_def [of _ None None])

lemma db_inv_delete:
  assumes "db_inv B J s" "rows B d' = (rows B (s_db s))(i := None)" "bolt_bucket B d'"
    "s_db s' = d'" "Get s' = (Get s)(i := None)"
  shows "db_inv B J s'"
  using assms by (simp add: db_inv_def row_ok_def [of _ "Some _" "Some _"] row_ok_def [of _ None None])

lemma db_inv_wire:
  assumes "db_inv B J s" "Get s i = Some l"
  shows "wire_ok l"
proof -
  have "row_ok J (rows B (s_db s) i) (Some l)" using assms by (metis db_inv_def)
  then show ?thesis by (auto simp: row_ok_def split: option.splits)
qed

end
