(* ===== verification/Lease_Ops.thy ===== *)
theory Lease_Ops
  imports Lease_Invariant
begin

text \<open>
  The operations of the lease store, each described by its effect on \<open>Get\<close>, on the rows of
  the database and on the ports in use, on every branch; every operation keeps \<open>store_inv\<close>.
\<close>

section \<open>Creating a lease\<close>

lemma utf8_ascii: "list_all (\<lambda>c. (of_char c :: nat) < 0x80) s \<Longrightarrow> utf8_valid s"
  by (induction s) auto

lemma utf8_token: "mintToken rnd = Inr t \<Longrightarrow> utf8_valid t"
proof -
  assume "mintToken rnd = Inr t"
  then have "set t \<subseteq> set alphabet"
    using EncodeToString_alphabet by (auto simp: mintToken_def split: sum.splits)
  moreover have "\<forall>c \<in> set alphabet. (of_char c :: nat) < 0x80" by (simp add: alphabet_def)
  ultimately have "list_all (\<lambda>c. (of_char c :: nat) < 0x80) t" by (auto simp: list_all_iff)
  then show ?thesis by (rule utf8_ascii)
qed

text \<open>The request came through JSON, so its strings are UTF-8; and the drawn token is new.\<close>

definition params_wire :: "CreateParams \<Rightarrow> bool" where
  "params_wire p \<longleftrightarrow> utf8_valid (cp_LeaseID p) \<and> list_all utf8_valid (cp_AllowlistCIDRs p)"

definition token_fresh :: "(string, byte list) result \<Rightarrow> 'db Store \<Rightarrow> bool" where
  "token_fresh rnd s = (case mintToken rnd of Inl _ \<Rightarrow> True | Inr t \<Rightarrow> t \<notin> gm_keys (s_byToken s))"

lemma mem_inv_parts:
  assumes "mem_inv s"
  shows "idx_inv s" "alloc_inv (s_alloc s)" "pool.owns (s_alloc s) (gm_keys (s_byID s)) (port_of s)"
    "port_of s ` gm_keys (s_byID s) = used_ports (s_alloc s)"
  using assms by (simp_all add: mem_inv_def pool.owns_def)

lemma store_inv_parts:
  assumes "store_inv B J s"
  shows "mem_inv s" "idx_inv s" "row_ok J (rows B (s_db s) i) (Get s i)" "bolt_bucket B (s_db s)"
  using assms by (simp_all add: store_inv_def mem_inv_def db_inv_def)

lemma mem_inv_index:
  assumes inv: "mem_inv s" and new: "l_LeaseID l \<notin> gm_keys (s_byID s)" "l_Token l \<notin> gm_keys (s_byToken s)"
    and act: "l_Status l = StatusActive" and al: "allocate probe (s_alloc s) = (Inr (l_AllocatedPort l), a')"
  shows "mem_inv (index_lease l (s\<lparr>s_db := d, s_alloc := a'\<rparr>))"
proof -
  let ?s = "index_lease l (s\<lparr>s_db := d, s_alloc := a'\<rparr>)"
  have idx: "idx_inv s" using inv by (simp add: mem_inv_def)
  then have idx': "idx_inv ?s" using new act by (intro idx_inv_index) simp_all
  have get: "Get ?s = (Get s)(l_LeaseID l \<mapsto> l)" using idx by (subst Get_index) simp_all
  have "pool.owns a' (insert (l_LeaseID l) (gm_keys (s_byID s))) (port_of ?s)"
  proof (rule pool.owns_alloc [OF _ new(1) al])
    show "pool.owns (s_alloc s) (gm_keys (s_byID s)) (port_of s)" using inv by (simp add: mem_inv_def)
    show "port_of ?s x = port_of s x" if "x \<in> gm_keys (s_byID s)" for x
      using that new(1) by (cases "x = l_LeaseID l") (simp_all add: port_of_def get)
    show "port_of ?s (l_LeaseID l) = l_AllocatedPort l" by (simp add: port_of_def get)
  qed
  then show ?thesis using idx' by (simp add: mem_inv_def gomap_simps)
qed

lemma mem_inv_alloc:
  "mem_inv s \<Longrightarrow> pool.owns a (gm_keys (s_byID s)) (port_of s) \<Longrightarrow> mem_inv (s\<lparr>s_alloc := a\<rparr>)"
  by (simp add: mem_inv_def)

text \<open>The lease a successful \<open>Create\<close> builds.\<close>

definition new_lease :: "CreateParams \<Rightarrow> string \<Rightarrow> int \<Rightarrow> time \<Rightarrow> Lease" where
  "new_lease p token port now =
     \<lparr>l_LeaseID = cp_LeaseID p, l_Token = token, l_AllocatedPort = port, l_AllowlistCIDRs = cp_AllowlistCIDRs p,
      l_CreatedAt = now, l_ExpiresAt = time_Add now (cp_Duration p), l_Status = StatusActive\<rparr>"

lemma new_lease_sel [simp]:
  "l_LeaseID (new_lease p t q n) = cp_LeaseID p" "l_Token (new_lease p t q n) = t"
  "l_AllocatedPort (new_lease p t q n) = q" "l_AllowlistCIDRs (new_lease p t q n) = cp_AllowlistCIDRs p"
  "l_CreatedAt (new_lease p t q n) = n" "l_ExpiresAt (new_lease p t q n) = time_Add n (cp_Duration p)"
  "l_Status (new_lease p t q n) = StatusActive"
  by (simp_all add: new_lease_def)

lemma Create_cases:
  obtains (existing) l where "Get s (cp_LeaseID p) = Some l" "Create B J probe rnd now p s = (Inr l, s)"
  | (cidr) c where "Get s (cp_LeaseID p) = None" "c \<in> set (cp_AllowlistCIDRs p)" "ParseCIDR c = None"
      "Create B J probe rnd now p s = (Inl (ErrInvalidCIDR c), s)"
  | (full) e a where "Get s (cp_LeaseID p) = None" "allocate probe (s_alloc s) = (Inl e, a)"
      "Create B J probe rnd now p s = (Inl e, s\<lparr>s_alloc := a\<rparr>)"
  | (nomint) e port a where "Get s (cp_LeaseID p) = None" "allocate probe (s_alloc s) = (Inr port, a)"
      "mintToken rnd = Inl e" "Create B J probe rnd now p s = (Inl e, s\<lparr>s_alloc := release port a\<rparr>)"
  | (nopersist) e port a t d where "Get s (cp_LeaseID p) = None" "allocate probe (s_alloc s) = (Inr port, a)"
      "mintToken rnd = Inr t" "persist B J (new_lease p t port now) (s_db s) = (Some e, d)"
      "Create B J probe rnd now p s = (Inl e, s\<lparr>s_db := d, s_alloc := release port a\<rparr>)"
  | (created) port a t d where "Get s (cp_LeaseID p) = None" "list_all (\<lambda>c. ParseCIDR c \<noteq> None) (cp_AllowlistCIDRs p)"
      "allocate probe (s_alloc s) = (Inr port, a)" "mintToken rnd = Inr t"
      "persist B J (new_lease p t port now) (s_db s) = (None, d)"
      "Create B J probe rnd now p s =
         (Inr (new_lease p t port now), index_lease (new_lease p t port now) (s\<lparr>s_db := d, s_alloc := a\<rparr>))"
proof (cases "Get s (cp_LeaseID p)")
  case (Some l)
  then show ?thesis by (intro existing) (simp_all add: Create_def)
next
  case None
  show ?thesis
  proof (cases "find (\<lambda>c. ParseCIDR c = None) (cp_AllowlistCIDRs p)")
    case (Some c)
    then have "c \<in> set (cp_AllowlistCIDRs p)" "ParseCIDR c = None" by (auto simp: find_Some_iff)
    then show ?thesis using None Some by (intro cidr) (simp_all add: Create_def)
  next
    case valid: None
    then have cidrs: "list_all (\<lambda>c. ParseCIDR c \<noteq> None) (cp_AllowlistCIDRs p)"
      by (auto simp: find_None_iff list_all_iff)
    obtain r a where al: "allocate probe (s_alloc s) = (r, a)" by (cases "allocate probe (s_alloc s)")
    show ?thesis
    proof (cases r)
      case (Inl e)
      then show ?thesis using None valid al by (intro full) (simp_all add: Create_def)
    next
      case (Inr port)
      note al = al [unfolded Inr]
      show ?thesis
      proof (cases "mintToken rnd")
        case (Inl e)
        then show ?thesis using None valid al by (intro nomint) (simp_all add: Create_def)
      next
        case (Inr t)
        obtain r d where p: "persist B J (new_lease p t port now) (s_db s) = (r, d)"
          by (cases "persist B J (new_lease p t port now) (s_db s)")
        show ?thesis
        proof (cases r)
          case (Some e)
          then show ?thesis
            using None valid al Inr p by (intro nopersist) (simp_all add: Create_def new_lease_def Let_def)
        next
          case none: None
          then show ?thesis
            using None valid cidrs al Inr p by (intro created) (simp_all add: Create_def new_lease_def Let_def)
        qed
      qed
    qed
  qed
qed

text \<open>What two stores agree on when an operation changed nothing a client can see.\<close>

definition same_leases :: "'db bolt \<Rightarrow> 'db Store \<Rightarrow> 'db Store \<Rightarrow> bool" where
  "same_leases B s s' \<longleftrightarrow> Get s' = Get s \<and> ByToken s' = ByToken s \<and> rows B (s_db s') = rows B (s_db s)
     \<and> used_ports (s_alloc s') = used_ports (s_alloc s)"

lemma same_leases_refl [simp]: "same_leases B s s"
  by (simp add: same_leases_def)

lemma ByToken_frame [simp]:
  "ByToken (s\<lparr>s_db := d\<rparr>) = ByToken s" "ByToken (s\<lparr>s_alloc := a\<rparr>) = ByToken s"
  by (simp_all add: ByToken_def fun_eq_iff split: option.splits)

lemma store_inv_alloc:
  assumes "store_inv B J s" "pool.owns a (gm_keys (s_byID s)) (port_of s)"
  shows "store_inv B J (s\<lparr>s_alloc := a\<rparr>)" "same_leases B s (s\<lparr>s_alloc := a\<rparr>)"
proof -
  show "store_inv B J (s\<lparr>s_alloc := a\<rparr>)"
    using assms by (simp add: store_inv_def mem_inv_alloc db_inv_def)
  show "same_leases B s (s\<lparr>s_alloc := a\<rparr>)"
    using assms by (simp add: same_leases_def store_inv_def mem_inv_def pool.owns_def)
qed

lemma store_inv_db:
  assumes "store_inv B J s" "rows B d = rows B (s_db s)" "bolt_bucket B d = bolt_bucket B (s_db s)"
  shows "store_inv B J (s\<lparr>s_db := d\<rparr>)" "same_leases B s (s\<lparr>s_db := d\<rparr>)"
proof -
  show "store_inv B J (s\<lparr>s_db := d\<rparr>)"
    using assms by (simp add: store_inv_def db_inv_def)
  show "same_leases B s (s\<lparr>s_db := d\<rparr>)" using assms by (simp add: same_leases_def)
qed

lemma same_leases_trans: "same_leases B s t \<Longrightarrow> same_leases B t u \<Longrightarrow> same_leases B s u"
  by (simp add: same_leases_def)

lemma create_error:
  assumes inv: "store_inv B J s" and ok: "bolt_ok B" and err: "Create B J probe rnd now p s = (Inl e, s')"
  shows "store_inv B J s' \<and> same_leases B s s'"
proof -
  have owns: "pool.owns (s_alloc s) (gm_keys (s_byID s)) (port_of s)"
    using inv by (simp add: store_inv_def mem_inv_def)
  show ?thesis
  proof (cases rule: Create_cases [of s p B J probe rnd now])
    case (full e' a)
    then show ?thesis using err store_inv_alloc [OF inv pool.owns_full [OF owns full(2)]] by simp
  next
    case (nomint e' port a)
    then show ?thesis using err store_inv_alloc [OF inv pool.owns_undo [OF owns nomint(2)]] by simp
  next
    case (nopersist e' port a t d)
    note db = store_inv_db [OF inv persist_err [OF ok nopersist(4)]]
    have "pool.owns (release port a) (gm_keys (s_byID (s\<lparr>s_db := d\<rparr>))) (port_of (s\<lparr>s_db := d\<rparr>))"
      using pool.owns_undo [OF owns nopersist(2)] by simp
    note al = store_inv_alloc [OF db(1) this]
    show ?thesis using err nopersist(5) al(1) same_leases_trans [OF db(2) al(2)] by simp
  qed (use inv err in simp_all)
qed

lemma create_new:
  assumes inv: "store_inv B J s" and ok: "bolt_ok B" "codec_ok J" and wire: "params_wire p"
    and fresh: "token_fresh rnd s" and new: "Get s (cp_LeaseID p) = None"
    and run: "Create B J probe rnd now p s = (Inr l, s')"
  shows "store_inv B J s'" "Get s' = (Get s)(cp_LeaseID p \<mapsto> l)"
    "l = new_lease p (l_Token l) (l_AllocatedPort l) now" "mintToken rnd = Inr (l_Token l)"
    "in_range (s_alloc s) (l_AllocatedPort l)" "l_AllocatedPort l \<notin> used_ports (s_alloc s)"
    "used_ports (s_alloc s') = insert (l_AllocatedPort l) (used_ports (s_alloc s))"
    "list_all (\<lambda>c. ParseCIDR c \<noteq> None) (l_AllowlistCIDRs l)" "\<not> portInUse probe (l_AllocatedPort l)"
proof -
  have mem: "mem_inv s" and db: "db_inv B J s" using inv by (simp_all add: store_inv_def)
  note idx = mem_inv_parts(1) [OF mem]
  obtain port a t d where
    cidrs: "list_all (\<lambda>c. ParseCIDR c \<noteq> None) (cp_AllowlistCIDRs p)"
    and al: "allocate probe (s_alloc s) = (Inr port, a)" and tok: "mintToken rnd = Inr t"
    and per: "persist B J (new_lease p t port now) (s_db s) = (None, d)"
    and l: "l = new_lease p t port now" and s': "s' = index_lease l (s\<lparr>s_db := d, s_alloc := a\<rparr>)"
  proof (cases rule: Create_cases [of s p B J probe rnd now])
    case (created port a t d)
    show thesis by (rule that [OF created(2-5)]) (use created(6) run in simp_all)
  qed (use new run in simp_all)
  note al_ok = allocate_ok [OF mem_inv_parts(2) [OF mem] al]
  from l al_ok tok cidrs show "l = new_lease p (l_Token l) (l_AllocatedPort l) now" "mintToken rnd = Inr (l_Token l)"
    "in_range (s_alloc s) (l_AllocatedPort l)" "l_AllocatedPort l \<notin> used_ports (s_alloc s)"
    "used_ports (s_alloc s') = insert (l_AllocatedPort l) (used_ports (s_alloc s))"
    "list_all (\<lambda>c. ParseCIDR c \<noteq> None) (l_AllowlistCIDRs l)" "\<not> portInUse probe (l_AllocatedPort l)"
    by (simp_all add: s')
  have keys: "cp_LeaseID p \<notin> gm_keys (s_byID s)" using new Get_keys [OF idx] by blast
  have tnew: "t \<notin> gm_keys (s_byToken s)" using fresh tok by (simp add: token_fresh_def)
  show get: "Get s' = (Get s)(cp_LeaseID p \<mapsto> l)" using idx by (simp add: s' l Get_index)
  have wl: "wire_ok l" using wire utf8_token [OF tok] by (simp add: wire_ok_def l params_wire_def)
  have bucket: "bolt_bucket B (s_db s)" using db by (simp add: db_inv_def)
  from persist_ok [OF ok _ bucket per] wl l obtain bs where
    bs: "rows B d = (rows B (s_db s))(cp_LeaseID p \<mapsto> bs)" "unmarshal J bs = Some l" "bolt_bucket B d" by auto
  have "db_inv B J s'" using db_inv_put [OF db bs(1,3,2) wl _ get] by (simp add: s')
  moreover have "mem_inv s'"
    unfolding s' using mem keys tnew al by (intro mem_inv_index) (simp_all add: l)
  ultimately show "store_inv B J s'" by (simp add: store_inv_def)
qed

section \<open>Renewing, revoking, expiring\<close>

lemma Extend_cases [consumes 1]:
  assumes "idx_inv s"
  obtains (missing) "Get s i = None" "Extend B J i d s = (Inl ErrNotFound, s)"
  | (nopersist) l e db where "Get s i = Some l"
      "persist B J (l\<lparr>l_ExpiresAt := time_Add (l_ExpiresAt l) d\<rparr>) (s_db s) = (Some e, db)"
      "Extend B J i d s = (Inl e, s\<lparr>s_db := db\<rparr>)"
  | (extended) p l db where "gm_get (s_byID s) i = Some p" "s_heap s p = Some l" "Get s i = Some l"
      "persist B J (l\<lparr>l_ExpiresAt := time_Add (l_ExpiresAt l) d\<rparr>) (s_db s) = (None, db)"
      "Extend B J i d s = (Inr (l\<lparr>l_ExpiresAt := time_Add (l_ExpiresAt l) d\<rparr>),
         s\<lparr>s_db := db, s_heap := (s_heap s)(p \<mapsto> l\<lparr>l_ExpiresAt := time_Add (l_ExpiresAt l) d\<rparr>)\<rparr>)"
proof (cases "gm_get (s_byID s) i")
  case None
  then show ?thesis by (intro missing) (simp_all add: Get_def Extend_def)
next
  case (Some p)
  from idx_get [OF assms Some] obtain l where l: "s_heap s p = Some l" "Get s i = Some l" by metis
  obtain r db where per: "persist B J (l\<lparr>l_ExpiresAt := time_Add (l_ExpiresAt l) d\<rparr>) (s_db s) = (r, db)"
    by (cases "persist B J (l\<lparr>l_ExpiresAt := time_Add (l_ExpiresAt l) d\<rparr>) (s_db s)")
  show ?thesis
  proof (cases r)
    case none: None
    then show ?thesis using Some l per by (intro extended) (simp_all add: Extend_def Let_def)
  next
    case e: (Some e)
    then show ?thesis using Some l per by (intro nopersist) (simp_all add: Extend_def Let_def)
  qed
qed

lemma extend_error:
  assumes "store_inv B J s" "bolt_ok B" "Extend B J i d s = (Inl e, s')"
  shows "store_inv B J s' \<and> same_leases B s s'"
proof -
  have idx: "idx_inv s" using assms(1) by (simp add: store_inv_def mem_inv_def)
  show ?thesis
    using idx
  proof (cases rule: Extend_cases [of s i B J d])
    case (nopersist l e' db)
    then show ?thesis
      using assms(3) store_inv_db [OF assms(1) persist_err [OF assms(2) nopersist(2)]] by simp
  qed (use assms in simp_all)
qed

lemma port_of_same:
  assumes "Get s i = Some l" "l_AllocatedPort l' = l_AllocatedPort l" "Get s' = (Get s)(i \<mapsto> l')"
  shows "port_of s' = port_of s"
  using assms by (auto simp: port_of_def fun_eq_iff)

lemma extend_ok:
  assumes inv: "store_inv B J s" and ok: "bolt_ok B" "codec_ok J" and run: "Extend B J i d s = (Inr l', s')"
  shows "\<exists>l. Get s i = Some l \<and> l' = l\<lparr>l_ExpiresAt := time_Add (l_ExpiresAt l) d\<rparr>"
    "store_inv B J s'" "Get s' = (Get s)(i \<mapsto> l')" "s_alloc s' = s_alloc s"
proof -
  have mem: "mem_inv s" and db: "db_inv B J s" using inv by (simp_all add: store_inv_def)
  note idx = mem_inv_parts(1) [OF mem]
  obtain p l d' where pl: "gm_get (s_byID s) i = Some p" "s_heap s p = Some l" and get: "Get s i = Some l"
    and per: "persist B J (l\<lparr>l_ExpiresAt := time_Add (l_ExpiresAt l) d\<rparr>) (s_db s) = (None, d')"
    and l': "l' = l\<lparr>l_ExpiresAt := time_Add (l_ExpiresAt l) d\<rparr>"
    and s': "s' = s\<lparr>s_db := d', s_heap := (s_heap s)(p \<mapsto> l')\<rparr>"
    using idx
  proof (cases rule: Extend_cases [of s i B J d])
    case (extended p l d')
    show thesis by (rule that [OF extended(1-4)]) (use extended(5) run in simp_all)
  qed (use run in simp_all)
  show "\<exists>l. Get s i = Some l \<and> l' = l\<lparr>l_ExpiresAt := time_Add (l_ExpiresAt l) d\<rparr>" using get l' by blast
  show "s_alloc s' = s_alloc s" by (simp add: s')
  note id = Get_fields(1) [OF idx get]
  have s'': "s' = (s\<lparr>s_db := d'\<rparr>)\<lparr>s_heap := (s_heap (s\<lparr>s_db := d'\<rparr>))(p \<mapsto> l')\<rparr>" by (simp add: s')
  have pl': "idx_inv (s\<lparr>s_db := d'\<rparr>)" "gm_get (s_byID (s\<lparr>s_db := d'\<rparr>)) i = Some p"
    "s_heap (s\<lparr>s_db := d'\<rparr>) p = Some l" using idx pl by simp_all
  show get': "Get s' = (Get s)(i \<mapsto> l')" unfolding s'' Get_update [OF pl'] by simp
  have idx': "idx_inv s'" unfolding s'' by (rule idx_inv_update [OF pl']) (simp_all add: l')
  have "port_of s' = port_of s" by (rule port_of_same [OF get _ get']) (simp add: l')
  then have mem': "mem_inv s'" using mem idx' by (simp add: mem_inv_def s')
  have wire: "wire_ok l'" using db_inv_wire [OF db get] by (simp add: wire_ok_def l')
  have bucket: "bolt_bucket B (s_db s)" using db by (simp add: db_inv_def)
  have lid: "l_LeaseID l' = i" using id by (simp add: l')
  from persist_ok [OF ok wire bucket per [folded l']] lid obtain bs where
    bs: "rows B d' = (rows B (s_db s))(i \<mapsto> bs)" "unmarshal J bs = Some l'" "bolt_bucket B d'" by auto
  have "db_inv B J s'" by (rule db_inv_put [OF db bs(1,3,2) wire _ get']) (simp add: s')
  with mem' show "store_inv B J s'" by (simp add: store_inv_def)
qed

lemma remove_cases [consumes 1]:
  assumes "idx_inv s"
  obtains (missing) "Get s i = None" "remove B i s = (Some ErrNotFound, s)"
  | (failed) l e d where "Get s i = Some l"
      "bolt_update B (\<lambda>d. if \<not> bolt_bucket B d then Inr d else bolt_delete B i d) (s_db s) = (Some e, d)"
      "remove B i s = (Some (ErrOther e), s\<lparr>s_db := d\<rparr>)"
  | (removed) p l d where "gm_get (s_byID s) i = Some p" "s_heap s p = Some l" "Get s i = Some l"
      "bolt_update B (\<lambda>d. if \<not> bolt_bucket B d then Inr d else bolt_delete B i d) (s_db s) = (None, d)"
      "remove B i s = (None, s\<lparr>s_db := d, s_byID := gm_del i (s_byID s), s_byToken := gm_del (l_Token l) (s_byToken s),
         s_alloc := release (l_AllocatedPort l) (s_alloc s)\<rparr>)"
proof (cases "gm_get (s_byID s) i")
  case None
  then show ?thesis by (intro missing) (simp_all add: Get_def remove_def)
next
  case (Some p)
  from idx_get [OF assms Some] obtain l where l: "s_heap s p = Some l" "Get s i = Some l" by metis
  obtain r d where up: "bolt_update B (\<lambda>d. if \<not> bolt_bucket B d then Inr d else bolt_delete B i d) (s_db s) = (r, d)"
    by (cases "bolt_update B (\<lambda>d. if \<not> bolt_bucket B d then Inr d else bolt_delete B i d) (s_db s)")
  show ?thesis
  proof (cases r)
    case none: None
    then show ?thesis using Some l up by (intro removed) (simp_all add: remove_def)
  next
    case e: (Some e)
    then show ?thesis using Some l up by (intro failed) (simp_all add: remove_def)
  qed
qed

lemma remove_error:
  assumes "store_inv B J s" "bolt_ok B" "remove B i s = (Some e, s')"
  shows "store_inv B J s' \<and> same_leases B s s' \<and> (e = ErrNotFound \<longrightarrow> Get s i = None)"
proof -
  have idx: "idx_inv s" using assms(1) by (simp add: store_inv_def mem_inv_def)
  show ?thesis
    using idx
  proof (cases rule: remove_cases [of s i B])
    case (failed l e' db)
    then show ?thesis
      using assms(3) store_inv_db [OF assms(1) bolt_update_abort [OF assms(2) failed(2)]] by auto
  qed (use assms in simp_all)
qed

lemma remove_ok:
  assumes inv: "store_inv B J s" and ok: "bolt_ok B" and run: "remove B i s = (None, s')"
  shows "\<exists>l. Get s i = Some l \<and> used_ports (s_alloc s') = used_ports (s_alloc s) - {l_AllocatedPort l}"
    "store_inv B J s'" "Get s' = (Get s)(i := None)"
proof -
  have mem: "mem_inv s" and db: "db_inv B J s" using inv by (simp_all add: store_inv_def)
  note idx = mem_inv_parts(1) [OF mem]
  obtain p l d where pl: "gm_get (s_byID s) i = Some p" "s_heap s p = Some l" and get: "Get s i = Some l"
    and up: "bolt_update B (\<lambda>d. if \<not> bolt_bucket B d then Inr d else bolt_delete B i d) (s_db s) = (None, d)"
    and s': "s' = (s\<lparr>s_byID := gm_del i (s_byID s), s_byToken := gm_del (l_Token l) (s_byToken s)\<rparr>)
                \<lparr>s_db := d, s_alloc := release (l_AllocatedPort l) (s_alloc s)\<rparr>"
    using idx
  proof (cases rule: remove_cases [of s i B])
    case (removed p l d)
    show thesis by (rule that [OF removed(1-4)]) (use removed(5) run in simp_all)
  qed (use run in simp_all)
  show "\<exists>l. Get s i = Some l \<and> used_ports (s_alloc s') = used_ports (s_alloc s) - {l_AllocatedPort l}"
    using get by (simp add: s')
  show get': "Get s' = (Get s)(i := None)" by (simp add: s' Get_delete)
  have idx': "idx_inv s'" using idx_inv_delete [OF idx pl] by (simp add: s')
  have "pool.owns (release (port_of s i) (s_alloc s)) (gm_keys (s_byID s) - {i}) (port_of s)"
    using mem gm_get_in_keys [OF pl(1)] by (intro pool.owns_release) (simp_all add: mem_inv_def)
  then have "pool.owns (release (port_of s i) (s_alloc s)) (gm_keys (s_byID s) - {i}) (port_of s')"
    by (rule pool.owns_cong) (auto simp: port_of_def get')
  then have mem': "mem_inv s'" using idx' get by (simp add: mem_inv_def s' gomap_simps port_of_def)
  have bucket: "bolt_bucket B (s_db s)" using db by (simp add: db_inv_def)
  from bolt_update_commit [OF ok up] bucket obtain d1 where
    d1: "bolt_delete B i (s_db s) = Inr d1" "rows B d = rows B d1" "bolt_bucket B d = bolt_bucket B d1" by auto
  from bolt_delete_rows [OF ok bucket d1(1)] d1 have
    rows: "rows B d = (rows B (s_db s))(i := None)" "bolt_bucket B d" by simp_all
  have "db_inv B J s'" by (rule db_inv_delete [OF db rows _ get']) (simp add: s')
  with mem' show "store_inv B J s'" by (simp add: store_inv_def)
qed

text \<open>A successful \<open>Create\<close>, whether the lease is new or was there.\<close>

lemma create_result:
  assumes "store_inv B J s" "bolt_ok B" "codec_ok J" "params_wire p" "token_fresh rnd s"
    "Create B J probe rnd now p s = (Inr l, s')"
  shows "store_inv B J s'" "Get s' (cp_LeaseID p) = Some l" "ByToken s' (l_Token l) = Some l" "l_LeaseID l = cp_LeaseID p"
proof -
  have inv: "store_inv B J s' \<and> Get s' (cp_LeaseID p) = Some l"
  proof (cases "Get s (cp_LeaseID p)")
    case None
    then show ?thesis using create_new(1,2) [OF assms(1-5) None assms(6)] by simp
  next
    case (Some l0)
    then show ?thesis using assms(1,6) by (simp add: Create_def)
  qed
  then show "store_inv B J s'" "Get s' (cp_LeaseID p) = Some l" by simp_all
  have idx: "idx_inv s'" using inv store_inv_parts(2) by blast
  show "l_LeaseID l = cp_LeaseID p" using Get_fields(1) [OF idx] inv by blast
  then show "ByToken s' (l_Token l) = Some l" using ByToken_iff [OF idx] inv by simp
qed

text \<open>After a removal the token of the lease is nobody's.\<close>

lemma remove_token:
  assumes "store_inv B J s" "bolt_ok B" "remove B i s = (None, s')" "Get s i = Some l"
  shows "ByToken s' (l_Token l) = None"
proof -
  note ok = remove_ok [OF assms(1-3)]
  note idx = store_inv_parts(2) [OF assms(1)] and idx' = store_inv_parts(2) [OF ok(2)]
  have "ByToken s' (l_Token l) \<noteq> Some m" for m
  proof
    assume "ByToken s' (l_Token l) = Some m"
    then have m: "l_Token m = l_Token l" "Get s' (l_LeaseID m) = Some m"
      by (simp_all add: ByToken_iff [OF idx'])
    then have "l_LeaseID m \<noteq> i" "Get s (l_LeaseID m) = Some m" using ok(3) by (auto split: if_splits)
    with tokens_distinct [OF idx this(2) assms(4) m(1)] show False by simp
  qed
  then show ?thesis by blast
qed

end
