(* ===== verification/Lease_Restart.thy ===== *)
theory Lease_Restart
  imports Lease_Ops
begin

text \<open>
  Opening the store: what \<open>Open\<close> reads back from a database, and that a restart loses exactly
  the leases it means to prune.
\<close>

section \<open>Rows that are kept\<close>

definition keep :: "codec \<Rightarrow> time \<Rightarrow> int \<Rightarrow> int \<Rightarrow> string \<Rightarrow> Lease option" where
  "keep J now mn mx v =
     (case unmarshal J v of
        None \<Rightarrow> None
      | Some l \<Rightarrow> if l_Status l = StatusActive \<and> \<not> Expired l now \<and> mn \<le> l_AllocatedPort l \<and> l_AllocatedPort l \<le> mx
                 then Some l else None)"

lemma load_entry_keep:
  "load_entry J now mn mx (s, st) (k, v) =
     (case keep J now mn mx v of
        None \<Rightarrow> (s, st @ [k])
      | Some l \<Rightarrow> ((index_lease l s)\<lparr>s_alloc := reserve (l_AllocatedPort l) (s_alloc s)\<rparr>, st))"
  by (auto simp: load_entry_def keep_def Let_def split: option.splits)

lemma keep_fields: "keep J now mn mx v = Some l \<Longrightarrow> l_Status l = StatusActive \<and> \<not> Expired l now
    \<and> mn \<le> l_AllocatedPort l \<and> l_AllocatedPort l \<le> mx \<and> unmarshal J v = Some l"
  by (auto simp: keep_def split: option.splits if_splits)

text \<open>
  A lease map that can be loaded: every lease under its own key, no token and no port twice.
  This is what \<open>store_inv\<close> guarantees of the rows it maintains.
\<close>

definition loadable :: "(string \<Rightarrow> Lease option) \<Rightarrow> bool" where
  "loadable G \<longleftrightarrow> (\<forall>k l. G k = Some l \<longrightarrow> l_LeaseID l = k) \<and>
     (\<forall>j k l m. G j = Some l \<longrightarrow> G k = Some m \<longrightarrow>
        l_Token l = l_Token m \<or> l_AllocatedPort l = l_AllocatedPort m \<longrightarrow> j = k)"

lemma loadable_sub: "loadable G \<Longrightarrow> F \<subseteq>\<^sub>m G \<Longrightarrow> loadable F"
proof -
  assume G: "loadable G" and "F \<subseteq>\<^sub>m G"
  then have sub: "F k = Some l \<Longrightarrow> G k = Some l" for k l by (metis domI map_le_def)
  show "loadable F" using G sub unfolding loadable_def by blast
qed

lemma token_keys:
  assumes "idx_inv s" "t \<in> gm_keys (s_byToken s)"
  obtains l where "Get s (l_LeaseID l) = Some l" "l_Token l = t"
proof -
  from assms(2) obtain p where p: "gm_get (s_byToken s) t = Some p"
    by (metis gm_get_None_iff option.exhaust)
  with assms(1) obtain l where "s_heap s p = Some l" "l_Token l = t" "gm_get (s_byID s) (l_LeaseID l) = Some p"
    unfolding idx_inv_def by blast
  then show ?thesis by (intro that) (simp_all add: Get_def)
qed

lemma mem_inv_reserve:
  assumes inv: "mem_inv s" and G: "loadable G" "Get s \<subseteq>\<^sub>m G" "G k = Some l" and new: "Get s k = None"
    and l: "l_Status l = StatusActive" "in_range (s_alloc s) (l_AllocatedPort l)"
  shows "mem_inv ((index_lease l s)\<lparr>s_alloc := reserve (l_AllocatedPort l) (s_alloc s)\<rparr>)"
    "Get ((index_lease l s)\<lparr>s_alloc := reserve (l_AllocatedPort l) (s_alloc s)\<rparr>) = (Get s)(k \<mapsto> l)"
proof -
  let ?s = "(index_lease l s)\<lparr>s_alloc := reserve (l_AllocatedPort l) (s_alloc s)\<rparr>"
  note idx = mem_inv_parts(1) [OF inv]
  have id: "l_LeaseID l = k" using G by (simp add: loadable_def)
  have sub: "Get s j = Some m \<Longrightarrow> G j = Some m" for j m
    using G(2) by (metis domI map_le_def)
  have key: "k \<notin> gm_keys (s_byID s)" using new Get_keys [OF idx] by blast
  have uniq: "j = k" if "Get s j = Some m" "l_Token m = l_Token l \<or> l_AllocatedPort m = l_AllocatedPort l" for j m
    using G(1,3) sub [OF that(1)] that(2) unfolding loadable_def by blast
  have tok: "l_Token l \<notin> gm_keys (s_byToken s)"
  proof
    assume "l_Token l \<in> gm_keys (s_byToken s)"
    then obtain m where m: "Get s (l_LeaseID m) = Some m" "l_Token m = l_Token l"
      using token_keys [OF idx] by blast
    with uniq have "l_LeaseID m = k" by blast
    with m new show False by simp
  qed
  show get: "Get ?s = (Get s)(k \<mapsto> l)" using Get_index [OF idx, of l] by (simp add: id)
  have idx': "idx_inv ?s" using idx_inv_index [OF idx _ tok l(1)] key by (simp add: id)
  have port: "port_of ?s k = l_AllocatedPort l" "\<And>j. j \<noteq> k \<Longrightarrow> port_of ?s j = port_of s j"
    unfolding port_of_def get by simp_all
  have owns: "pool.owns (s_alloc s) (gm_keys (s_byID s)) (port_of ?s)"
    by (rule pool.owns_cong [OF mem_inv_parts(3) [OF inv]]) (use port key in metis)
  have "port_of ?s k \<notin> port_of ?s ` gm_keys (s_byID s)"
  proof
    assume "port_of ?s k \<in> port_of ?s ` gm_keys (s_byID s)"
    then obtain j where j0: "port_of ?s k = port_of ?s j" and j: "j \<in> gm_keys (s_byID s)" by (rule imageE)
    note j = j trans [OF j0 [symmetric] port(1)]
    with key have "j \<noteq> k" by blast
    obtain m where m: "Get s j = Some m" using j(1) Get_keys [OF idx] by blast
    then have "l_AllocatedPort m = l_AllocatedPort l"
      using j(2) port(2) [OF \<open>j \<noteq> k\<close>] by (simp add: port_of_def)
    with m have "Get s j = Some m" "l_AllocatedPort m = l_AllocatedPort l" by simp_all
    with uniq \<open>j \<noteq> k\<close> show False by blast
  qed
  from pool.owns_reserve [OF owns key _ this] l(2) port(1) idx' show "mem_inv ?s"
    by (simp add: mem_inv_def gomap_simps id)
qed

section \<open>The loop over the bucket\<close>

definition pa_bounds :: "portAllocator \<Rightarrow> int \<times> int" where
  "pa_bounds a = (pa_min a, pa_max a)"

lemma pa_bounds_reserve [simp]: "pa_bounds (reserve p a) = pa_bounds a"
  by (simp add: pa_bounds_def reserve_def)

lemma in_range_bounds: "pa_bounds a = (mn, mx) \<Longrightarrow> in_range a p \<longleftrightarrow> mn \<le> p \<and> p \<le> mx"
  by (auto simp: pa_bounds_def in_range_def)

lemma load_loop:
  assumes "mem_inv s" "loadable G" "Get s \<subseteq>\<^sub>m G" "pa_bounds (s_alloc s) = (mn, mx)" "distinct (map fst es)"
    and "\<And>k v. (k, v) \<in> set es \<Longrightarrow> Get s k = None \<and> (\<forall>l. keep J now mn mx v = Some l \<longrightarrow> G k = Some l)"
    and "foldl (load_entry J now mn mx) (s, st) es = (s', st')"
  shows "mem_inv s' \<and> pa_bounds (s_alloc s') = (mn, mx) \<and>
    st' = st @ map fst (filter (\<lambda>(k, v). keep J now mn mx v = None) es) \<and>
    Get s' = (\<lambda>i. case map_of es i of None \<Rightarrow> Get s i | Some v \<Rightarrow> keep J now mn mx v)"
  using assms
proof (induction es arbitrary: s st)
  case Nil
  then show ?case by simp
next
  case (Cons e es)
  obtain k v where e: "e = (k, v)" by (cases e)
  have kes: "map_of es k = None" using Cons.prems(5) e by (simp add: map_of_eq_None_iff)
  have new: "Get s k = None" using Cons.prems(6) [of k v] e by simp
  have dist: "distinct (map fst es)" using Cons.prems(5) by simp
  have rest: "Get s k' = None \<and> (\<forall>l. keep J now mn mx v' = Some l \<longrightarrow> G k' = Some l)" if "(k', v') \<in> set es" for k' v'
    using Cons.prems(6) [of k' v'] that by simp
  show ?case
  proof (cases "keep J now mn mx v")
    case None
    have "foldl (load_entry J now mn mx) (s, st @ [k]) es = (s', st')"
      using Cons.prems(7) e None by (simp add: load_entry_keep)
    note IH = Cons.IH [OF Cons.prems(1-4) dist rest this]
    then have "Get s' i = (case map_of (e # es) i of None \<Rightarrow> Get s i | Some v \<Rightarrow> keep J now mn mx v)" for i
      using e None kes new by (cases "i = k") simp_all
    with IH show ?thesis using e None by (simp add: fun_eq_iff)
  next
    case (Some l)
    note kl = keep_fields [OF Some]
    let ?s = "(index_lease l s)\<lparr>s_alloc := reserve (l_AllocatedPort l) (s_alloc s)\<rparr>"
    have Gk: "G k = Some l" using Cons.prems(6) [of k v] e Some by simp
    have rng: "in_range (s_alloc s) (l_AllocatedPort l)" using kl Cons.prems(4) by (simp add: in_range_bounds)
    note step = mem_inv_reserve [OF Cons.prems(1-3) Gk new conjunct1 [OF kl] rng]
    have run: "foldl (load_entry J now mn mx) (?s, st) es = (s', st')"
      using Cons.prems(7) e Some by (simp add: load_entry_keep)
    have "mem_inv s' \<and> pa_bounds (s_alloc s') = (mn, mx) \<and>
        st' = st @ map fst (filter (\<lambda>(k, v). keep J now mn mx v = None) es) \<and>
        Get s' = (\<lambda>i. case map_of es i of None \<Rightarrow> Get ?s i | Some v \<Rightarrow> keep J now mn mx v)"
    proof (rule Cons.IH [OF step(1) Cons.prems(2) _ _ dist _ run])
      show "Get ?s \<subseteq>\<^sub>m G" unfolding step(2) using Cons.prems(3) Gk by (simp add: map_le_def)
      show "Get ?s k' = None \<and> (\<forall>l. keep J now mn mx v' = Some l \<longrightarrow> G k' = Some l)" if "(k', v') \<in> set es" for k' v'
      proof -
        have "k' \<noteq> k" using that kes by (force simp: map_of_eq_None_iff)
        then show ?thesis unfolding step(2) using rest [OF that] by simp
      qed
    qed (use Cons.prems(4) in simp)
    note IH = this
    then have "Get s' i = (case map_of (e # es) i of None \<Rightarrow> Get s i | Some v \<Rightarrow> keep J now mn mx v)" for i
      unfolding step(2) using e Some kes by (cases "i = k") (simp_all split: option.splits)
    with IH show ?thesis using e Some by (simp add: fun_eq_iff)
  qed
qed

section \<open>Open\<close>

lemma delete_all_rows:
  "bolt_ok B \<Longrightarrow> bolt_bucket B d \<Longrightarrow> delete_all B ks d = Inr d' \<Longrightarrow>
   rows B d' = (\<lambda>k. if k \<in> set ks then None else rows B d k) \<and> bolt_bucket B d'"
proof (induction ks arbitrary: d)
  case Nil
  then show ?case by simp
next
  case (Cons k ks)
  from Cons.prems(3) obtain d1 where d1: "bolt_delete B k d = Inr d1" "delete_all B ks d1 = Inr d'"
    by (auto split: sum.splits)
  note del = bolt_delete_rows [OF Cons.prems(1,2) d1(1)]
  from Cons.IH [OF Cons.prems(1) del(2) d1(2)] del(1) show ?case by (simp add: fun_eq_iff)
qed

lemma empty_store_inv:
  assumes "mn \<le> mx"
  shows "mem_inv (empty_store mn mx d)" "Get (empty_store mn mx d) = Map.empty"
    "pa_bounds (s_alloc (empty_store mn mx d)) = (mn, mx)"
  using new_alloc_inv [OF assms]
  by (simp_all add: mem_inv_def idx_inv_def empty_store_def pool.owns_def used_ports_def newPortAllocator_def
      Get_def fun_eq_iff pa_bounds_def)

text \<open>What is left of a database: the rows kept, decoded.\<close>

definition survivors :: "'db bolt \<Rightarrow> codec \<Rightarrow> time \<Rightarrow> int \<Rightarrow> int \<Rightarrow> 'db \<Rightarrow> string \<Rightarrow> Lease option" where
  "survivors B J now mn mx d k = (case rows B d k of None \<Rightarrow> None | Some v \<Rightarrow> keep J now mn mx v)"

lemma load_all_spec:
  assumes "bolt_ok B" "mn \<le> mx" "loadable (survivors B J now mn mx d)" "load_all B J now mn mx d = (s, stale)"
  shows "mem_inv s" "pa_bounds (s_alloc s) = (mn, mx)" "Get s = survivors B J now mn mx d"
    "set stale = {k. rows B d k \<noteq> None \<and> survivors B J now mn mx d k = None}"
proof -
  let ?es = "bolt_entries B d"
  have dist: "distinct (map fst ?es)" using assms(1) by (simp add: bolt_ok_def)
  have row: "rows B d k = Some v \<longleftrightarrow> (k, v) \<in> set ?es" for k v using dist by (simp add: rows_def)
  have run: "foldl (load_entry J now mn mx) (empty_store mn mx d, []) ?es = (s, stale)"
    using assms(4) by (simp add: load_all_def)
  have surv: "(k, v) \<in> set ?es \<Longrightarrow> survivors B J now mn mx d k = keep J now mn mx v" for k v
    using row [of k v] by (simp add: survivors_def)
  have loop: "mem_inv s \<and> pa_bounds (s_alloc s) = (mn, mx) \<and>
      stale = [] @ map fst (filter (\<lambda>(k, v). keep J now mn mx v = None) ?es) \<and>
      Get s = (\<lambda>i. case map_of ?es i of None \<Rightarrow> Get (empty_store mn mx d) i | Some v \<Rightarrow> keep J now mn mx v)"
    by (rule load_loop [OF empty_store_inv(1) assms(3) _ empty_store_inv(3) dist _ run])
      (use assms(2) surv in \<open>simp_all add: empty_store_inv\<close>)
  then show "mem_inv s" "pa_bounds (s_alloc s) = (mn, mx)" by simp_all
  show "Get s = survivors B J now mn mx d"
    using loop by (simp add: empty_store_inv [OF assms(2)] survivors_def fun_eq_iff rows_def split: option.splits)
  have "k \<in> set stale \<longleftrightarrow> (\<exists>v. (k, v) \<in> set ?es \<and> keep J now mn mx v = None)" for k
    using loop by force
  then show "set stale = {k. rows B d k \<noteq> None \<and> survivors B J now mn mx d k = None}"
    using row surv by auto
qed

lemma open_tx_spec:
  assumes "bolt_ok B" "mn \<le> mx" "loadable (survivors B J now mn mx d)" "open_tx B J now mn mx d = Inr s"
  shows "mem_inv s" "pa_bounds (s_alloc s) = (mn, mx)" "Get s = survivors B J now mn mx d"
    "rows B (s_db s) = (\<lambda>k. if survivors B J now mn mx d k = None then None else rows B d k)" "bolt_bucket B (s_db s)"
proof -
  obtain d1 s1 stale d2 where c: "bolt_create B d = Inr d1" "load_all B J now mn mx d1 = (s1, stale)"
    "delete_all B stale d1 = Inr d2" "s = s1\<lparr>s_db := d2\<rparr>"
    using assms(4) by (auto simp: open_tx_def split: sum.splits prod.splits)
  have d1: "rows B d1 = rows B d" "bolt_bucket B d1" using assms(1) c(1) unfolding bolt_ok_def by blast+
  then have sv: "survivors B J now mn mx d1 = survivors B J now mn mx d" by (simp add: survivors_def fun_eq_iff)
  note load = load_all_spec [OF assms(1,2) assms(3) [folded sv] c(2)]
  note del = delete_all_rows [OF assms(1) d1(2) c(3)]
  from load show "mem_inv s" "pa_bounds (s_alloc s) = (mn, mx)" "Get s = survivors B J now mn mx d"
    by (simp_all add: c(4) sv)
  show "bolt_bucket B (s_db s)" using del by (simp add: c(4))
  show "rows B (s_db s) = (\<lambda>k. if survivors B J now mn mx d k = None then None else rows B d k)"
  proof
    fix k
    have "k \<in> set stale \<longleftrightarrow> rows B d k \<noteq> None \<and> survivors B J now mn mx d k = None"
      unfolding load(4) by (simp add: d1 sv)
    then show "rows B (s_db s) k = (if survivors B J now mn mx d k = None then None else rows B d k)"
      using del by (simp add: c(4) d1) blast?
  qed
qed

lemma open_spec:
  assumes ok: "bolt_ok B" and rng: "mn \<le> mx" and load: "loadable (survivors B J now mn mx d)"
    and wire: "\<And>k l. survivors B J now mn mx d k = Some l \<Longrightarrow> wire_ok l"
    and run: "Open B J now mn mx (Inr d) = Inr s"
  shows "store_inv B J s" "Get s = survivors B J now mn mx d" "pa_bounds (s_alloc s) = (mn, mx)"
proof -
  obtain d' s0 where up: "bolt_update B (\<lambda>d. map_sum id s_db (open_tx B J now mn mx d)) d = (None, d')"
    and tx: "open_tx B J now mn mx d = Inr s0" and s: "s = s0\<lparr>s_db := d'\<rparr>"
    using run by (cases "open_tx B J now mn mx d") (auto simp: Open_def split: prod.splits option.splits)
  note sp = open_tx_spec [OF ok rng load tx]
  from bolt_update_commit [OF ok up] tx have
    d': "rows B d' = rows B (s_db s0)" "bolt_bucket B d' = bolt_bucket B (s_db s0)" by auto
  show get: "Get s = survivors B J now mn mx d" "pa_bounds (s_alloc s) = (mn, mx)" by (simp_all add: s sp)
  have "row_ok J (rows B d' k) (survivors B J now mn mx d k)" for k
    using d'(1) sp(4) wire [of k] keep_fields by (auto simp: row_ok_def survivors_def split: option.splits)
  then have "db_inv B J s" using d' sp(5) get by (simp add: db_inv_def s)
  then show "store_inv B J s" using sp(1) by (simp add: store_inv_def s)
qed

section \<open>Restart\<close>

lemma store_loadable:
  assumes "store_inv B J s"
  shows "loadable (Get s)"
proof -
  have idx: "idx_inv s" and own: "pool.owns (s_alloc s) (gm_keys (s_byID s)) (port_of s)"
    using assms by (simp_all add: store_inv_def mem_inv_def)
  have "j = k" if jk: "Get s j = Some l" "Get s k = Some m" and eq: "l_AllocatedPort l = l_AllocatedPort m" for j k l m
  proof -
    have "j \<in> gm_keys (s_byID s)" "k \<in> gm_keys (s_byID s)"
      using jk Get_keys [OF idx] by blast+
    moreover have "port_of s j = port_of s k" using jk eq by (simp add: port_of_def)
    ultimately show ?thesis using own by (auto simp: pool.owns_def inj_on_def)
  qed
  moreover have "j = k" if "Get s j = Some l" "Get s k = Some m" "l_Token l = l_Token m" for j k l m
    using tokens_distinct [OF idx that] .
  moreover have "l_LeaseID l = k" if "Get s k = Some l" for k l using Get_fields(1) [OF idx that] .
  ultimately show ?thesis unfolding loadable_def by blast
qed

text \<open>The leases a restart keeps.\<close>

definition retained :: "time \<Rightarrow> int \<Rightarrow> int \<Rightarrow> (string \<Rightarrow> Lease option) \<Rightarrow> string \<Rightarrow> Lease option" where
  "retained now mn mx G i =
     (case G i of
        None \<Rightarrow> None
      | Some l \<Rightarrow> if \<not> Expired l now \<and> mn \<le> l_AllocatedPort l \<and> l_AllocatedPort l \<le> mx then Some l else None)"

lemma survivors_retained:
  assumes "store_inv B J s"
  shows "survivors B J now mn mx (s_db s) = retained now mn mx (Get s)"
proof
  fix i
  have idx: "idx_inv s" and row: "row_ok J (rows B (s_db s) i) (Get s i)"
    using assms by (simp_all add: store_inv_def mem_inv_def db_inv_def)
  show "survivors B J now mn mx (s_db s) i = retained now mn mx (Get s) i"
  proof (cases "Get s i")
    case None
    then show ?thesis using row by (auto simp: row_ok_def survivors_def retained_def split: option.splits)
  next
    case (Some l)
    then obtain bs where bs: "rows B (s_db s) i = Some bs" "unmarshal J bs = Some l"
      using row by (auto simp: row_ok_def split: option.splits)
    then show ?thesis using Some Get_fields(2) [OF idx Some] by (simp add: survivors_def retained_def keep_def)
  qed
qed

lemma retained_sub: "retained now mn mx G \<subseteq>\<^sub>m G"
  by (auto simp: map_le_def retained_def dom_def split: option.splits if_splits)

lemma restart_spec:
  assumes inv: "store_inv B J s" and ok: "bolt_ok B" and rng: "mn \<le> mx"
    and run: "Open B J now mn mx (Inr (s_db s)) = Inr s'"
  shows "store_inv B J s'" "Get s' = retained now mn mx (Get s)"
proof -
  note eq = survivors_retained [OF inv, of now mn mx]
  have load: "loadable (survivors B J now mn mx (s_db s))"
    unfolding eq by (rule loadable_sub [OF store_loadable [OF inv] retained_sub])
  have wire: "wire_ok l" if "survivors B J now mn mx (s_db s) k = Some l" for k l
  proof -
    have "Get s k = Some l" using that by (auto simp: eq retained_def split: option.splits if_splits)
    then show ?thesis using inv db_inv_wire by (auto simp: store_inv_def)
  qed
  from open_spec [OF ok rng load wire run] show "store_inv B J s'" "Get s' = retained now mn mx (Get s)"
    by (simp_all add: eq)
qed

text \<open>A database with an empty bucket, the first start.\<close>

lemma open_fresh_inv:
  assumes "bolt_ok B" "mn \<le> mx" "rows B d = Map.empty" "Open B J now mn mx (Inr d) = Inr s"
  shows "store_inv B J s"
  by (rule open_spec [OF assms(1,2) _ _ assms(4)]) (use assms(3) in \<open>simp_all add: survivors_def loadable_def\<close>)

end
