(* ===== verification/Reference_Store.thy ===== *)
theory Reference_Store
  imports Lease_Restart
begin

text \<open>
  A small instance of the parameters of the lease store, on which the properties are evaluated:
  a bucket held in memory, and a codec that writes every string with a mark before each
  character and one at its end.
\<close>

section \<open>A bucket in memory\<close>

type_synonym memdb = "(string, string) gomap option"

definition mem_bolt :: "memdb bolt" where
  "mem_bolt =
     \<lparr>bolt_update = (\<lambda>f d. case f d of Inl e \<Rightarrow> (Some e, d) | Inr d' \<Rightarrow> (None, d')),
      bolt_bucket = (\<lambda>d. d \<noteq> None),
      bolt_create = (\<lambda>d. Inr (case d of None \<Rightarrow> Some [] | Some m \<Rightarrow> Some m)),
      bolt_put = (\<lambda>k v d. case d of None \<Rightarrow> Inl ''bucket not found''
                      | Some m \<Rightarrow> if k = [] then Inl ''key required'' else Inr (Some (gm_put k v m))),
      bolt_delete = (\<lambda>k d. case d of None \<Rightarrow> Inl ''bucket not found'' | Some m \<Rightarrow> Inr (Some (gm_del k m))),
      bolt_entries = (\<lambda>d. case d of None \<Rightarrow> [] | Some m \<Rightarrow> AList.clearjunk m)\<rparr>"

lemma rows_mem: "rows mem_bolt d = (case d of None \<Rightarrow> Map.empty | Some m \<Rightarrow> map_of m)"
  by (simp add: rows_def mem_bolt_def map_of_clearjunk fun_eq_iff split: option.splits)

lemma mem_bolt_ok: "bolt_ok mem_bolt"
  unfolding bolt_ok_def rows_mem
  by (auto simp: mem_bolt_def update_conv' delete_conv' split: option.splits sum.splits if_splits)

section \<open>A codec\<close>

fun enc_str :: "string \<Rightarrow> string" where
  "enc_str [] = ''.''"
| "enc_str (c # s) = CHR ''-'' # c # enc_str s"

fun dec_str :: "string \<Rightarrow> (string \<times> string) option" where
  "dec_str [] = None"
| "dec_str (m # r) =
     (if m = CHR ''.'' then Some ([], r)
      else case r of [] \<Rightarrow> None
           | c # r' \<Rightarrow> (case dec_str r' of None \<Rightarrow> None | Some (s, q) \<Rightarrow> Some (c # s, q)))"

lemma dec_enc_str [simp]: "dec_str (enc_str s @ r) = Some (s, r)"
  by (induction s) auto

fun nat_bits :: "nat \<Rightarrow> string" where
  "nat_bits n = (if n = 0 then [] else (if odd n then CHR ''1'' else CHR ''0'') # nat_bits (n div 2))"

declare nat_bits.simps [simp del]

fun bits_nat :: "string \<Rightarrow> nat" where
  "bits_nat [] = 0"
| "bits_nat (c # s) = (if c = CHR ''1'' then 1 else 0) + 2 * bits_nat s"

lemma bits_nat_bits [simp]: "bits_nat (nat_bits n) = n"
  by (induction n rule: nat_bits.induct) (subst nat_bits.simps, auto)

definition enc_int :: "int \<Rightarrow> string" where
  "enc_int i = enc_str ((if i < 0 then ''-'' else ''+'') @ nat_bits (nat \<bar>i\<bar>))"

definition dec_int :: "string \<Rightarrow> (int \<times> string) option" where
  "dec_int s = (case dec_str s of
      Some (c # b, r) \<Rightarrow> Some (if c = CHR ''-'' then - int (bits_nat b) else int (bits_nat b), r) | _ \<Rightarrow> None)"

lemma dec_enc_int [simp]: "dec_int (enc_int i @ r) = Some (i, r)"
  by (simp add: dec_int_def enc_int_def)

fun dec_strs :: "nat \<Rightarrow> string \<Rightarrow> (string list \<times> string) option" where
  "dec_strs 0 r = Some ([], r)"
| "dec_strs (Suc n) r = (case dec_str r of None \<Rightarrow> None
     | Some (s, q) \<Rightarrow> (case dec_strs n q of None \<Rightarrow> None | Some (ss, t) \<Rightarrow> Some (s # ss, t)))"

lemma dec_enc_strs [simp]: "dec_strs (length ss) (concat (map enc_str ss) @ r) = Some (ss, r)"
  by (induction ss) auto

definition ref_codec :: codec where
  "ref_codec =
     \<lparr>marshal = (\<lambda>l. Inr (enc_str (l_LeaseID l) @ enc_str (l_Token l) @ enc_str (l_Status l) @ enc_int (l_AllocatedPort l)
         @ enc_int (l_CreatedAt l) @ enc_int (l_ExpiresAt l) @ enc_int (int (length (l_AllowlistCIDRs l)))
         @ concat (map enc_str (l_AllowlistCIDRs l)) @ [])),
      unmarshal = (\<lambda>s.
         Option.bind (dec_str s) (\<lambda>(i, s). Option.bind (dec_str s) (\<lambda>(t, s). Option.bind (dec_str s) (\<lambda>(st, s).
         Option.bind (dec_int s) (\<lambda>(p, s). Option.bind (dec_int s) (\<lambda>(c, s). Option.bind (dec_int s) (\<lambda>(e, s).
         Option.bind (dec_int s) (\<lambda>(n, s). Option.bind (dec_strs (nat n) s) (\<lambda>(a, s).
           Some \<lparr>l_LeaseID = i, l_Token = t, l_AllocatedPort = p, l_AllowlistCIDRs = a, l_CreatedAt = c,
                 l_ExpiresAt = e, l_Status = st\<rparr>)))))))))\<rparr>"

lemma ref_codec_ok: "codec_ok ref_codec"
  by (auto simp: codec_ok_def ref_codec_def simp del: append_Nil2)

section \<open>A first start\<close>

definition ref_db :: memdb where "ref_db = None"

definition ref_store :: "memdb Store" where
  "ref_store = (empty_store 10000 10001 (Some []))"

lemma ref_open: "Open mem_bolt ref_codec 0 10000 10001 (Inr ref_db) = Inr ref_store"
  by (simp add: Open_def open_tx_def mem_bolt_def ref_db_def load_all_def ref_store_def empty_store_def)

lemma ref_store_inv: "store_inv mem_bolt ref_codec ref_store"
  by (rule open_fresh_inv [OF mem_bolt_ok _ _ ref_open]) (simp_all add: rows_mem ref_db_def)

definition ref_params :: CreateParams where
  "ref_params = \<lparr>cp_LeaseID = ''a'', cp_Duration = 10, cp_AllowlistCIDRs = [''10.0.0.0/8'']\<rparr>"

section \<open>A lease\<close>

lemma ref_cidr:
  "ParseCIDR ''10.0.0.0/8'' = Some \<lparr>net_IP = [10, 0, 0, 0], net_Mask = [255, 0, 0, 0]\<rparr>"
proof -
  have cut: "Cut ''10.0.0.0/8'' CHR ''/'' = Some (''10.0.0.0'', ''8'')" by code_simp
  have addr: "ParseAddr ''10.0.0.0'' = Some (Addr4 [10, 0, 0, 0])" by code_simp
  have bits: "dtoi_all ''8'' = Some 8" by (simp add: dtoi_all_def digits_val_def is_digit_def digit_val_def)
  have "CIDRMask 8 4 = [255, 0, 0, 0]"
    by (simp add: CIDRMask_def mask_byte_def upt_rec)
  then show ?thesis by (simp add: ParseCIDR_def cut addr bits)
qed

definition ref_bytes :: "byte list" where "ref_bytes = replicate 20 0"

lemma ref_mint: "mintToken (Inr ref_bytes) = Inr (replicate 32 CHR ''a'')"
  by (simp add: mintToken_def EncodeToString_def ref_bytes_def numeral_eq_Suc byte_bits_def bits_val_def alphabet_def)

definition ref_lease :: Lease where
  "ref_lease = \<lparr>l_LeaseID = ''a'', l_Token = replicate 32 CHR ''a'', l_AllocatedPort = 10000,
     l_AllowlistCIDRs = [''10.0.0.0/8''], l_CreatedAt = 0, l_ExpiresAt = 10, l_Status = StatusActive\<rparr>"

definition ref_create :: "(lease_error, Lease) result \<times> memdb Store" where
  "ref_create = Create mem_bolt ref_codec (\<lambda>_. Inr 0) (Inr ref_bytes) 0 ref_params ref_store"

definition ref_store1 :: "memdb Store" where "ref_store1 = snd ref_create"

lemma ref_alloc:
  "allocate (\<lambda>_. Inr 0) (newPortAllocator 10000 10001) = (Inr 10000, reserve 10000 (advance (newPortAllocator 10000 10001)))"
  by code_simp

lemma ref_create: "ref_create = (Inr ref_lease, ref_store1)"
proof -
  have "fst ref_create = Inr ref_lease"
    by (simp add: ref_create_def Create_def ref_store_def ref_params_def empty_store_def Get_def ref_mint ref_cidr ref_alloc
        persist_def mem_bolt_def ref_codec_def Let_def ref_lease_def time_Add_def)
  then show ?thesis by (metis prod.collapse ref_store1_def)
qed

lemma ref_create_any:
  "\<exists>l s'. Create mem_bolt ref_codec (\<lambda>_. Inr 0) (Inr ref_bytes) now
     \<lparr>cp_LeaseID = ''a'', cp_Duration = d, cp_AllowlistCIDRs = [''10.0.0.0/8'']\<rparr> ref_store = (Inr l, s')"
  by (simp add: Create_def ref_store_def empty_store_def Get_def ref_mint ref_cidr ref_alloc persist_def mem_bolt_def
      ref_codec_def Let_def)

lemma ref_params_ok: "params_wire ref_params" "token_fresh (Inr ref_bytes) ref_store"
  by (simp_all add: params_wire_def ref_params_def token_fresh_def ref_mint ref_store_def empty_store_def)

lemma ref_store1_inv: "store_inv mem_bolt ref_codec ref_store1"
proof -
  have "Get ref_store (cp_LeaseID ref_params) = None" by (simp add: ref_store_def empty_store_def Get_def)
  from create_new(1) [OF ref_store_inv mem_bolt_ok ref_codec_ok ref_params_ok this ref_create [unfolded ref_create_def]]
  show ?thesis .
qed

lemma ref_store1_get: "Get ref_store1 = [''a'' \<mapsto> ref_lease]"
proof -
  have none: "Get ref_store = Map.empty" by (simp add: ref_store_def empty_store_def Get_def fun_eq_iff)
  then have "Get ref_store (cp_LeaseID ref_params) = None" by simp
  from create_new(2) [OF ref_store_inv mem_bolt_ok ref_codec_ok ref_params_ok this ref_create [unfolded ref_create_def]]
  show ?thesis by (simp add: none ref_params_def)
qed

lemma ref_remove: "fst (remove mem_bolt ''a'' ref_store1) = None"
proof -
  have "idx_inv ref_store1" "s_db ref_store1 \<noteq> None"
    using ref_store1_inv by (simp_all add: store_inv_def mem_inv_def db_inv_def mem_bolt_def)
  then show ?thesis
    by (cases rule: remove_cases [of ref_store1 "''a''" mem_bolt]) (auto simp: ref_store1_get mem_bolt_def)
qed

end
