(* ===== verification/Lease_Properties.thy ===== *)
theory Lease_Properties
  imports Reference_Store
begin

text \<open>
  The contract of the lease store: what each operation promises its callers, that a restart
  loses nothing it should keep, and that every reachable store satisfies the invariant.
\<close>

section \<open>Operations\<close>

text \<open>A refused \<open>Create\<close> of a new identifier has one of four reasons.\<close>

lemma create_refused:
  assumes "store_inv B J s" "Create B J probe rnd now p s = (Inl e, s')"
  shows "(\<exists>c \<in> set (cp_AllowlistCIDRs p). ParseCIDR c = None \<and> e = ErrInvalidCIDR c)
    \<or> e = ErrPortsExhausted \<and> (\<forall>q. in_range (s_alloc s) q \<longrightarrow>
        portInUse probe q \<or> (\<exists>i m. Get s i = Some m \<and> l_AllocatedPort m = q))
    \<or> mintToken rnd = Inl e \<or> (\<exists>l. fst (persist B J l (s_db s)) = Some e)"
proof (cases rule: Create_cases [of s p B J probe rnd now])
  case (full e' a)
  note parts = mem_inv_parts [OF store_inv_parts(1) [OF assms(1)]]
  note err = allocate_err [OF parts(2) full(2)]
  have "\<exists>i m. Get s i = Some m \<and> l_AllocatedPort m = q" if "q \<in> used_ports (s_alloc s)" for q
  proof -
    from that have "q \<in> port_of s ` gm_keys (s_byID s)" using parts(4) by simp
    then obtain i where "i \<in> gm_keys (s_byID s)" "q = port_of s i" by blast
    moreover from this obtain m where "Get s i = Some m" using Get_keys [OF parts(1), of i] by blast
    ultimately show ?thesis by (metis option.simps(5) port_of_def)
  qed
  then have "\<forall>q. in_range (s_alloc s) q \<longrightarrow> portInUse probe q \<or> (\<exists>i m. Get s i = Some m \<and> l_AllocatedPort m = q)"
    using err(2) by blast
  moreover have "e = ErrPortsExhausted" using err(1) assms(2) full(3) by simp
  ultimately show ?thesis by blast
next
  case (nopersist e' port a t d)
  then have "fst (persist B J (new_lease p t port now) (s_db s)) = Some e" using assms(2) by simp
  then show ?thesis by blast
qed (use assms(2) in auto)

text \<open>
  (C3) \<open>Create\<close>. A repeated create for a known identifier succeeds, returns the stored lease
  and changes nothing, whatever the other parameters, the ports and the randomness are. A new
  lease gets a port of the range that no live lease has and no other process holds, the token
  just minted, and the requested expiry; it is then found under its identifier and under its
  token. A create fails only for a CIDR that does not parse, when every port of the range
  is leased or held by another process, without randomness, or on a database error; then every
  lookup, the rows of the database and the ports in use are as they were: no port leaks.
\<close>

theorem create_correct:
  assumes "store_inv B J s" "bolt_ok B" "codec_ok J" "params_wire p" "token_fresh rnd s"
  shows "case Get s (cp_LeaseID p) of
      Some l0 \<Rightarrow> Create B J probe rnd now p s = (Inr l0, s)
    | None \<Rightarrow>
       (case Create B J probe rnd now p s of
          (Inl e, s') \<Rightarrow> store_inv B J s' \<and> same_leases B s s'
            \<and> ((\<exists>c \<in> set (cp_AllowlistCIDRs p). ParseCIDR c = None \<and> e = ErrInvalidCIDR c)
               \<or> e = ErrPortsExhausted \<and> (\<forall>q. in_range (s_alloc s) q \<longrightarrow>
                   portInUse probe q \<or> (\<exists>i m. Get s i = Some m \<and> l_AllocatedPort m = q))
               \<or> mintToken rnd = Inl e \<or> (\<exists>l. fst (persist B J l (s_db s)) = Some e))
        | (Inr l, s') \<Rightarrow> store_inv B J s' \<and> Get s' = (Get s)(cp_LeaseID p \<mapsto> l)
            \<and> ByToken s' (l_Token l) = Some l
            \<and> mintToken rnd = Inr (l_Token l) \<and> l = new_lease p (l_Token l) (l_AllocatedPort l) now
            \<and> in_range (s_alloc s) (l_AllocatedPort l) \<and> \<not> portInUse probe (l_AllocatedPort l)
            \<and> (\<forall>i m. Get s i = Some m \<longrightarrow> l_AllocatedPort m \<noteq> l_AllocatedPort l)
            \<and> list_all (\<lambda>c. ParseCIDR c \<noteq> None) (l_AllowlistCIDRs l))"
proof (cases "Get s (cp_LeaseID p)")
  case (Some l0)
  then show ?thesis by (simp add: Create_def)
next
  case None
  note parts = mem_inv_parts [OF store_inv_parts(1) [OF assms(1)]]
  obtain r s' where run: "Create B J probe rnd now p s = (r, s')" by (cases "Create B J probe rnd now p s")
  show ?thesis
  proof (cases r)
    case (Inl e)
    note err = run [unfolded Inl]
    show ?thesis using create_error [OF assms(1,2) err] create_refused [OF assms(1) err] err None by simp
  next
    case (Inr l)
    note new = create_new [OF assms None run [unfolded Inr]]
    have "l_LeaseID l = cp_LeaseID p" using new(3) by (metis new_lease_sel(1))
    then have "ByToken s' (l_Token l) = Some l"
      using new(2) ByToken_iff [OF store_inv_parts(2) [OF new(1)]] by simp
    moreover have "l_AllocatedPort m \<noteq> l_AllocatedPort l" if "Get s i = Some m" for i m
    proof -
      have "l_AllocatedPort m = port_of s i" "i \<in> gm_keys (s_byID s)"
        using that Get_keys [OF parts(1), of i] by (simp_all add: port_of_def)
      then show ?thesis using new(6) parts(4) by (metis image_eqI)
    qed
    ultimately show ?thesis using run Inr None new by simp
  qed
qed

text \<open>
  A first create, and its repetition with other parameters, without a usable port and without
  randomness: the stored lease is returned again.
\<close>

theorem create_correct_witness:
  "(case ref_create of (Inr l, s') \<Rightarrow> store_inv mem_bolt ref_codec s' \<and> ByToken s' (l_Token l) = Some l | _ \<Rightarrow> False)
   \<and> Create mem_bolt ref_codec (\<lambda>_. Inl ''in use'') (Inl ''no entropy'') 7
        \<lparr>cp_LeaseID = ''a'', cp_Duration = 99, cp_AllowlistCIDRs = []\<rparr> ref_store1 = (Inr ref_lease, ref_store1)"
proof -
  have none: "Get ref_store (cp_LeaseID ref_params) = None" by (simp add: ref_store_def empty_store_def Get_def)
  have again: "params_wire \<lparr>cp_LeaseID = ''a'', cp_Duration = 99, cp_AllowlistCIDRs = []\<rparr>"
    "token_fresh (Inl ''no entropy'') ref_store1"
    by (simp_all add: params_wire_def token_fresh_def mintToken_def)
  show ?thesis
    using create_correct [OF ref_store_inv mem_bolt_ok ref_codec_ok ref_params_ok, where probe = "\<lambda>_. Inr 0" and now = 0] none
      create_correct [OF ref_store1_inv mem_bolt_ok ref_codec_ok again, where probe = "\<lambda>_. Inl ''in use''" and now = 7]
      ref_create ref_store1_get by (simp add: ref_create_def)
qed

text \<open>
  (C12) \<open>Extend\<close>. On success the expiry moves by the given duration, for every later lookup by
  identifier and by token (both indexes share the object), and the new expiry is on disk;
  nothing else changes. When persisting fails, no lookup sees the new expiry.
\<close>

theorem extend_correct:
  assumes "store_inv B J s" "bolt_ok B" "codec_ok J"
  shows "case Extend B J i d s of
      (Inl e, s') \<Rightarrow> store_inv B J s' \<and> same_leases B s s' \<and> (Get s i = None \<longrightarrow> e = ErrNotFound)
    | (Inr l', s') \<Rightarrow> store_inv B J s' \<and> Get s' = (Get s)(i \<mapsto> l') \<and> ByToken s' (l_Token l') = Some l'
        \<and> (\<exists>l. Get s i = Some l \<and> l' = l\<lparr>l_ExpiresAt := l_ExpiresAt l + d\<rparr>)
        \<and> (\<exists>bs. rows B (s_db s') i = Some bs \<and> unmarshal J bs = Some l')"
proof -
  have idx: "idx_inv s" using assms(1) by (simp add: store_inv_def mem_inv_def)
  obtain r s' where run: "Extend B J i d s = (r, s')" by (cases "Extend B J i d s")
  show ?thesis
  proof (cases r)
    case (Inl e)
    have "Get s i = None \<Longrightarrow> e = ErrNotFound"
      using idx run Inl by (cases rule: Extend_cases [of s i B J d]) auto
    with extend_error [OF assms(1,2) run [unfolded Inl]] run Inl show ?thesis by simp
  next
    case (Inr l')
    note ext = extend_ok [OF assms run [unfolded Inr]]
    note idx' = store_inv_parts(2) [OF ext(2)] and row = store_inv_parts(3) [OF ext(2), of i]
    have get: "Get s' i = Some l'" using ext(3) by simp
    have "ByToken s' (l_Token l') = Some l'"
      using Get_fields(1) [OF idx' get] get ByToken_iff [OF idx'] by simp
    moreover have "\<exists>bs. rows B (s_db s') i = Some bs \<and> unmarshal J bs = Some l'"
      using row get by (auto simp: row_ok_def split: option.splits)
    ultimately show ?thesis using run Inr ext by (simp add: time_Add_def)
  qed
qed

theorem extend_correct_witness:
  "Extend mem_bolt ref_codec ''b'' 5 ref_store1 = (Inl ErrNotFound, ref_store1) \<and>
   (case Extend mem_bolt ref_codec ''a'' 5 ref_store1 of (r, s') \<Rightarrow>
      r = Inr (ref_lease\<lparr>l_ExpiresAt := 15\<rparr>) \<and>
      ByToken s' (l_Token ref_lease) = Some (ref_lease\<lparr>l_ExpiresAt := 15\<rparr>))"
proof -
  have idx: "idx_inv ref_store1" using ref_store1_inv by (simp add: store_inv_def mem_inv_def)
  obtain r s' where run: "Extend mem_bolt ref_codec ''a'' 5 ref_store1 = (r, s')" by fastforce
  have ok: "\<not> isl r"
  proof -
    have "fst (persist mem_bolt ref_codec (ref_lease\<lparr>l_ExpiresAt := 15\<rparr>) (s_db ref_store1)) = None"
    proof -
      have "s_db ref_store1 \<noteq> None"
        using ref_store1_inv by (simp add: store_inv_def db_inv_def mem_bolt_def)
      then show ?thesis by (auto simp: persist_def ref_codec_def mem_bolt_def ref_lease_def)
    qed
    note per = this
    show ?thesis
      using idx run per by (cases rule: Extend_cases [of ref_store1 "''a''" mem_bolt ref_codec 5])
        (auto simp: ref_store1_get ref_lease_def time_Add_def)
  qed
  have "Extend mem_bolt ref_codec ''b'' 5 ref_store1 = (Inl ErrNotFound, ref_store1)"
    using idx by (cases rule: Extend_cases [of ref_store1 "''b''" mem_bolt ref_codec 5]) (auto simp: ref_store1_get)
  then show ?thesis
    using extend_correct [OF ref_store1_inv mem_bolt_ok ref_codec_ok, of "''a''" 5] run ok
    by (auto simp: ref_store1_get ref_lease_def split: sum.splits)
qed

text \<open>
  (C23) \<open>Revoke\<close>. On success the lease is gone from both indexes and from the database, and
  exactly its port is free again. A database error keeps the lease, its row and its port.
\<close>

theorem revoke_correct:
  assumes "store_inv B J s" "bolt_ok B"
  shows "case Revoke B i s of
      (Some e, s') \<Rightarrow> store_inv B J s' \<and> same_leases B s s' \<and> (e = ErrNotFound \<longleftrightarrow> Get s i = None)
    | (None, s') \<Rightarrow> store_inv B J s' \<and> Get s' = (Get s)(i := None) \<and> rows B (s_db s') i = None
        \<and> (\<exists>l. Get s i = Some l \<and> ByToken s' (l_Token l) = None
              \<and> used_ports (s_alloc s') = used_ports (s_alloc s) - {l_AllocatedPort l})"
proof -
  have idx: "idx_inv s" using assms(1) by (simp add: store_inv_def mem_inv_def)
  obtain r s' where run: "Revoke B i s = (r, s')" by (cases "Revoke B i s")
  then have rem: "remove B i s = (r, s')" by (simp add: Revoke_def)
  show ?thesis
  proof (cases r)
    case (Some e)
    have "Get s i = None \<Longrightarrow> e = ErrNotFound"
      using idx rem Some by (cases rule: remove_cases [of s i B]) auto
    with remove_error [OF assms rem [unfolded Some]] run Some show ?thesis by auto
  next
    case None
    note ok = remove_ok [OF assms rem [unfolded None]]
    note idx' = store_inv_parts(2) [OF ok(2)] and row = store_inv_parts(3) [OF ok(2), of i]
    have gone: "rows B (s_db s') i = None" using row ok(3) by (auto simp: row_ok_def split: option.splits)
    from ok(1) obtain l where l: "Get s i = Some l"
      "used_ports (s_alloc s') = used_ports (s_alloc s) - {l_AllocatedPort l}" by blast
    have "ByToken s' (l_Token l) = None" by (rule remove_token [OF assms rem [unfolded None] l(1)])
    with run None ok gone l show ?thesis by auto
  qed
qed

theorem revoke_correct_witness:
  "fst (Revoke mem_bolt ''a'' ref_store1) = None \<and> Get (snd (Revoke mem_bolt ''a'' ref_store1)) = Map.empty
   \<and> fst (Revoke mem_bolt ''b'' ref_store1) = Some ErrNotFound"
proof -
  have idx: "idx_inv ref_store1" using store_inv_parts(2) [OF ref_store1_inv] .
  have "fst (remove mem_bolt ''b'' ref_store1) = Some ErrNotFound"
    using idx by (cases rule: remove_cases [of ref_store1 "''b''" mem_bolt]) (simp_all add: ref_store1_get)
  then show ?thesis
    using ref_remove revoke_correct [OF ref_store1_inv mem_bolt_ok, of "''a''"]
    by (cases "remove mem_bolt ''a'' ref_store1") (auto simp: ref_store1_get Revoke_def)
qed

text \<open>
  \<open>MarkExpiredIfBefore\<close>. A lease renewed past the cutoff since the sweeper took its
  snapshot, or already gone, is left alone and reported as not expired; an expired one is
  reported as such whether or not its row could be deleted, and is removed exactly when the
  deletion succeeded.
\<close>

lemma mark_expired_correct:
  assumes "store_inv B J s" "bolt_ok B"
  shows "case MarkExpiredIfBefore B i cutoff s of ((wasExpired, removed, err), s') \<Rightarrow>
      store_inv B J s' \<and> (wasExpired \<longleftrightarrow> (\<exists>l. Get s i = Some l \<and> l_ExpiresAt l \<le> cutoff))
      \<and> (removed \<longleftrightarrow> wasExpired \<and> err = None) \<and> (\<not> wasExpired \<longrightarrow> err = None \<and> s' = s)
      \<and> (if removed then Get s' = (Get s)(i := None) else same_leases B s s')"
proof (cases "Get s i")
  case None
  then show ?thesis using assms(1) by (simp add: MarkExpiredIfBefore_def)
next
  case (Some l)
  show ?thesis
  proof (cases "cutoff < l_ExpiresAt l")
    case True
    then show ?thesis using assms(1) Some by (simp add: MarkExpiredIfBefore_def time_After_def)
  next
    case False
    obtain r s' where rem: "remove B i s = (r, s')" by (cases "remove B i s")
    show ?thesis
    proof (cases r)
      case None
      with remove_ok [OF assms rem [unfolded None]] rem Some False show ?thesis
        by (simp add: MarkExpiredIfBefore_def time_After_def)
    next
      case (Some e)
      with remove_error [OF assms rem [unfolded Some]] rem \<open>Get s i = Some l\<close> False show ?thesis
        by (simp add: MarkExpiredIfBefore_def time_After_def)
    qed
  qed
qed

section \<open>Restart and reachable stores\<close>

text \<open>
  (C2) Crash recovery. Opening the database of a store again, with any port range, gives a store
  that satisfies the invariant and holds exactly the leases that have not expired and whose port
  lies in the range, unchanged: same token, port, allowlist and expiry.
\<close>

theorem restart_recovers:
  assumes "store_inv B J s" "bolt_ok B" "minPort \<le> maxPort" "Open B J now minPort maxPort (Inr (s_db s)) = Inr s'"
  shows "store_inv B J s' \<and> Get s' i =
      (case Get s i of None \<Rightarrow> None
       | Some l \<Rightarrow> if now < l_ExpiresAt l \<and> minPort \<le> l_AllocatedPort l \<and> l_AllocatedPort l \<le> maxPort
                  then Some l else None)"
  using restart_spec [OF assms] by (simp add: retained_def Expired_def time_Before_def split: option.splits)

lemma mem_delete_ok: "\<exists>d'. delete_all mem_bolt ks (Some m) = Inr (Some d')"
  by (induction ks arbitrary: m) (simp_all add: mem_bolt_def)

lemma mem_open_ok: "\<exists>s'. Open mem_bolt J now mn mx (Inr (Some m)) = Inr s'"
proof -
  obtain s st where ld: "load_all mem_bolt J now mn mx (Some m) = (s, st)" by fastforce
  obtain d' where "delete_all mem_bolt st (Some m) = Inr (Some d')" using mem_delete_ok by blast
  then have "open_tx mem_bolt J now mn mx (Some m) = Inr (s\<lparr>s_db := Some d'\<rparr>)"
    using ld by (simp add: open_tx_def) (simp add: mem_bolt_def)
  then show ?thesis by (simp add: Open_def) (simp add: mem_bolt_def)
qed

theorem restart_recovers_witness:
  "\<exists>s' s''. Open mem_bolt ref_codec 9 10000 10005 (Inr (s_db ref_store1)) = Inr s' \<and> Get s' ''a'' = Some ref_lease
     \<and> Open mem_bolt ref_codec 10 10000 10005 (Inr (s_db ref_store1)) = Inr s'' \<and> Get s'' ''a'' = None"
proof -
  obtain m where m: "s_db ref_store1 = Some m"
    using store_inv_parts(4) [OF ref_store1_inv] by (auto simp: mem_bolt_def)
  obtain s' s'' where o: "Open mem_bolt ref_codec 9 10000 10005 (Inr (s_db ref_store1)) = Inr s'"
    "Open mem_bolt ref_codec 10 10000 10005 (Inr (s_db ref_store1)) = Inr s''"
    using mem_open_ok m by metis
  show ?thesis
    using restart_recovers [OF ref_store1_inv mem_bolt_ok _ o(1), of "''a''"]
      restart_recovers [OF ref_store1_inv mem_bolt_ok _ o(2), of "''a''"] o
    by (auto simp: ref_store1_get ref_lease_def)
qed

text \<open>
  The stores a daemon can reach: opened on an empty database, changed by the operations in any
  order and with any outcome of the parameters, and restarted at any point. A crash inside an
  operation leaves the database of the state before or after it, since each commits once.
\<close>

inductive store_reach :: "'db bolt \<Rightarrow> codec \<Rightarrow> 'db Store \<Rightarrow> bool" for B J where
  first: "rows B d = Map.empty \<Longrightarrow> mn \<le> mx \<Longrightarrow> Open B J now mn mx (Inr d) = Inr s \<Longrightarrow> store_reach B J s"
| create: "store_reach B J s \<Longrightarrow> params_wire p \<Longrightarrow> token_fresh rnd s \<Longrightarrow>
    Create B J probe rnd now p s = (r, s') \<Longrightarrow> store_reach B J s'"
| extend: "store_reach B J s \<Longrightarrow> Extend B J i d s = (r, s') \<Longrightarrow> store_reach B J s'"
| revoke: "store_reach B J s \<Longrightarrow> Revoke B i s = (e, s') \<Longrightarrow> store_reach B J s'"
| expire: "store_reach B J s \<Longrightarrow> MarkExpiredIfBefore B i cutoff s = (x, s') \<Longrightarrow> store_reach B J s'"
| restart: "store_reach B J s \<Longrightarrow> mn \<le> mx \<Longrightarrow> Open B J now mn mx (Inr (s_db s)) = Inr s' \<Longrightarrow> store_reach B J s'"

inductive_cases store_reach_cases: "store_reach B J s"

lemma create_inv:
  assumes "store_inv B J s" "bolt_ok B" "codec_ok J" "params_wire p" "token_fresh rnd s"
    "Create B J probe rnd now p s = (r, s')"
  shows "store_inv B J s'"
proof (cases r)
  case (Inl e)
  then show ?thesis using create_error [OF assms(1,2)] assms(6) by simp
next
  case (Inr l)
  show ?thesis
  proof (cases "Get s (cp_LeaseID p)")
    case None
    then show ?thesis using create_new(1) [OF assms(1-5) None] assms(6) Inr by simp
  next
    case (Some l0)
    then show ?thesis using assms(1,6) by (simp add: Create_def)
  qed
qed

lemma extend_inv:
  assumes "store_inv B J s" "bolt_ok B" "codec_ok J" "Extend B J i d s = (r, s')"
  shows "store_inv B J s'"
  using extend_error [OF assms(1,2)] extend_ok(2) [OF assms(1-3)] assms(4) by (cases r) auto

lemma remove_inv:
  assumes "store_inv B J s" "bolt_ok B" "remove B i s = (e, s')"
  shows "store_inv B J s'"
  using remove_error [OF assms(1,2)] remove_ok(2) [OF assms(1,2)] assms(3) by (cases e) auto

lemma mark_expired_inv:
  assumes "store_inv B J s" "bolt_ok B" "MarkExpiredIfBefore B i cutoff s = (x, s')"
  shows "store_inv B J s'"
  using assms(1,3) remove_inv [OF assms(1,2)]
  by (auto simp: MarkExpiredIfBefore_def split: option.splits if_splits prod.splits)

lemma store_reach_inv: "store_reach B J s \<Longrightarrow> bolt_ok B \<Longrightarrow> codec_ok J \<Longrightarrow> store_inv B J s"
proof (induction rule: store_reach.induct)
  case (first d mn mx now s)
  show ?case by (rule open_fresh_inv [OF first.prems(1) first.hyps(2,1,3)])
next
  case (create s p rnd probe now r s')
  then show ?case using create_inv by blast
next
  case (extend s i d r s')
  then show ?case using extend_inv by blast
next
  case (revoke s i e s')
  then show ?case using remove_inv by (simp add: Revoke_def)
next
  case (expire s i cutoff x s')
  then show ?case using mark_expired_inv by blast
next
  case (restart s mn mx now s')
  then show ?case using restart_spec(1) by blast
qed

text \<open>
  (C1) Exclusive ports and tokens. In every reachable store the database holds exactly the live
  leases: a row for each, decoding to it, and no other row. Every live lease has a port of the
  configured range, its token authenticates exactly it, and two different live leases have
  different ports and different tokens.
\<close>

theorem leases_exclusive:
  assumes "store_reach B J s" "bolt_ok B" "codec_ok J"
  shows "(\<forall>i. case rows B (s_db s) i of None \<Rightarrow> Get s i = None | Some bs \<Rightarrow> unmarshal J bs = Get s i \<and> Get s i \<noteq> None)
      \<and> (\<forall>i l. Get s i = Some l \<longrightarrow> in_range (s_alloc s) (l_AllocatedPort l) \<and> ByToken s (l_Token l) = Some l
          \<and> (\<forall>j m. Get s j = Some m \<and> j \<noteq> i \<longrightarrow> l_AllocatedPort m \<noteq> l_AllocatedPort l \<and> l_Token m \<noteq> l_Token l))"
proof -
  note inv = store_reach_inv [OF assms]
  note idx = store_inv_parts(2) [OF inv]
  have "case rows B (s_db s) i of None \<Rightarrow> Get s i = None | Some bs \<Rightarrow> unmarshal J bs = Get s i \<and> Get s i \<noteq> None" for i
    using store_inv_parts(3) [OF inv, of i] by (auto simp: row_ok_def split: option.splits)
  moreover have "in_range (s_alloc s) (l_AllocatedPort l)" if "Get s i = Some l" for i l
    using pool.owns_in_range [OF mem_inv_parts(3) [OF store_inv_parts(1) [OF inv]], of i] Get_keys [OF idx, of i] that
    by (simp add: port_of_def)
  moreover have "ByToken s (l_Token l) = Some l" if "Get s i = Some l" for i l
    using ByToken_iff [OF idx] Get_fields(1) [OF idx that] that by simp
  moreover have "l_AllocatedPort m \<noteq> l_AllocatedPort l \<and> l_Token m \<noteq> l_Token l"
    if "Get s i = Some l" "Get s j = Some m" "j \<noteq> i" for i j l m
    using store_loadable [OF inv] that unfolding loadable_def by blast
  ultimately show ?thesis by blast
qed

lemma ref_reach: "store_reach mem_bolt ref_codec ref_store1"
  by (rule store_reach.create [OF store_reach.first [OF _ _ ref_open] ref_params_ok ref_create [unfolded ref_create_def]])
    (simp_all add: rows_mem ref_db_def)

theorem leases_exclusive_witness:
  "store_reach mem_bolt ref_codec ref_store1 \<and> in_range (s_alloc ref_store1) 10000
   \<and> ByToken ref_store1 (replicate 32 CHR ''a'') = Some ref_lease
   \<and> rows mem_bolt (s_db ref_store1) ''b'' = None"
proof -
  note here = leases_exclusive [OF ref_reach mem_bolt_ok ref_codec_ok]
  have "Get ref_store1 ''a'' = Some ref_lease" "Get ref_store1 ''b'' = None" by (simp_all add: ref_store1_get)
  moreover have "rows mem_bolt (s_db ref_store1) ''b'' = None"
    using here [THEN conjunct1, THEN spec, of "''b''"] \<open>Get ref_store1 ''b'' = None\<close> by (simp split: option.splits)
  moreover have "in_range (s_alloc ref_store1) (l_AllocatedPort ref_lease) \<and> ByToken ref_store1 (l_Token ref_lease) = Some ref_lease"
    using here \<open>Get ref_store1 ''a'' = Some ref_lease\<close> by blast
  ultimately show ?thesis using ref_reach by (simp add: ref_lease_def)
qed

section \<open>Listings\<close>

text \<open>The order of a \<open>for range\<close> over a map: any permutation of its entries.\<close>

definition range_order :: "(('k, 'v) gomap \<Rightarrow> ('k, 'v) gomap) \<Rightarrow> bool" where
  "range_order rng \<longleftrightarrow> (\<forall>m. mset (rng m) = mset m)"

lemma range_order_set: "range_order rng \<Longrightarrow> set (rng m) = set m"
  unfolding range_order_def by (metis set_mset_mset)

lemma range_order_wf: "range_order rng \<Longrightarrow> gm_wf m \<Longrightarrow> gm_wf (rng m)"
  unfolding range_order_def gm_wf_def by (metis mset_eq_imp_distinct_iff mset_map)

lemma range_order_map_of:
  assumes "range_order rng" "gm_wf m"
  shows "map_of (rng m) = map_of m"
proof
  fix k
  show "map_of (rng m) k = map_of m k"
    using gm_in_set_iff [OF range_order_wf [OF assms]] gm_in_set_iff [OF assms(2)] range_order_set [OF assms(1)]
    by (metis not_Some_eq)
qed

lemma entries_leases:
  assumes "idx_inv s" "set es \<subseteq> set (s_byID s)"
  shows "map l_LeaseID (List.map_filter (\<lambda>(i, p). s_heap s p) es) = map fst es"
  using assms(2)
proof (induction es)
  case Nil
  then show ?case by (simp add: List.map_filter_def)
next
  case (Cons e es)
  obtain i p where e: "e = (i, p)" by (cases e)
  have "gm_get (s_byID s) i = Some p"
    using Cons.prems e assms(1) by (simp add: gm_in_set_iff idx_inv_def)
  from idx_get [OF assms(1) this] obtain l where "s_heap s p = Some l" "l_LeaseID l = i" by metis
  with Cons e show ?case by (simp add: List.map_filter_def)
qed

lemma store_List_keys:
  assumes "idx_inv s" "range_order rng"
  shows "map l_LeaseID (store_List rng s) = sorted_list_of_set (dom (Get s))"
proof -
  let ?ls = "List.map_filter (\<lambda>(i, p). s_heap s p) (rng (s_byID s))"
  have wf: "gm_wf (s_byID s)" using assms(1) by (simp add: idx_inv_def)
  have ids: "map l_LeaseID ?ls = map fst (rng (s_byID s))"
    by (rule entries_leases [OF assms(1)]) (simp add: range_order_set [OF assms(2)])
  have dom: "dom (Get s) = set (map fst (rng (s_byID s)))"
    using Get_keys [OF assms(1)] range_order_set [OF assms(2)] by (auto simp: dom_def)
  have "map l_LeaseID (sort_key l_LeaseID ?ls) = sort (map l_LeaseID ?ls)"
    by (rule properties_for_sort [symmetric]) simp_all
  also have "\<dots> = sorted_list_of_set (set (map fst (rng (s_byID s))))"
    unfolding ids sorted_list_of_set_sort_remdups using range_order_wf [OF assms(2) wf]
    by (simp add: gm_wf_def distinct_remdups_id)
  finally show ?thesis by (simp add: store_List_def dom)
qed

lemma store_List_get:
  assumes "idx_inv s" "range_order rng" "l \<in> set (store_List rng s)"
  shows "Get s (l_LeaseID l) = Some l"
proof -
  from assms(3) obtain i p where ip: "(i, p) \<in> set (s_byID s)" "s_heap s p = Some l"
    by (auto simp: store_List_def List.map_filter_def range_order_set [OF assms(2)] split: prod.splits)
  then have "gm_get (s_byID s) i = Some p" using assms(1) by (simp add: gm_in_set_iff idx_inv_def)
  with ip(2) have "Get s i = Some l" by (simp add: Get_def)
  with Get_fields(1) [OF assms(1) this] show ?thesis by simp
qed

lemma expired_before_set:
  assumes "idx_inv s" "range_order rng"
  shows "set (ExpiredBefore rng now s) = {i. \<exists>l. Get s i = Some l \<and> l_ExpiresAt l \<le> now}"
proof -
  have wf: "gm_wf (s_byID s)" using assms(1) by (simp add: idx_inv_def)
  have "i \<in> set (ExpiredBefore rng now s) \<longleftrightarrow>
      (\<exists>p. gm_get (s_byID s) i = Some p \<and> (case s_heap s p of None \<Rightarrow> False | Some l \<Rightarrow> Expired l now))" for i
  proof -
    have "i \<in> set (ExpiredBefore rng now s) \<longleftrightarrow>
        (\<exists>p. (i, p) \<in> set (s_byID s) \<and> (case s_heap s p of None \<Rightarrow> False | Some l \<Rightarrow> Expired l now))"
      unfolding ExpiredBefore_def set_map set_filter range_order_set [OF assms(2)] by (auto simp: image_iff Bex_def)
    then show ?thesis unfolding gm_in_set_iff [OF wf] .
  qed
  then show ?thesis by (auto simp: Get_def Expired_def time_Before_def split: option.splits)
qed

text \<open>
  (C36) Reading the store. Whatever the iteration order of the map, \<open>List\<close> returns every live
  lease once, in the order of the identifiers; \<open>ExpiredBefore\<close> names exactly the leases whose
  expiry has passed; and \<open>Stats\<close> counts the live leases and the ports left, which together
  make up the whole range.
\<close>

theorem store_reads_correct:
  assumes "store_inv B J s" "range_order rng"
  shows "map (\<lambda>l. Some l) (store_List rng s) = map (Get s) (sorted_list_of_set (dom (Get s)))
    \<and> set (ExpiredBefore rng now s) = {i. \<exists>l. Get s i = Some l \<and> l_ExpiresAt l \<le> now}
    \<and> Stats s = (int (card (dom (Get s))), span (s_alloc s) - int (card (dom (Get s))))"
proof -
  note idx = store_inv_parts(2) [OF assms(1)]
  have wf: "gm_wf (s_byID s)" using idx by (simp add: idx_inv_def)
  have "map (Get s) (map l_LeaseID (store_List rng s)) = map Some (store_List rng s)"
    using store_List_get [OF idx assms(2)] by simp
  then have 1: "map (\<lambda>l. Some l) (store_List rng s) = map (Get s) (sorted_list_of_set (dom (Get s)))"
    by (simp add: store_List_keys [OF idx assms(2)])
  have 2: "set (ExpiredBefore rng now s) = {i. \<exists>l. Get s i = Some l \<and> l_ExpiresAt l \<le> now}"
    by (rule expired_before_set [OF idx assms(2)])
  have dom: "dom (Get s) = gm_keys (s_byID s)" using Get_keys [OF idx] by (auto simp: dom_def)
  note mem = mem_inv_parts [OF store_inv_parts(1) [OF assms(1)]]
  have inj: "inj_on (port_of s) (gm_keys (s_byID s))" using mem(3) by (simp add: pool.owns_def)
  have "length (pa_used (s_alloc s)) = card (used_ports (s_alloc s))"
    using mem(2) by (simp add: alloc_inv_def gm_length_card used_ports_def)
  also have "\<dots> = card (gm_keys (s_byID s))" using card_image [OF inj] mem(4) by simp
  finally have 3: "Stats s = (int (card (dom (Get s))), span (s_alloc s) - int (card (dom (Get s))))"
    by (simp add: Stats_def free_def span_def dom gm_length_card [OF wf])
  from 1 2 3 show ?thesis by simp
qed

theorem store_reads_correct_witness:
  "store_List rev ref_store1 = [ref_lease] \<and> ''a'' \<in> set (ExpiredBefore rev 10 ref_store1)
   \<and> fst (Stats ref_store1) = 1"
proof -
  have ro: "range_order rev" by (simp add: range_order_def)
  note r = store_reads_correct [OF ref_store1_inv ro, of 10]
  have "map Some (store_List rev ref_store1) = [Some ref_lease]"
    using r by (simp add: ref_store1_get)
  then have "store_List rev ref_store1 = [ref_lease]" by auto
  then show ?thesis using r by (simp add: ref_store1_get ref_lease_def)
qed

end
