(* ===== verification/Contract.thy ===== *)
theory Contract
  imports Go_Strings
begin

text \<open>
  The wire types of the two services: \<open>src/internal/contract/types.go\<close> (egress sidecar) and
  \<open>src/internal/tunnel/contract/types.go\<close> (control API of the tunnel daemon). A Go pointer that
  may be \<open>nil\<close> is an option.
\<close>

section \<open>Egress sidecar\<close>

definition ProxyModeDirect :: string where "ProxyModeDirect = ''direct''"
definition ProxyModeTor :: string where "ProxyModeTor = ''tor''"
definition ProxyModeI2P :: string where "ProxyModeI2P = ''i2p''"
definition ProxyModeYggdrasil :: string where "ProxyModeYggdrasil = ''yggdrasil''"

definition AllModes :: "string list" where
  "AllModes = [ProxyModeDirect, ProxyModeTor, ProxyModeI2P, ProxyModeYggdrasil]"

lemmas mode_defs = ProxyModeDirect_def ProxyModeTor_def ProxyModeI2P_def ProxyModeYggdrasil_def

record NetworkRequest =
  nr_RequestID :: string
  nr_URL :: string
  nr_Method :: string
  nr_Headers :: "(string, string) gomap"
  nr_Body :: "string option"
  nr_ProxyMode :: string
  nr_TimeoutSeconds :: int

record NetworkResponse =
  ns_StatusCode :: int
  ns_Headers :: "(string, string) gomap"
  ns_Body :: string
  ns_Elapsed :: duration
  ns_ProxyMode :: string
  ns_Error :: "string option"

record ModeInfo =
  mi_Available :: bool
  mi_Reason :: "string option"

record ModesResponse =
  mr_Modes :: "(string, ModeInfo) gomap"

text \<open>\<open>HealthResponse\<close> of the sidecar, and the version both services report.\<close>

record egress_Health =
  eh_Status :: string
  eh_Service :: string
  eh_Version :: string

definition Version :: string where "Version = ''dev''"

section \<open>Tunnel control API\<close>

record CreateLeaseRequest =
  cr_LeaseID :: string
  cr_DurationSeconds :: int
  cr_AllowlistCIDRs :: "string list"

record ExtendLeaseRequest =
  er_DurationSeconds :: int

record LeaseResponse =
  lr_LeaseID :: string
  lr_Token :: string
  lr_Port :: int
  lr_EndpointHost :: string
  lr_SSHPort :: int
  lr_Status :: string
  lr_ExpiresAt :: time
  lr_Connected :: bool
  lr_VisitorConns :: int
  lr_BytesIn :: int
  lr_BytesOut :: int

record HealthResponse =
  hr_Status :: string
  hr_Service :: string
  hr_Version :: string
  hr_ActiveLeases :: int
  hr_FreePorts :: int

record ListLeasesResponse =
  ll_Leases :: "LeaseResponse list"

record ErrorResponse =
  xr_Error :: string

end
