(* ===== verification/Forward.thy ===== *)
theory Forward
  imports Lease_Store Contract
begin

text \<open>
  The forward manager (\<open>src/internal/tunnel/sshd/forward.go\<close>): forwards, per-lease state, and
  the operations of \<open>Manager\<close>. Forwards and lease states are shared by goroutines through
  pointers, so they live in a heap; connections, listeners, visitor sockets and SSH channels are
  handles, and \<open>m_closed\<close> records which of them have been closed. An operation that works
  after releasing the lock is a critical section followed by tasks; the composition is the
  operation. The visitor goroutine is a program counter and a stack of deferred calls, advanced
  one shared access at a time.
\<close>

section \<open>Data\<close>

text \<open>The last two stand for the write side of a channel and of a visitor's socket (\<open>CloseWrite\<close>).\<close>

datatype handle = HConn nat | HListener nat | HVisitor nat | HChannel nat | HChannelWrite nat | HVisitorWrite nat

record forward =
  f_listener :: nat
  f_connectedAddr :: string
  f_connectedPort :: "32 word"
  f_allowNets :: "ipnet list"
  f_allowlistSet :: bool
  f_closeOnce :: bool
  f_visitors :: "(nat, nat option) gomap"
  f_closed :: bool

record leaseState =
  ls_conn :: nat
  ls_forward :: "nat option"
  ls_visitors :: int
  ls_bytesIn :: int
  ls_bytesOut :: int

text \<open>
  \<open>m_leases\<close> maps identifiers to pointers to lease states. A \<open>nil\<close> visitor map is the empty
  one. \<open>m_visitorConns\<close> and \<open>m_bytesFwd\<close> are the metrics the manager drives.
\<close>

record Manager =
  m_leases :: "(string, nat) gomap"
  m_maxVisitors :: int
  m_states :: "nat \<Rightarrow> leaseState option"
  m_forwards :: "nat \<Rightarrow> forward option"
  m_brk :: nat
  m_closed :: "handle list"
  m_visitorConns :: int
  m_bytesFwd :: "int \<times> int"

datatype forward_error = ErrLeaseGone | ErrDuplicateForward | ErrBind string

definition NewManager :: "int \<Rightarrow> Manager" where
  "NewManager maxVisitors =
     \<lparr>m_leases = [], m_maxVisitors = maxVisitors, m_states = Map.empty, m_forwards = Map.empty, m_brk = 0,
      m_closed = [], m_visitorConns = 0, m_bytesFwd = (0, 0)\<rparr>"

section \<open>Forwards\<close>

definition allows :: "forward \<Rightarrow> byte list \<Rightarrow> bool" where
  "allows f ip =
     (if f_allowNets f = [] then \<not> f_allowlistSet f
      else list_ex (\<lambda>n. ipnet_Contains n ip) (f_allowNets f))"

definition parseCIDRs :: "string list \<Rightarrow> ipnet list" where
  "parseCIDRs cidrs = List.map_filter ParseCIDR cidrs"

text \<open>The address of a peer: a \<open>*net.TCPAddr\<close> or another \<open>net.Addr\<close>, with its \<open>String()\<close>.\<close>

datatype netaddr = TCPAddr "byte list option" string | OtherAddr string

fun addr_str :: "netaddr \<Rightarrow> string" where
  "addr_str (TCPAddr ip s) = s"
| "addr_str (OtherAddr s) = s"

fun visitorIP :: "netaddr \<Rightarrow> byte list option" where
  "visitorIP (TCPAddr ip s) = ip"
| "visitorIP (OtherAddr s) =
     (case SplitHostPort s of Inl e \<Rightarrow> None | Inr (host, port) \<Rightarrow> ParseIP host)"

text \<open>Pointer updates of the heap.\<close>

definition upd_forward :: "nat \<Rightarrow> forward \<Rightarrow> Manager \<Rightarrow> Manager" where
  "upd_forward fp f m = m\<lparr>m_forwards := (m_forwards m)(fp \<mapsto> f)\<rparr>"

definition upd_state :: "nat \<Rightarrow> leaseState \<Rightarrow> Manager \<Rightarrow> Manager" where
  "upd_state sp st m = m\<lparr>m_states := (m_states m)(sp \<mapsto> st)\<rparr>"

definition log_close :: "handle list \<Rightarrow> Manager \<Rightarrow> Manager" where
  "log_close hs m = m\<lparr>m_closed := m_closed m @ hs\<rparr>"

text \<open>What \<open>close\<close> closes for one visitor: the socket and, when it is open, the channel.\<close>

definition visitor_handles :: "nat \<times> nat option \<Rightarrow> handle list" where
  "visitor_handles e = HVisitor (fst e) # (case snd e of None \<Rightarrow> [] | Some ch \<Rightarrow> [HChannel ch])"

definition forward_close :: "nat \<Rightarrow> Manager \<Rightarrow> Manager" where
  "forward_close fp m =
     (case m_forwards m fp of
        None \<Rightarrow> m
      | Some f \<Rightarrow>
          if f_closeOnce f then m
          else log_close (HListener (f_listener f) # concat (map visitor_handles (f_visitors f)))
                 (upd_forward fp (f\<lparr>f_closeOnce := True, f_closed := True, f_visitors := []\<rparr>) m))"

definition trackVisitor :: "nat \<Rightarrow> nat \<Rightarrow> Manager \<Rightarrow> bool \<times> Manager" where
  "trackVisitor fp vc m =
     (case m_forwards m fp of
        None \<Rightarrow> (False, m)
      | Some f \<Rightarrow>
          if f_closed f then (False, m)
          else (True, upd_forward fp (f\<lparr>f_visitors := gm_put vc None (f_visitors f)\<rparr>) m))"

definition setVisitorChannel :: "nat \<Rightarrow> nat \<Rightarrow> nat \<Rightarrow> Manager \<Rightarrow> bool \<times> Manager" where
  "setVisitorChannel fp vc ch m =
     (case m_forwards m fp of
        None \<Rightarrow> (False, m)
      | Some f \<Rightarrow>
          if f_closed f then (False, m)
          else if gm_get (f_visitors f) vc = None then (False, m)
          else (True, upd_forward fp (f\<lparr>f_visitors := gm_put vc (Some ch) (f_visitors f)\<rparr>) m))"

definition untrackVisitor :: "nat \<Rightarrow> nat \<Rightarrow> Manager \<Rightarrow> Manager" where
  "untrackVisitor fp vc m =
     (case m_forwards m fp of
        None \<Rightarrow> m
      | Some f \<Rightarrow> upd_forward fp (f\<lparr>f_visitors := gm_del vc (f_visitors f)\<rparr>) m)"

section \<open>Critical sections and their tails\<close>

text \<open>What an operation still does after it has released the lock.\<close>

datatype task = CloseForwardOf nat | CloseForward nat | CloseConn nat

definition run_task :: "task \<Rightarrow> Manager \<Rightarrow> Manager" where
  "run_task t m =
     (case t of
        CloseForwardOf sp \<Rightarrow>
          (case m_states m sp of
             None \<Rightarrow> m
           | Some st \<Rightarrow> (case ls_forward st of None \<Rightarrow> m | Some fp \<Rightarrow> forward_close fp m))
      | CloseForward fp \<Rightarrow> forward_close fp m
      | CloseConn c \<Rightarrow> log_close [HConn c] m)"

definition run_tasks :: "task list \<Rightarrow> Manager \<Rightarrow> Manager" where
  "run_tasks ts m = foldl (\<lambda>m t. run_task t m) m ts"

text \<open>\<open>m.store.Get(id)\<close> found a lease that has not expired.\<close>

definition lease_live :: "(string \<Rightarrow> Lease option) \<Rightarrow> time \<Rightarrow> string \<Rightarrow> Lease option" where
  "lease_live get now i = (case get i of None \<Rightarrow> None | Some l \<Rightarrow> if Expired l now then None else Some l)"

definition new_state :: "nat \<Rightarrow> leaseState" where
  "new_state conn = \<lparr>ls_conn = conn, ls_forward = None, ls_visitors = 0, ls_bytesIn = 0, ls_bytesOut = 0\<rparr>"

definition RegisterConn_cs ::
  "(string \<Rightarrow> Lease option) \<Rightarrow> time \<Rightarrow> nat \<Rightarrow> string \<Rightarrow> Manager \<Rightarrow> (bool \<times> task list) \<times> Manager" where
  "RegisterConn_cs get now conn leaseID m =
     (case lease_live get now leaseID of
        None \<Rightarrow> ((False, []), m)
      | Some l \<Rightarrow>
          (let m' = (upd_state (m_brk m) (new_state conn) m)
                 \<lparr>m_leases := gm_put leaseID (m_brk m) (m_leases m), m_brk := Suc (m_brk m)\<rparr>
           in case gm_get (m_leases m) leaseID of
                None \<Rightarrow> ((True, []), m')
              | Some old \<Rightarrow>
                  (case m_states m old of
                     None \<Rightarrow> ((True, []), m')
                   | Some st \<Rightarrow> ((True, CloseForwardOf old # (if ls_conn st \<noteq> conn then [CloseConn (ls_conn st)] else [])), m'))))"

definition RegisterConn ::
  "(string \<Rightarrow> Lease option) \<Rightarrow> time \<Rightarrow> nat \<Rightarrow> string \<Rightarrow> Manager \<Rightarrow> bool \<times> Manager" where
  "RegisterConn get now conn leaseID m =
     (case RegisterConn_cs get now conn leaseID m of ((ok, ts), m') \<Rightarrow> (ok, run_tasks ts m'))"

text \<open>\<open>listen\<close> is the outcome of \<open>net.Listen\<close> on the given port: an error or the listener.\<close>

definition StartForward ::
  "(string \<Rightarrow> Lease option) \<Rightarrow> time \<Rightarrow> (int \<Rightarrow> (string, nat) result) \<Rightarrow> nat \<Rightarrow> string \<Rightarrow> string \<Rightarrow> 32 word \<Rightarrow> Manager
   \<Rightarrow> (forward_error, int \<times> 32 word) result \<times> Manager" where
  "StartForward get now listen conn leaseID bindAddr requestedPort m =
     (case lease_live get now leaseID of
        None \<Rightarrow> (Inl ErrLeaseGone, m)
      | Some l \<Rightarrow>
          (case gm_get (m_leases m) leaseID of
             None \<Rightarrow> (Inl ErrLeaseGone, m)
           | Some sp \<Rightarrow>
               (case m_states m sp of
                  None \<Rightarrow> (Inl ErrLeaseGone, m)
                | Some st \<Rightarrow>
                    if ls_conn st \<noteq> conn then (Inl ErrLeaseGone, m)
                    else if ls_forward st \<noteq> None then (Inl ErrDuplicateForward, m)
                    else (case listen (l_AllocatedPort l) of
                            Inl e \<Rightarrow> (Inl (ErrBind (''bind data port '' @ Itoa (l_AllocatedPort l) @ '': '' @ e)), m)
                          | Inr ln \<Rightarrow>
                              (let connectedPort = (if requestedPort = 0 then word_of_int (l_AllocatedPort l)
                                                    else requestedPort);
                                   f = \<lparr>f_listener = ln, f_connectedAddr = bindAddr, f_connectedPort = connectedPort,
                                        f_allowNets = parseCIDRs (l_AllowlistCIDRs l),
                                        f_allowlistSet = (l_AllowlistCIDRs l \<noteq> []),
                                        f_closeOnce = False, f_visitors = [], f_closed = False\<rparr>
                               in (Inr (l_AllocatedPort l, connectedPort),
                                   (upd_state sp (st\<lparr>ls_forward := Some (m_brk m)\<rparr>) (upd_forward (m_brk m) f m))
                                     \<lparr>m_brk := Suc (m_brk m)\<rparr>))))))"

definition Teardown_cs :: "string \<Rightarrow> Manager \<Rightarrow> task list \<times> Manager" where
  "Teardown_cs leaseID m =
     (let m' = m\<lparr>m_leases := gm_del leaseID (m_leases m)\<rparr> in
      case gm_get (m_leases m) leaseID of
        None \<Rightarrow> ([], m')
      | Some sp \<Rightarrow>
          (case m_states m sp of
             None \<Rightarrow> ([], m')
           | Some st \<Rightarrow> ([CloseForwardOf sp, CloseConn (ls_conn st)], m')))"

definition Teardown :: "string \<Rightarrow> Manager \<Rightarrow> Manager" where
  "Teardown leaseID m = (case Teardown_cs leaseID m of (ts, m') \<Rightarrow> run_tasks ts m')"

definition CancelForward_cs :: "string \<Rightarrow> nat \<Rightarrow> Manager \<Rightarrow> task list \<times> Manager" where
  "CancelForward_cs leaseID conn m =
     (case gm_get (m_leases m) leaseID of
        None \<Rightarrow> ([], m)
      | Some sp \<Rightarrow>
          (case m_states m sp of
             None \<Rightarrow> ([], m)
           | Some st \<Rightarrow>
               (case ls_forward st of
                  None \<Rightarrow> ([], m)
                | Some fp \<Rightarrow> if ls_conn st = conn then ([CloseForward fp], upd_state sp (st\<lparr>ls_forward := None\<rparr>) m)
                            else ([], m))))"

definition CancelForward :: "string \<Rightarrow> nat \<Rightarrow> Manager \<Rightarrow> Manager" where
  "CancelForward leaseID conn m = (case CancelForward_cs leaseID conn m of (ts, m') \<Rightarrow> run_tasks ts m')"

definition OnConnClosed_cs :: "string \<Rightarrow> nat \<Rightarrow> Manager \<Rightarrow> task list \<times> Manager" where
  "OnConnClosed_cs leaseID conn m =
     (case gm_get (m_leases m) leaseID of
        None \<Rightarrow> ([], m)
      | Some sp \<Rightarrow>
          (case m_states m sp of
             None \<Rightarrow> ([], m)
           | Some st \<Rightarrow>
               if ls_conn st = conn then ([CloseForwardOf sp], m\<lparr>m_leases := gm_del leaseID (m_leases m)\<rparr>)
               else ([], m)))"

definition OnConnClosed :: "string \<Rightarrow> nat \<Rightarrow> Manager \<Rightarrow> Manager" where
  "OnConnClosed leaseID conn m = (case OnConnClosed_cs leaseID conn m of (ts, m') \<Rightarrow> run_tasks ts m')"

text \<open>\<open>Stats\<close>: connected, visitors, bytes in, bytes out.\<close>

definition manager_Stats :: "string \<Rightarrow> Manager \<Rightarrow> bool \<times> int \<times> int \<times> int" where
  "manager_Stats leaseID m =
     (case gm_get (m_leases m) leaseID of
        None \<Rightarrow> (False, 0, 0, 0)
      | Some sp \<Rightarrow>
          (case m_states m sp of
             None \<Rightarrow> (False, 0, 0, 0)
           | Some st \<Rightarrow> (ls_forward st \<noteq> None, ls_visitors st, ls_bytesIn st, ls_bytesOut st)))"

text \<open>The delay after a failed \<open>Accept\<close>, from the previous one.\<close>

definition next_backoff :: "duration \<Rightarrow> duration" where
  "next_backoff b =
     (if b = 0 then 5 * Millisecond else if b * 2 > Second then Second else b * 2)"

end
