(* ===== verification/Visitors.thy ===== *)
theory Visitors
  imports Forward
begin

text \<open>
  Public visitors of a forward (\<open>acceptVisitors\<close> and \<open>handleVisitor\<close> in
  \<open>src/internal/tunnel/sshd/forward.go\<close>) and their interleaving with the manager's operations:
  the visitor cap, the gauge, and what a teardown closes.
\<close>

section \<open>The accept loop\<close>

datatype accept_result = Accepted nat netaddr | AcceptErr string | AcceptClosed

text \<open>
  The loop on the answers of \<open>Accept\<close>: the visitors handed to \<open>handleVisitor\<close>, and the delays
  slept. It returns at \<open>net.ErrClosed\<close>.
\<close>

fun acceptVisitors :: "duration \<Rightarrow> accept_result list \<Rightarrow> (nat \<times> netaddr) list \<times> duration list" where
  "acceptVisitors backoff [] = ([], [])"
| "acceptVisitors backoff (AcceptClosed # rs) = ([], [])"
| "acceptVisitors backoff (AcceptErr e # rs) =
     (case acceptVisitors (next_backoff backoff) rs of (vs, ds) \<Rightarrow> (vs, next_backoff backoff # ds))"
| "acceptVisitors backoff (Accepted vc a # rs) =
     (case acceptVisitors 0 rs of (vs, ds) \<Rightarrow> ((vc, a) # vs, ds))"

section \<open>The visitor goroutine\<close>

record forwardedTCPPayload =
  pl_Addr :: string
  pl_Port :: "32 word"
  pl_OriginAddr :: string
  pl_OriginPort :: "32 word"

definition visitor_payload :: "forward \<Rightarrow> netaddr \<Rightarrow> forwardedTCPPayload" where
  "visitor_payload f a =
     (let (originAddr, originPortStr) = (case SplitHostPort (addr_str a) of Inl _ \<Rightarrow> ([], []) | Inr hp \<Rightarrow> hp);
          originPort = (case ParseInt originPortStr of None \<Rightarrow> 0 | Some n \<Rightarrow> n)
      in \<lparr>pl_Addr = f_connectedAddr f, pl_Port = f_connectedPort f, pl_OriginAddr = originAddr,
          pl_OriginPort = word_of_int originPort\<rparr>)"

text \<open>
  Program points of \<open>handleVisitor\<close>: the allowlist check, \<open>trackVisitor\<close>, the load and the
  compare-and-swap of \<open>reserveVisitorSlot\<close>, the gauge, \<open>OpenChannel\<close>, \<open>setVisitorChannel\<close>,
  the two copies (which of them have ended), and the return, which runs the deferred calls.
\<close>

datatype vpc = PCheck | PTrack | PLoad | PCas int | PInc | POpen | PSet nat | PCopy nat bool bool | PReturn

datatype deferred = DCloseVisitor | DUntrack | DRelease | DGaugeDec | DCloseChannel nat

record visitor =
  v_st :: nat
  v_fwd :: nat
  v_conn :: nat
  v_addr :: netaddr
  v_pc :: vpc
  v_defers :: "deferred list"

definition new_visitor :: "nat \<Rightarrow> nat \<Rightarrow> nat \<Rightarrow> netaddr \<Rightarrow> visitor" where
  "new_visitor sp fp vc a =
     \<lparr>v_st = sp, v_fwd = fp, v_conn = vc, v_addr = a, v_pc = PCheck, v_defers = [DCloseVisitor]\<rparr>"

definition run_deferred :: "deferred \<Rightarrow> visitor \<Rightarrow> Manager \<Rightarrow> deferred list \<times> Manager" where
  "run_deferred d v m =
     (case d of
        DCloseVisitor \<Rightarrow> ([], log_close [HVisitor (v_conn v)] m)
      | DUntrack \<Rightarrow> ([], untrackVisitor (v_fwd v) (v_conn v) m)
      | DRelease \<Rightarrow>
          ([DGaugeDec], case m_states m (v_st v) of
                          None \<Rightarrow> m | Some st \<Rightarrow> upd_state (v_st v) (st\<lparr>ls_visitors := ls_visitors st - 1\<rparr>) m)
      | DGaugeDec \<Rightarrow> ([], m\<lparr>m_visitorConns := m_visitorConns m - 1\<rparr>)
      | DCloseChannel ch \<Rightarrow> ([], log_close [HChannel ch] m))"

text \<open>
  What the surroundings answer to a blocking call when the goroutine is scheduled.
  \<open>OpenChannel\<close> waits for the client (\<open>None\<close>), fails, or has its channel. Of the two copies one is
  scheduled (\<open>ve_in\<close>: the one from the visitor to the client); it is still waiting (\<open>None\<close>)
  or has ended after a number of bytes.
\<close>

record venv =
  ve_open :: "nat \<Rightarrow> forwardedTCPPayload \<Rightarrow> (string, nat) result option"
  ve_in :: bool
  ve_copy :: "int option"

definition add_in :: "int \<Rightarrow> leaseState \<Rightarrow> leaseState" where
  "add_in n st = st\<lparr>ls_bytesIn := wrap64 (ls_bytesIn st + n)\<rparr>"

definition add_out :: "int \<Rightarrow> leaseState \<Rightarrow> leaseState" where
  "add_out n st = st\<lparr>ls_bytesOut := wrap64 (ls_bytesOut st + n)\<rparr>"

text \<open>
  One turn of the goroutine; a turn in which a blocking call goes on waiting changes nothing. A copy
  that has ended is counted and closes the write side of its destination. A data port is a
  TCP listener, so the visitor's socket is a \<open>*net.TCPConn\<close>.
\<close>

definition handleVisitor_step :: "venv \<Rightarrow> visitor \<Rightarrow> forward \<Rightarrow> leaseState \<Rightarrow> Manager \<Rightarrow> visitor \<times> Manager" where
  "handleVisitor_step env v f st m =
     (case v_pc v of
        PCheck \<Rightarrow>
          if (f_allowlistSet f \<or> f_allowNets f \<noteq> [])
             \<and> (case visitorIP (v_addr v) of None \<Rightarrow> True | Some ip \<Rightarrow> \<not> allows f ip)
          then (v\<lparr>v_pc := PReturn\<rparr>, m) else (v\<lparr>v_pc := PTrack\<rparr>, m)
      | PTrack \<Rightarrow>
          (case trackVisitor (v_fwd v) (v_conn v) m of
             (False, m') \<Rightarrow> (v\<lparr>v_pc := PReturn\<rparr>, m')
           | (True, m') \<Rightarrow> (v\<lparr>v_pc := PLoad, v_defers := DUntrack # v_defers v\<rparr>, m'))
      | PLoad \<Rightarrow>
          if ls_visitors st \<ge> m_maxVisitors m then (v\<lparr>v_pc := PReturn\<rparr>, m)
          else (v\<lparr>v_pc := PCas (ls_visitors st)\<rparr>, m)
      | PCas cur \<Rightarrow>
          if ls_visitors st = cur then (v\<lparr>v_pc := PInc\<rparr>, upd_state (v_st v) (st\<lparr>ls_visitors := cur + 1\<rparr>) m)
          else (v\<lparr>v_pc := PLoad\<rparr>, m)
      | PInc \<Rightarrow>
          (v\<lparr>v_pc := POpen, v_defers := DRelease # v_defers v\<rparr>, m\<lparr>m_visitorConns := m_visitorConns m + 1\<rparr>)
      | POpen \<Rightarrow>
          (case ve_open env (ls_conn st) (visitor_payload f (v_addr v)) of
             None \<Rightarrow> (v, m)
           | Some (Inl e) \<Rightarrow> (v\<lparr>v_pc := PReturn\<rparr>, m)
           | Some (Inr ch) \<Rightarrow> (v\<lparr>v_pc := PSet ch, v_defers := DCloseChannel ch # v_defers v\<rparr>, m))
      | PSet ch \<Rightarrow>
          (case setVisitorChannel (v_fwd v) (v_conn v) ch m of
             (False, m') \<Rightarrow> (v\<lparr>v_pc := PReturn\<rparr>, m')
           | (True, m') \<Rightarrow> (v\<lparr>v_pc := PCopy ch False False\<rparr>, m'))
      | PCopy ch i out \<Rightarrow>
          (case ve_copy env of
             None \<Rightarrow> (v, m)
           | Some n \<Rightarrow>
               if ve_in env \<and> \<not> i then
                 (v\<lparr>v_pc := (if out then PReturn else PCopy ch True out)\<rparr>,
                  log_close [HChannelWrite ch]
                    ((upd_state (v_st v) (add_in n st) m)
                       \<lparr>m_bytesFwd := (fst (m_bytesFwd m) + n, snd (m_bytesFwd m))\<rparr>))
               else if \<not> ve_in env \<and> \<not> out then
                 (v\<lparr>v_pc := (if i then PReturn else PCopy ch i True)\<rparr>,
                  log_close [HVisitorWrite (v_conn v)]
                    ((upd_state (v_st v) (add_out n st) m)
                       \<lparr>m_bytesFwd := (fst (m_bytesFwd m), snd (m_bytesFwd m) + n)\<rparr>))
               else (v, m))
      | PReturn \<Rightarrow>
          (case v_defers v of
             [] \<Rightarrow> (v, m)
           | d # ds \<Rightarrow> (case run_deferred d v m of (again, m') \<Rightarrow> (v\<lparr>v_defers := again @ ds\<rparr>, m'))))"

definition visitor_step :: "venv \<Rightarrow> visitor \<Rightarrow> Manager \<Rightarrow> visitor \<times> Manager" where
  "visitor_step env v m =
     (case (m_forwards m (v_fwd v), m_states m (v_st v)) of
        (Some f, Some st) \<Rightarrow> handleVisitor_step env v f st m
      | _ \<Rightarrow> (v, m))"

section \<open>The allowlist\<close>

lemma parseCIDRs_list_ex:
  "list_ex (\<lambda>n. ipnet_Contains n ip) (parseCIDRs cs) \<longleftrightarrow>
   list_ex (\<lambda>c. case ParseCIDR c of None \<Rightarrow> False | Some n \<Rightarrow> ipnet_Contains n ip) cs"
  by (induction cs) (auto simp: parseCIDRs_def List.map_filter_def split: option.splits)

text \<open>Networks parsed once when the forward starts, and the CIDR strings of the lease: the same decision.\<close>

lemma allows_parsed:
  assumes "f_allowNets f = parseCIDRs (l_AllowlistCIDRs l)" "f_allowlistSet f = (l_AllowlistCIDRs l \<noteq> [])"
  shows "allows f ip = AllowsIP l ip"
proof (cases "f_allowNets f = []")
  case True
  then have "\<not> list_ex (\<lambda>n. ipnet_Contains n ip) (parseCIDRs (l_AllowlistCIDRs l))" using assms(1) by simp
  then have "\<not> list_ex (\<lambda>c. case ParseCIDR c of None \<Rightarrow> False | Some n \<Rightarrow> ipnet_Contains n ip) (l_AllowlistCIDRs l)"
    unfolding parseCIDRs_list_ex .
  with True assms(2) show ?thesis by (auto simp: allows_def AllowsIP_def)
next
  case False
  then have "l_AllowlistCIDRs l \<noteq> []" using assms(1) by (auto simp: parseCIDRs_def List.map_filter_def)
  with False assms(1) show ?thesis by (simp add: allows_def AllowsIP_def parseCIDRs_list_ex)
qed

text \<open>What a successful \<open>StartForward\<close> installs.\<close>

lemma StartForward_installs:
  assumes "StartForward get now listen conn i b p m = (Inr r, m')"
  obtains l sp st fp f where "get i = Some l" "\<not> Expired l now" "gm_get (m_leases m') i = Some sp"
    "m_states m' sp = Some st" "ls_forward st = Some fp" "m_forwards m' fp = Some f"
    "f_allowNets f = parseCIDRs (l_AllowlistCIDRs l)" "f_allowlistSet f = (l_AllowlistCIDRs l \<noteq> [])"
    "fst r = l_AllocatedPort l" "listen (l_AllocatedPort l) = Inr (f_listener f)"
  using assms unfolding StartForward_def lease_live_def
  by (auto simp: upd_state_def upd_forward_def Let_def split: option.splits if_splits sum.splits)

text \<open>
  (C37) The allowlist of a lease guards its port. The forward a successful \<open>StartForward\<close> installs
  admits exactly the addresses \<open>AllowsIP\<close> of the live lease admits, and the first step of every
  visitor of that forward goes on exactly when the lease has no allowlist, or the visitor's
  address is known and allowed. This also holds when some or all entries of the allowlist do not
  parse: then they admit nobody.
\<close>

theorem allows_refines_lease:
  assumes "StartForward get now listen conn i b p m = (Inr r, m')"
  shows "\<exists>l sp st fp f. get i = Some l \<and> \<not> Expired l now \<and> fst r = l_AllocatedPort l
    \<and> gm_get (m_leases m') i = Some sp \<and> m_states m' sp = Some st \<and> ls_forward st = Some fp \<and> m_forwards m' fp = Some f
    \<and> (\<forall>ip. allows f ip = AllowsIP l ip)
    \<and> (\<forall>env vc a. visitor_step env (new_visitor sp fp vc a) m' =
          ((new_visitor sp fp vc a)\<lparr>v_pc :=
              (if l_AllowlistCIDRs l = [] \<or> (\<exists>ip. visitorIP a = Some ip \<and> AllowsIP l ip) then PTrack else PReturn)\<rparr>, m'))"
proof -
  obtain l sp st fp f where f: "get i = Some l" "\<not> Expired l now" "gm_get (m_leases m') i = Some sp"
    "m_states m' sp = Some st" "ls_forward st = Some fp" "m_forwards m' fp = Some f"
    "f_allowNets f = parseCIDRs (l_AllowlistCIDRs l)" "f_allowlistSet f = (l_AllowlistCIDRs l \<noteq> [])"
    "fst r = l_AllocatedPort l"
    using assms by (rule StartForward_installs)
  have same: "allows f ip = AllowsIP l ip" for ip using f(7,8) by (rule allows_parsed)
  have "f_allowNets f \<noteq> [] \<Longrightarrow> l_AllowlistCIDRs l \<noteq> []" using f(7) by (auto simp: parseCIDRs_def List.map_filter_def)
  then have "visitor_step env (new_visitor sp fp vc a) m' =
          ((new_visitor sp fp vc a)\<lparr>v_pc :=
              (if l_AllowlistCIDRs l = [] \<or> (\<exists>ip. visitorIP a = Some ip \<and> AllowsIP l ip) then PTrack else PReturn)\<rparr>, m')"
    for env vc a
    using f(4,6,8) same by (auto simp: visitor_step_def handleVisitor_step_def new_visitor_def split: option.splits)
  with f same show ?thesis by blast
qed

text \<open>A lease whose only allowlist entry does not parse: its forward starts and admits nobody.\<close>

definition closed_lease :: Lease where
  "closed_lease = \<lparr>l_LeaseID = ''a'', l_Token = [], l_AllocatedPort = 10000, l_AllowlistCIDRs = [''x''],
     l_CreatedAt = 0, l_ExpiresAt = 10, l_Status = []\<rparr>"

theorem allows_refines_lease_witness:
  "case StartForward [''a'' \<mapsto> closed_lease] 1 (\<lambda>_. Inr 3) 7 ''a'' [] 0
          (snd (RegisterConn [''a'' \<mapsto> closed_lease] 1 7 ''a'' (NewManager 5))) of
     (Inl e, m') \<Rightarrow> False
   | (Inr r, m') \<Rightarrow> \<exists>sp fp. \<forall>env vc a.
       visitor_step env (new_visitor sp fp vc a) m' = ((new_visitor sp fp vc a)\<lparr>v_pc := PReturn\<rparr>, m')"
proof -
  let ?get = "[''a'' \<mapsto> closed_lease]"
  let ?m = "snd (RegisterConn ?get 1 7 ''a'' (NewManager 5))"
  obtain r m' where run: "StartForward ?get 1 (\<lambda>_. Inr 3) 7 ''a'' [] 0 ?m = (Inr r, m')"
    by (auto simp: StartForward_def RegisterConn_def RegisterConn_cs_def lease_live_def NewManager_def closed_lease_def
        Expired_def time_Before_def upd_state_def upd_forward_def run_tasks_def new_state_def Let_def)
  have "ParseCIDR ''x'' = None" by code_simp
  then have "\<not> AllowsIP closed_lease ip" for ip by (simp add: AllowsIP_def closed_lease_def)
  moreover have "l_AllowlistCIDRs closed_lease \<noteq> []" by (simp add: closed_lease_def)
  ultimately show ?thesis using allows_refines_lease [OF run] run by fastforce
qed

section \<open>Backoff\<close>

lemma next_backoff_range:
  assumes "0 \<le> b" "b = 0 \<or> 5 * Millisecond \<le> b"
  shows "5 * Millisecond \<le> next_backoff b \<and> next_backoff b \<le> Second"
  using assms by (auto simp: next_backoff_def Millisecond_def Second_def)

lemma accept_delays:
  "b = 0 \<or> 5 * Millisecond \<le> b \<and> b \<le> Second \<Longrightarrow> acceptVisitors b rs = (vs, ds) \<Longrightarrow>
   \<forall>d \<in> set ds. 5 * Millisecond \<le> d \<and> d \<le> Second"
proof (induction b rs arbitrary: vs ds rule: acceptVisitors.induct)
  case (3 b e rs)
  have nb: "5 * Millisecond \<le> next_backoff b \<and> next_backoff b \<le> Second"
    using 3(2) by (intro next_backoff_range) (auto simp: Millisecond_def)
  with 3 show ?case by (auto split: prod.splits)
next
  case (4 b vc a rs)
  then show ?case by (auto split: prod.splits)
qed auto

definition accepted_before_close :: "accept_result list \<Rightarrow> (nat \<times> netaddr) list" where
  "accepted_before_close rs =
     List.map_filter (\<lambda>r. case r of Accepted vc a \<Rightarrow> Some (vc, a) | _ \<Rightarrow> None) (takeWhile (\<lambda>r. r \<noteq> AcceptClosed) rs)"

lemma accept_all: "fst (acceptVisitors b rs) = accepted_before_close rs"
  by (induction b rs rule: acceptVisitors.induct)
    (auto simp: accepted_before_close_def List.map_filter_def split: prod.splits)

text \<open>
  The accept loop never spins and never stalls: after failures it sleeps between 5
  milliseconds and one second, and every connection accepted before the listener is closed is
  handed to a visitor goroutine, in order, whatever errors come in between.
\<close>

lemma accept_loop_correct:
  "fst (acceptVisitors 0 rs) = accepted_before_close rs \<and>
   list_all (\<lambda>d. 5 * Millisecond \<le> d \<and> d \<le> Second) (snd (acceptVisitors 0 rs))"
proof -
  obtain vs ds where run: "acceptVisitors 0 rs = (vs, ds)" by (cases "acceptVisitors 0 rs")
  show ?thesis using accept_all [of 0 rs] accept_delays [OF _ run] by (simp add: run list_all_iff)
qed

end
