(* ===== verification/Manager_Frame.thy ===== *)
theory Manager_Frame
  imports Visitors
begin

text \<open>
  What the manager's operations leave alone: visitor counters, open forwards, and the record of
  closed handles only ever grow or change in the ways stated here. The visitor invariants rest
  on these facts and not on the code of each operation.
\<close>

section \<open>The heap\<close>

definition heap_ok :: "Manager \<Rightarrow> bool" where
  "heap_ok m \<longleftrightarrow> (\<forall>p. m_brk m \<le> p \<longrightarrow> m_states m p = None \<and> m_forwards m p = None)"

text \<open>How a forward may change behind a visitor's back: not at all, or by being closed.\<close>

definition close_handles :: "forward \<Rightarrow> handle list" where
  "close_handles f = HListener (f_listener f) # concat (map visitor_handles (f_visitors f))"

definition closed_forward :: "forward \<Rightarrow> forward" where
  "closed_forward f = f\<lparr>f_closeOnce := True, f_closed := True, f_visitors := []\<rparr>"

definition evolves :: "handle set \<Rightarrow> forward \<Rightarrow> forward \<Rightarrow> bool" where
  "evolves C f f' \<longleftrightarrow> f' = f \<or> \<not> f_closeOnce f \<and> f' = closed_forward f \<and> set (close_handles f) \<subseteq> C"

definition mgr_frame :: "Manager \<Rightarrow> Manager \<Rightarrow> bool" where
  "mgr_frame m m' \<longleftrightarrow>
     m_maxVisitors m' = m_maxVisitors m \<and> m_visitorConns m' = m_visitorConns m
     \<and> set (m_closed m) \<subseteq> set (m_closed m')
     \<and> (\<forall>sp st. m_states m sp = Some st \<longrightarrow> (\<exists>st'. m_states m' sp = Some st' \<and> ls_visitors st' = ls_visitors st \<and> ls_conn st' = ls_conn st))
     \<and> (\<forall>sp st'. m_states m sp = None \<longrightarrow> m_states m' sp = Some st' \<longrightarrow> ls_visitors st' = 0)
     \<and> (\<forall>fp f. m_forwards m fp = Some f \<longrightarrow>
           (\<exists>f'. m_forwards m' fp = Some f' \<and> evolves (set (m_closed m')) f f'))
     \<and> (\<forall>fp f'. m_forwards m fp = None \<longrightarrow> m_forwards m' fp = Some f' \<longrightarrow>
           f_visitors f' = [] \<and> \<not> f_closed f' \<and> \<not> f_closeOnce f')"

lemma mgr_frame_refl [simp]: "mgr_frame m m"
  by (simp add: mgr_frame_def evolves_def)

section \<open>Selectors\<close>

lemma upd_sel [simp]:
  "m_states (upd_forward fp f m) = m_states m" "m_forwards (upd_forward fp f m) = (m_forwards m)(fp \<mapsto> f)"
  "m_leases (upd_forward fp f m) = m_leases m" "m_brk (upd_forward fp f m) = m_brk m"
  "m_closed (upd_forward fp f m) = m_closed m" "m_maxVisitors (upd_forward fp f m) = m_maxVisitors m"
  "m_visitorConns (upd_forward fp f m) = m_visitorConns m"
  "m_states (upd_state sp st m) = (m_states m)(sp \<mapsto> st)" "m_forwards (upd_state sp st m) = m_forwards m"
  "m_leases (upd_state sp st m) = m_leases m" "m_brk (upd_state sp st m) = m_brk m"
  "m_closed (upd_state sp st m) = m_closed m" "m_maxVisitors (upd_state sp st m) = m_maxVisitors m"
  "m_visitorConns (upd_state sp st m) = m_visitorConns m"
  "m_states (log_close hs m) = m_states m" "m_forwards (log_close hs m) = m_forwards m"
  "m_leases (log_close hs m) = m_leases m" "m_brk (log_close hs m) = m_brk m"
  "m_closed (log_close hs m) = m_closed m @ hs" "m_maxVisitors (log_close hs m) = m_maxVisitors m"
  "m_visitorConns (log_close hs m) = m_visitorConns m"
  by (simp_all add: upd_forward_def upd_state_def log_close_def)

lemma forward_close_eq:
  "forward_close fp m =
     (case m_forwards m fp of None \<Rightarrow> m
      | Some f \<Rightarrow> if f_closeOnce f then m else log_close (close_handles f) (upd_forward fp (closed_forward f) m))"
  by (simp add: forward_close_def close_handles_def closed_forward_def split: option.splits)

lemma heap_ok_fresh: "heap_ok m \<Longrightarrow> m_states m (m_brk m) = None" "heap_ok m \<Longrightarrow> m_forwards m (m_brk m) = None"
  by (simp_all add: heap_ok_def)

lemma heap_ok_below:
  "heap_ok m \<Longrightarrow> m_states m sp = Some st \<Longrightarrow> sp < m_brk m"
  "heap_ok m \<Longrightarrow> m_forwards m fp = Some f \<Longrightarrow> fp < m_brk m"
  unfolding heap_ok_def by (metis not_le option.distinct(1))+

section \<open>Each operation keeps the heap and the frame\<close>

definition frames :: "Manager \<Rightarrow> Manager \<Rightarrow> bool" where
  "frames m m' \<longleftrightarrow> heap_ok m' \<and> mgr_frame m m'"

lemma frames_close:
  assumes "heap_ok m"
  shows "frames m (forward_close fp m)"
proof (cases "m_forwards m fp")
  case None
  then show ?thesis using assms by (simp add: frames_def forward_close_eq)
next
  case (Some f)
  have "fp < m_brk m" by (rule heap_ok_below(2) [OF assms Some])
  then show ?thesis using assms Some
    by (auto simp: frames_def forward_close_eq heap_ok_def mgr_frame_def evolves_def)
qed

lemma frames_task:
  assumes "heap_ok m"
  shows "frames m (run_task t m)"
proof (cases t)
  case (CloseForwardOf sp)
  then show ?thesis
    using assms frames_close [OF assms] by (simp add: run_task_def frames_def split: option.splits)
next
  case (CloseForward fp)
  then show ?thesis using frames_close [OF assms] by (simp add: run_task_def)
next
  case (CloseConn c)
  then show ?thesis
    using assms by (auto simp: run_task_def frames_def heap_ok_def mgr_frame_def evolves_def)
qed

lemma frames_leases: "heap_ok m \<Longrightarrow> frames m (m\<lparr>m_leases := x\<rparr>)"
  by (simp add: frames_def heap_ok_def mgr_frame_def evolves_def)

lemma frames_register:
  assumes "heap_ok m" "RegisterConn_cs get now conn i m = ((ok, ts), m')"
  shows "frames m m'"
proof (cases "lease_live get now i")
  case None
  then show ?thesis using assms by (simp add: RegisterConn_cs_def frames_def)
next
  case (Some l)
  then have "m' = (upd_state (m_brk m) (new_state conn) m)
      \<lparr>m_leases := gm_put i (m_brk m) (m_leases m), m_brk := Suc (m_brk m)\<rparr>"
    using assms(2) by (auto simp: RegisterConn_cs_def Let_def split: option.splits)
  then show ?thesis
    using assms(1) heap_ok_fresh [OF assms(1)]
    by (auto simp: frames_def heap_ok_def mgr_frame_def evolves_def new_state_def)
qed

lemma StartForward_cases:
  obtains (refused) e where "StartForward get now listen conn i b p m = (Inl e, m)"
  | (started) l sp st ln f where "lease_live get now i = Some l" "gm_get (m_leases m) i = Some sp"
      "m_states m sp = Some st" "ls_conn st = conn" "ls_forward st = None" "listen (l_AllocatedPort l) = Inr ln"
      "f = \<lparr>f_listener = ln, f_connectedAddr = b,
            f_connectedPort = (if p = 0 then word_of_int (l_AllocatedPort l) else p),
            f_allowNets = parseCIDRs (l_AllowlistCIDRs l), f_allowlistSet = (l_AllowlistCIDRs l \<noteq> []),
            f_closeOnce = False, f_visitors = [], f_closed = False\<rparr>"
      "StartForward get now listen conn i b p m =
         (Inr (l_AllocatedPort l, f_connectedPort f),
          (upd_state sp (st\<lparr>ls_forward := Some (m_brk m)\<rparr>) (upd_forward (m_brk m) f m))\<lparr>m_brk := Suc (m_brk m)\<rparr>)"
proof (cases "\<exists>e. StartForward get now listen conn i b p m = (Inl e, m)")
  case True
  then show ?thesis using refused by blast
next
  case False
  have "\<exists>l sp st ln. lease_live get now i = Some l \<and> gm_get (m_leases m) i = Some sp \<and> m_states m sp = Some st
      \<and> ls_conn st = conn \<and> ls_forward st = None \<and> listen (l_AllocatedPort l) = Inr ln"
    using False by (auto simp: StartForward_def split: option.splits sum.splits if_splits)
  then obtain l sp st ln where "lease_live get now i = Some l" "gm_get (m_leases m) i = Some sp" "m_states m sp = Some st"
      "ls_conn st = conn" "ls_forward st = None" "listen (l_AllocatedPort l) = Inr ln" by blast
  note facts = this
  show ?thesis by (rule started [OF facts refl]) (cases "p = 0"; simp add: StartForward_def Let_def facts)
qed

lemma frames_start:
  assumes "heap_ok m" "StartForward get now listen conn i b p m = (r, m')"
  shows "frames m m'"
proof (cases rule: StartForward_cases [of get now listen conn i b p m])
  case (refused e)
  then show ?thesis using assms by (simp add: frames_def)
next
  case (started l sp st ln f)
  have sp: "sp < m_brk m" by (rule heap_ok_below(1) [OF assms(1) started(3)])
  have m': "m' = (upd_state sp (st\<lparr>ls_forward := Some (m_brk m)\<rparr>) (upd_forward (m_brk m) f m))\<lparr>m_brk := Suc (m_brk m)\<rparr>"
    using assms(2) started(8) by simp
  have f: "f_visitors f = [] \<and> \<not> f_closed f \<and> \<not> f_closeOnce f" by (simp add: started(7))
  have "heap_ok m'" using assms(1) sp by (auto simp: m' heap_ok_def)
  moreover have "mgr_frame m m'"
    using assms(1) heap_ok_fresh [OF assms(1)] started(3) f
    by (auto simp: m' mgr_frame_def evolves_def)
  ultimately show ?thesis by (simp add: frames_def)
qed

lemma frames_teardown: "heap_ok m \<Longrightarrow> Teardown_cs i m = (ts, m') \<Longrightarrow> frames m m'"
  using frames_leases by (auto simp: Teardown_cs_def Let_def split: option.splits)

lemma frames_onclose: "heap_ok m \<Longrightarrow> OnConnClosed_cs i c m = (ts, m') \<Longrightarrow> frames m m'"
  using frames_leases by (auto simp: OnConnClosed_cs_def frames_def split: option.splits if_splits)

lemma frames_cancel:
  assumes "heap_ok m" "CancelForward_cs i c m = (ts, m')"
  shows "frames m m'"
proof (cases "m' = m")
  case True
  then show ?thesis using assms(1) by (simp add: frames_def)
next
  case False
  with assms(2) obtain sp st where "m_states m sp = Some st" "m' = upd_state sp (st\<lparr>ls_forward := None\<rparr>) m"
    by (auto simp: CancelForward_cs_def split: option.splits if_splits)
  then show ?thesis using assms(1) heap_ok_below(1) [OF assms(1)]
    by (auto simp: frames_def heap_ok_def mgr_frame_def evolves_def)
qed

lemma OnConnClosed_cases:
  obtains (nothing) "OnConnClosed_cs i c m = ([], m)"
  | (removed) sp st where "gm_get (m_leases m) i = Some sp" "m_states m sp = Some st" "ls_conn st = c"
      "OnConnClosed_cs i c m = ([CloseForwardOf sp], m\<lparr>m_leases := gm_del i (m_leases m)\<rparr>)"
proof (cases "\<exists>sp st. gm_get (m_leases m) i = Some sp \<and> m_states m sp = Some st \<and> ls_conn st = c")
  case True
  then obtain sp st where "gm_get (m_leases m) i = Some sp" "m_states m sp = Some st" "ls_conn st = c" by blast
  then show ?thesis by (intro removed) (simp_all add: OnConnClosed_cs_def)
next
  case False
  then have "OnConnClosed_cs i c m = ([], m)" by (simp add: OnConnClosed_cs_def split: option.splits)
  then show ?thesis by (rule nothing)
qed

lemma CancelForward_cases:
  obtains (nothing) "CancelForward_cs i c m = ([], m)"
  | (cancelled) sp st fp where "gm_get (m_leases m) i = Some sp" "m_states m sp = Some st" "ls_forward st = Some fp"
      "ls_conn st = c" "CancelForward_cs i c m = ([CloseForward fp], upd_state sp (st\<lparr>ls_forward := None\<rparr>) m)"
proof (cases "\<exists>sp st fp. gm_get (m_leases m) i = Some sp \<and> m_states m sp = Some st \<and> ls_forward st = Some fp \<and> ls_conn st = c")
  case True
  then obtain sp st fp where "gm_get (m_leases m) i = Some sp" "m_states m sp = Some st" "ls_forward st = Some fp" "ls_conn st = c"
    by blast
  then show ?thesis by (intro cancelled) (simp_all add: CancelForward_cs_def)
next
  case False
  then have "CancelForward_cs i c m = ([], m)" by (auto simp: CancelForward_cs_def split: option.splits)
  then show ?thesis by (rule nothing)
qed

lemma heap_ok_new: "heap_ok (NewManager n)"
  by (simp add: heap_ok_def NewManager_def)

lemmas frames_ops = frames_register frames_start frames_teardown frames_onclose frames_cancel

end
