(* ===== verification/Visitor_Invariant.thy ===== *)
theory Visitor_Invariant
  imports Manager_Frame
begin

text \<open>
  The manager, its visitor goroutines and the tasks operations leave behind, interleaved in any
  order. The invariant ties the visitor counter of a lease state to the goroutines that hold a
  slot, the gauge to those that have counted themselves, and the visitor map of an open forward
  to the sockets and channels a teardown has to close.
\<close>

section \<open>Interleaved steps\<close>

record sys =
  sy_m :: Manager
  sy_vs :: "visitor list"
  sy_todo :: "task list"

text \<open>\<open>get\<close> is what the lease store answers at the time of the step; \<open>hangup\<close>: a connection is about to be closed.\<close>

inductive sys_step :: "(string \<Rightarrow> Lease option) \<Rightarrow> sys \<Rightarrow> sys \<Rightarrow> bool" for get where
  register: "RegisterConn_cs get now conn i (sy_m s) = ((ok, ts), m') \<Longrightarrow>
     sys_step get s (s\<lparr>sy_m := m', sy_todo := sy_todo s @ ts\<rparr>)"
| start: "StartForward get now listen conn i b p (sy_m s) = (r, m') \<Longrightarrow> sys_step get s (s\<lparr>sy_m := m'\<rparr>)"
| teardown: "Teardown_cs i (sy_m s) = (ts, m') \<Longrightarrow> sys_step get s (s\<lparr>sy_m := m', sy_todo := sy_todo s @ ts\<rparr>)"
| cancel: "CancelForward_cs i c (sy_m s) = (ts, m') \<Longrightarrow> sys_step get s (s\<lparr>sy_m := m', sy_todo := sy_todo s @ ts\<rparr>)"
| onclose: "OnConnClosed_cs i c (sy_m s) = (ts, m') \<Longrightarrow> sys_step get s (s\<lparr>sy_m := m', sy_todo := sy_todo s @ ts\<rparr>)"
| tail: "k < length (sy_todo s) \<Longrightarrow>
     sys_step get s (s\<lparr>sy_m := run_task (sy_todo s ! k) (sy_m s), sy_todo := take k (sy_todo s) @ drop (Suc k) (sy_todo s)\<rparr>)"
| hangup: "sys_step get s (s\<lparr>sy_todo := sy_todo s @ [CloseConn c]\<rparr>)"
| spawn: "m_states (sy_m s) sp \<noteq> None \<Longrightarrow> m_forwards (sy_m s) fp \<noteq> None \<Longrightarrow> vc \<notin> v_conn ` set (sy_vs s) \<Longrightarrow>
     sys_step get s (s\<lparr>sy_vs := sy_vs s @ [new_visitor sp fp vc a]\<rparr>)"
| visit: "k < length (sy_vs s) \<Longrightarrow> visitor_step env (sy_vs s ! k) (sy_m s) = (v', m') \<Longrightarrow>
     sys_step get s (s\<lparr>sy_m := m', sy_vs := (sy_vs s)[k := v']\<rparr>)"

inductive_cases sys_step_cases: "sys_step get s s'"

definition sys_init :: "int \<Rightarrow> sys" where
  "sys_init maxVisitors = \<lparr>sy_m = NewManager maxVisitors, sy_vs = [], sy_todo = []\<rparr>"

inductive sys_reach :: "int \<Rightarrow> sys \<Rightarrow> bool" for maxVisitors where
  init: "sys_reach maxVisitors (sys_init maxVisitors)"
| step: "sys_reach maxVisitors s \<Longrightarrow> sys_step get s s' \<Longrightarrow> sys_reach maxVisitors s'"

section \<open>The goroutine by itself\<close>

text \<open>The deferred calls that can be pending at each program point.\<close>

definition base_defers :: "deferred list" where "base_defers = [DUntrack, DCloseVisitor]"

definition defers_at :: "visitor \<Rightarrow> bool" where
  "defers_at v =
     (case v_pc v of
        PCheck \<Rightarrow> v_defers v = [DCloseVisitor]
      | PTrack \<Rightarrow> v_defers v = [DCloseVisitor]
      | PLoad \<Rightarrow> v_defers v = base_defers
      | PCas _ \<Rightarrow> v_defers v = base_defers
      | PInc \<Rightarrow> v_defers v = base_defers
      | POpen \<Rightarrow> v_defers v = DRelease # base_defers
      | PSet ch \<Rightarrow> v_defers v = DCloseChannel ch # DRelease # base_defers
      | PCopy ch _ _ \<Rightarrow> v_defers v = DCloseChannel ch # DRelease # base_defers
      | PReturn \<Rightarrow> (\<exists>ch. v_defers v = DCloseChannel ch # DRelease # base_defers)
          \<or> v_defers v = DRelease # base_defers \<or> v_defers v = DGaugeDec # base_defers
          \<or> v_defers v = base_defers \<or> v_defers v = [DCloseVisitor] \<or> v_defers v = [])"

definition holds_slot :: "visitor \<Rightarrow> bool" where
  "holds_slot v \<longleftrightarrow> v_pc v = PInc \<or> DRelease \<in> set (v_defers v)"

definition in_gauge :: "visitor \<Rightarrow> bool" where
  "in_gauge v \<longleftrightarrow> DRelease \<in> set (v_defers v) \<or> DGaugeDec \<in> set (v_defers v)"

definition tracked :: "visitor \<Rightarrow> bool" where
  "tracked v \<longleftrightarrow> DUntrack \<in> set (v_defers v)"

lemma step_identity:
  assumes "visitor_step env v m = (v', m')"
  shows "v_st v' = v_st v" "v_fwd v' = v_fwd v" "v_conn v' = v_conn v"
  using assms
  by (auto simp: visitor_step_def handleVisitor_step_def split: option.splits prod.splits vpc.splits if_splits
      sum.splits list.splits bool.splits)

lemma step_defers:
  assumes "defers_at v" "visitor_step env v m = (v', m')"
  shows "defers_at v'"
proof (cases "v_pc v")
  case PReturn
  then show ?thesis using assms
    by (auto simp: defers_at_def base_defers_def visitor_step_def handleVisitor_step_def run_deferred_def
        split: option.splits prod.splits list.splits)
qed (use assms in \<open>auto simp: defers_at_def base_defers_def visitor_step_def handleVisitor_step_def
        split: option.splits prod.splits if_splits sum.splits bool.splits\<close>)

lemmas vstep_defs =
  visitor_step_def handleVisitor_step_def trackVisitor_def setVisitorChannel_def untrackVisitor_def run_deferred_def
  defers_at_def base_defers_def add_in_def add_out_def

lemma step_frame:
  assumes "defers_at v" "visitor_step env v m = (v', m')" "m_forwards m (v_fwd v) = Some f" "m_states m (v_st v) = Some st"
  shows "m_maxVisitors m' = m_maxVisitors m \<and> m_brk m' = m_brk m \<and> set (m_closed m) \<subseteq> set (m_closed m')"
  using assms by (cases "v_pc v") (auto simp: vstep_defs split: if_splits sum.splits option.splits)

lemma step_gauge:
  assumes "defers_at v" "visitor_step env v m = (v', m')" "m_forwards m (v_fwd v) = Some f" "m_states m (v_st v) = Some st"
  shows "m_visitorConns m' = m_visitorConns m + of_bool (in_gauge v') - of_bool (in_gauge v)"
  using assms by (cases "v_pc v") (auto simp: vstep_defs in_gauge_def split: if_splits sum.splits option.splits)

lemma step_other_states:
  assumes "defers_at v" "visitor_step env v m = (v', m')" "m_forwards m (v_fwd v) = Some f" "m_states m (v_st v) = Some st"
    "sp \<noteq> v_st v"
  shows "m_states m' sp = m_states m sp"
  using assms by (cases "v_pc v") (auto simp: vstep_defs split: if_splits sum.splits option.splits)

lemma step_slot:
  assumes "defers_at v" "visitor_step env v m = (v', m')" "m_forwards m (v_fwd v) = Some f" "m_states m (v_st v) = Some st"
  shows "\<exists>st'. m_states m' (v_st v) = Some st'
    \<and> ls_visitors st' = ls_visitors st + of_bool (holds_slot v') - of_bool (holds_slot v)"
  using assms by (cases "v_pc v") (auto simp: vstep_defs holds_slot_def split: if_splits sum.splits option.splits)

section \<open>Forwards and their visitors\<close>

definition fwd_ok :: "handle set \<Rightarrow> forward \<Rightarrow> bool" where
  "fwd_ok C f \<longleftrightarrow> gm_wf (f_visitors f) \<and> f_closed f = f_closeOnce f
     \<and> (f_closed f \<longrightarrow> f_visitors f = [] \<and> HListener (f_listener f) \<in> C)"

text \<open>A tracked visitor is in the map of its forward, with its channel; once closed, both are.\<close>

definition track_ok :: "handle set \<Rightarrow> forward \<Rightarrow> visitor \<Rightarrow> bool" where
  "track_ok C f v \<longleftrightarrow>
     (tracked v \<longrightarrow>
        (if f_closed f
         then HVisitor (v_conn v) \<in> C \<and> (case v_pc v of PCopy ch _ _ \<Rightarrow> HChannel ch \<in> C | _ \<Rightarrow> True)
         else (case v_pc v of PCopy ch _ _ \<Rightarrow> gm_get (f_visitors f) (v_conn v) = Some (Some ch)
                 | _ \<Rightarrow> gm_get (f_visitors f) (v_conn v) \<noteq> None)))"

lemma fwd_ok_mono: "fwd_ok C f \<Longrightarrow> C \<subseteq> D \<Longrightarrow> fwd_ok D f"
  by (auto simp: fwd_ok_def)

lemma track_ok_mono: "track_ok C f v \<Longrightarrow> C \<subseteq> D \<Longrightarrow> track_ok D f v"
  by (auto simp: track_ok_def split: vpc.splits if_splits)

lemma close_covers:
  assumes "gm_get (f_visitors f) vc = Some oc"
  shows "HVisitor vc \<in> set (close_handles f)" "oc = Some ch \<Longrightarrow> HChannel ch \<in> set (close_handles f)"
proof -
  have "(vc, oc) \<in> set (f_visitors f)" using assms by (rule map_of_SomeD)
  then have "set (visitor_handles (vc, oc)) \<subseteq> set (close_handles f)" by (force simp: close_handles_def)
  then show "HVisitor vc \<in> set (close_handles f)" "oc = Some ch \<Longrightarrow> HChannel ch \<in> set (close_handles f)"
    by (auto simp: visitor_handles_def)
qed

lemma evolves_ok:
  assumes "evolves D f f'" "fwd_ok C f" "C \<subseteq> D"
  shows "fwd_ok D f'"
  using assms by (auto simp: evolves_def fwd_ok_def closed_forward_def close_handles_def)

lemma evolves_track:
  assumes "evolves D f f'" "fwd_ok C f" "track_ok C f v" "C \<subseteq> D"
  shows "track_ok D f' v"
proof (cases "f' = f")
  case True
  then show ?thesis using assms track_ok_mono by blast
next
  case False
  with assms(1) have f': "\<not> f_closeOnce f" "f' = closed_forward f" "set (close_handles f) \<subseteq> D" by (auto simp: evolves_def)
  have op: "\<not> f_closed f" using assms(2) f'(1) by (simp add: fwd_ok_def)
  show ?thesis
    using assms(3) op f'(2,3) close_covers [of f "v_conn v"]
    by (auto simp: track_ok_def closed_forward_def split: vpc.splits)
qed

lemma step_other_forwards:
  assumes "defers_at v" "visitor_step env v m = (v', m')" "m_forwards m (v_fwd v) = Some f" "m_states m (v_st v) = Some st"
    "fp \<noteq> v_fwd v"
  shows "m_forwards m' fp = m_forwards m fp"
  using assms by (cases "v_pc v") (auto simp: vstep_defs split: if_splits sum.splits option.splits)

text \<open>A visitor touches only its own entry of the map, and only while the forward is open.\<close>

definition own_entry :: "nat \<Rightarrow> forward \<Rightarrow> forward \<Rightarrow> bool" where
  "own_entry vc f f' \<longleftrightarrow> (\<exists>vs. f' = f\<lparr>f_visitors := vs\<rparr> \<and> (gm_wf (f_visitors f) \<longrightarrow> gm_wf vs)
     \<and> (\<forall>k. k \<noteq> vc \<longrightarrow> gm_get vs k = gm_get (f_visitors f) k) \<and> (f_closed f \<longrightarrow> f_visitors f = [] \<longrightarrow> vs = []))"

lemma own_entry_same [simp]: "own_entry vc f f"
  unfolding own_entry_def by (intro exI [of _ "f_visitors f"]) simp

lemma own_entry_put [simp]: "\<not> f_closed f \<Longrightarrow> own_entry vc f (f\<lparr>f_visitors := gm_put vc x (f_visitors f)\<rparr>)"
  unfolding own_entry_def by (intro exI [of _ "gm_put vc x (f_visitors f)"]) (simp add: gomap_simps)

lemma own_entry_del [simp]: "own_entry vc f (f\<lparr>f_visitors := gm_del vc (f_visitors f)\<rparr>)"
  unfolding own_entry_def by (intro exI [of _ "gm_del vc (f_visitors f)"]) (simp add: gomap_simps)

lemma step_forward:
  assumes "defers_at v" "visitor_step env v m = (v', m')" "m_forwards m (v_fwd v) = Some f" "m_states m (v_st v) = Some st"
  shows "\<exists>f'. m_forwards m' (v_fwd v) = Some f' \<and> own_entry (v_conn v) f f'"
  using assms by (cases "v_pc v") (auto simp: vstep_defs split: if_splits sum.splits option.splits)

lemma own_entry_ok: "own_entry vc f f' \<Longrightarrow> fwd_ok C f \<Longrightarrow> fwd_ok C f'"
  by (auto simp: own_entry_def fwd_ok_def)

lemma own_entry_track: "own_entry vc f f' \<Longrightarrow> track_ok C f w \<Longrightarrow> v_conn w \<noteq> vc \<Longrightarrow> track_ok C f' w"
  by (auto simp: own_entry_def track_ok_def split: vpc.splits)

lemma step_track:
  assumes "defers_at v" "visitor_step env v m = (v', m')" "m_forwards m (v_fwd v) = Some f" "m_states m (v_st v) = Some st"
    "track_ok (set (m_closed m)) f v" "m_forwards m' (v_fwd v) = Some f'"
  shows "track_ok (set (m_closed m')) f' v'"
  using assms
  by (cases "v_pc v")
    (auto simp: vstep_defs track_ok_def tracked_def gomap_simps split: if_splits sum.splits option.splits)

lemma step_cas:
  assumes "visitor_step env v m = (v', m')" "v_pc v' = PCas cur" "\<And>c. v_pc v = PCas c \<Longrightarrow> c < m_maxVisitors m"
  shows "cur < m_maxVisitors m"
  using assms
  by (cases "v_pc v")
    (auto simp: visitor_step_def handleVisitor_step_def split: option.splits prod.splits if_splits sum.splits bool.splits list.splits)

lemma step_acquire:
  assumes "defers_at v" "visitor_step env v m = (v', m')" "m_forwards m (v_fwd v) = Some f" "m_states m (v_st v) = Some st"
    "holds_slot v'" "\<not> holds_slot v"
  shows "v_pc v = PCas (ls_visitors st)"
  using assms by (cases "v_pc v") (auto simp: vstep_defs holds_slot_def split: if_splits sum.splits option.splits)

section \<open>The invariant of the system\<close>

definition slots :: "nat \<Rightarrow> visitor list \<Rightarrow> int" where
  "slots sp vs = int (length (filter (\<lambda>v. v_st v = sp \<and> holds_slot v) vs))"

definition gauged :: "visitor list \<Rightarrow> int" where
  "gauged vs = int (length (filter in_gauge vs))"

definition visitor_ok :: "Manager \<Rightarrow> visitor \<Rightarrow> bool" where
  "visitor_ok m v \<longleftrightarrow> defers_at v \<and> m_states m (v_st v) \<noteq> None
     \<and> (case v_pc v of PCas cur \<Rightarrow> cur < m_maxVisitors m | _ \<Rightarrow> True)
     \<and> (case m_forwards m (v_fwd v) of None \<Rightarrow> False | Some f \<Rightarrow> track_ok (set (m_closed m)) f v)"

definition vis_inv :: "sys \<Rightarrow> bool" where
  "vis_inv s \<longleftrightarrow> heap_ok (sy_m s)
     \<and> (\<forall>fp f. m_forwards (sy_m s) fp = Some f \<longrightarrow> fwd_ok (set (m_closed (sy_m s))) f)
     \<and> distinct (map v_conn (sy_vs s)) \<and> (\<forall>v \<in> set (sy_vs s). visitor_ok (sy_m s) v)
     \<and> (\<forall>sp st. m_states (sy_m s) sp = Some st \<longrightarrow>
           ls_visitors st = slots sp (sy_vs s) \<and> ls_visitors st \<le> max 0 (m_maxVisitors (sy_m s)))
     \<and> m_visitorConns (sy_m s) = gauged (sy_vs s)"

lemma visitor_ok_frame:
  assumes "mgr_frame m m'" "visitor_ok m v" "\<And>fp f. m_forwards m fp = Some f \<Longrightarrow> fwd_ok (set (m_closed m)) f"
  shows "visitor_ok m' v"
proof -
  from assms(2) obtain f st where f: "m_forwards m (v_fwd v) = Some f" "track_ok (set (m_closed m)) f v"
    and st: "m_states m (v_st v) = Some st" by (auto simp: visitor_ok_def split: option.splits)
  from assms(1) f(1) obtain f' where f': "m_forwards m' (v_fwd v) = Some f'" "evolves (set (m_closed m')) f f'"
    and sub: "set (m_closed m) \<subseteq> set (m_closed m')" unfolding mgr_frame_def by blast
  from assms(1) st have "m_states m' (v_st v) \<noteq> None" unfolding mgr_frame_def by fastforce
  moreover have "track_ok (set (m_closed m')) f' v"
    using evolves_track [OF f'(2) assms(3) [OF f(1)] f(2) sub] .
  ultimately show ?thesis using assms(1,2) f'(1) by (simp add: visitor_ok_def mgr_frame_def split: vpc.splits)
qed

lemma fwd_ok_frame:
  assumes "mgr_frame m m'" "\<And>fp f. m_forwards m fp = Some f \<Longrightarrow> fwd_ok (set (m_closed m)) f" "m_forwards m' fp = Some f'"
  shows "fwd_ok (set (m_closed m')) f'"
proof (cases "m_forwards m fp")
  case None
  with assms(1,3) have "f_visitors f' = [] \<and> \<not> f_closed f' \<and> \<not> f_closeOnce f'" unfolding mgr_frame_def by blast
  then show ?thesis by (simp add: fwd_ok_def)
next
  case (Some f)
  with assms(1,3) have "evolves (set (m_closed m')) f f'" "set (m_closed m) \<subseteq> set (m_closed m')"
    unfolding mgr_frame_def by (metis option.inject)+
  then show ?thesis using evolves_ok assms(2) [OF Some] by blast
qed

lemma slots_zero: "(\<And>v. v \<in> set vs \<Longrightarrow> v_st v \<noteq> sp) \<Longrightarrow> slots sp vs = 0"
  by (simp add: slots_def filter_empty_conv)

lemma vis_invI:
  assumes "heap_ok (sy_m s)" "\<And>fp f. m_forwards (sy_m s) fp = Some f \<Longrightarrow> fwd_ok (set (m_closed (sy_m s))) f"
    "distinct (map v_conn (sy_vs s))" "\<And>v. v \<in> set (sy_vs s) \<Longrightarrow> visitor_ok (sy_m s) v"
    "\<And>sp st. m_states (sy_m s) sp = Some st \<Longrightarrow>
       ls_visitors st = slots sp (sy_vs s) \<and> ls_visitors st \<le> max 0 (m_maxVisitors (sy_m s))"
    "m_visitorConns (sy_m s) = gauged (sy_vs s)"
  shows "vis_inv s"
  using assms unfolding vis_inv_def by blast

lemma vis_inv_cnt:
  "vis_inv s \<Longrightarrow> m_states (sy_m s) sp = Some st \<Longrightarrow>
   ls_visitors st = slots sp (sy_vs s) \<and> ls_visitors st \<le> max 0 (m_maxVisitors (sy_m s))"
  unfolding vis_inv_def by blast

lemma vis_inv_frame:
  assumes "vis_inv s" "frames (sy_m s) m'" "sy_m s' = m'" "sy_vs s' = sy_vs s"
  shows "vis_inv s'"
proof -
  let ?m = "sy_m s"
  have fr: "mgr_frame ?m m'" "heap_ok m'" using assms(2) by (simp_all add: frames_def)
  have fw: "m_forwards ?m fp = Some f \<Longrightarrow> fwd_ok (set (m_closed ?m)) f" for fp f
    using assms(1) by (simp add: vis_inv_def)
  have cnt: "ls_visitors st' = slots sp (sy_vs s) \<and> ls_visitors st' \<le> max 0 (m_maxVisitors m')"
    if st': "m_states m' sp = Some st'" for sp st'
  proof (cases "m_states ?m sp")
    case None
    then have "ls_visitors st' = 0" using fr(1) st' unfolding mgr_frame_def by blast
    moreover have "slots sp (sy_vs s) = 0"
      using assms(1) None by (intro slots_zero) (auto simp: vis_inv_def visitor_ok_def)
    ultimately show ?thesis by simp
  next
    case (Some st)
    then have "ls_visitors st' = ls_visitors st" "m_maxVisitors m' = m_maxVisitors ?m"
      using fr(1) st' unfolding mgr_frame_def by (metis option.inject)+
    then show ?thesis using vis_inv_cnt [OF assms(1) Some] by simp
  qed
  have vs: "visitor_ok m' v" if "v \<in> set (sy_vs s)" for v
    using visitor_ok_frame [OF fr(1) _ fw] assms(1) that by (simp add: vis_inv_def)
  have "m_visitorConns m' = m_visitorConns ?m" using fr(1) by (simp add: mgr_frame_def)
  then have "m_visitorConns m' = gauged (sy_vs s)" "distinct (map v_conn (sy_vs s))"
    using assms(1) by (simp_all add: vis_inv_def)
  note gd = this
  have fw': "fwd_ok (set (m_closed m')) f" if "m_forwards m' fp = Some f" for fp f
    using fwd_ok_frame [OF fr(1) _ that] fw by blast
  show ?thesis
    by (rule vis_invI; unfold assms(3,4))
      (rule fr(2), erule fw', rule gd(2), erule vs, erule cnt, rule gd(1))
qed

lemma count_update:
  "k < length vs \<Longrightarrow> int (length (filter P (vs[k := v']))) = int (length (filter P vs)) + of_bool (P v') - of_bool (P (vs ! k))"
proof (induction vs arbitrary: k)
  case Nil
  then show ?case by simp
next
  case (Cons a vs)
  then show ?case by (cases k) auto
qed

lemma vis_inv_visit:
  assumes inv: "vis_inv s" and k: "k < length (sy_vs s)" and step: "visitor_step env (sy_vs s ! k) (sy_m s) = (v', m')"
  shows "vis_inv (s\<lparr>sy_m := m', sy_vs := (sy_vs s)[k := v']\<rparr>)"
proof -
  let ?m = "sy_m s" and ?v = "sy_vs s ! k" and ?vs = "(sy_vs s)[k := v']"
  have vok: "visitor_ok ?m ?v" using inv k by (simp add: vis_inv_def)
  then obtain f st where f: "m_forwards ?m (v_fwd ?v) = Some f" "track_ok (set (m_closed ?m)) f ?v"
    and st: "m_states ?m (v_st ?v) = Some st" and df: "defers_at ?v"
    by (auto simp: visitor_ok_def split: option.splits)
  note a = df step f(1) st
  note fr = step_frame [OF a] and id = step_identity [OF step]
  from step_forward [OF a] obtain f' where f': "m_forwards m' (v_fwd ?v) = Some f'" "own_entry (v_conn ?v) f f'" by blast
  from step_slot [OF a] obtain st' where st': "m_states m' (v_st ?v) = Some st'"
    "ls_visitors st' = ls_visitors st + of_bool (holds_slot v') - of_bool (holds_slot ?v)" by blast
  have sub: "set (m_closed ?m) \<subseteq> set (m_closed m')" using fr by simp
  have fw: "m_forwards ?m fp = Some g \<Longrightarrow> fwd_ok (set (m_closed ?m)) g" for fp g
    using inv by (simp add: vis_inv_def)
  have fw': "fwd_ok (set (m_closed m')) g" if "m_forwards m' fp = Some g" for fp g
  proof (cases "fp = v_fwd ?v")
    case True
    then show ?thesis using that f' own_entry_ok fwd_ok_mono [OF fw [OF f(1)] sub] by simp
  next
    case False
    then show ?thesis using that step_other_forwards [OF a False] fwd_ok_mono [OF fw sub] by simp
  qed
  have dom: "m_states m' sp \<noteq> None" if "m_states ?m sp \<noteq> None" for sp
    using that step_other_states [OF a, of sp] st'(1) by (cases "sp = v_st ?v") simp_all
  have "map v_conn ?vs = (map v_conn (sy_vs s))[k := map v_conn (sy_vs s) ! k]"
    using id(3) k by (simp add: map_update)
  then have dist: "distinct (map v_conn ?vs)" using inv by (simp add: vis_inv_def)
  have other: "visitor_ok m' w" if w: "w \<in> set ?vs" for w
  proof -
    from w k consider "w = v'" | j where "j < length (sy_vs s)" "j \<noteq> k" "w = sy_vs s ! j"
      by (metis in_set_conv_nth length_list_update nth_list_update_eq nth_list_update_neq)
    then show ?thesis
    proof cases
      case 1
      have "track_ok (set (m_closed m')) f' v'" by (rule step_track [OF a f(2) f'(1)])
      moreover have "\<And>c. v_pc ?v = PCas c \<Longrightarrow> c < m_maxVisitors ?m" using vok by (simp add: visitor_ok_def)
      then have "\<And>cur. v_pc v' = PCas cur \<Longrightarrow> cur < m_maxVisitors ?m" using step_cas [OF step] by blast
      ultimately show ?thesis
        using 1 step_defers [OF df step] id st'(1) f'(1) fr by (simp add: visitor_ok_def split: vpc.splits)
    next
      case (2 j)
      have ok: "visitor_ok ?m w" using inv 2 by (simp add: vis_inv_def)
      then obtain g where g: "m_forwards ?m (v_fwd w) = Some g" "track_ok (set (m_closed ?m)) g w"
        by (auto simp: visitor_ok_def split: option.splits)
      have ne: "v_conn w \<noteq> v_conn ?v"
        using inv 2 k by (simp add: vis_inv_def distinct_conv_nth)
      have "\<exists>g'. m_forwards m' (v_fwd w) = Some g' \<and> track_ok (set (m_closed m')) g' w"
      proof (cases "v_fwd w = v_fwd ?v")
        case True
        then show ?thesis using g f(1) f' own_entry_track [OF f'(2) _ ne] track_ok_mono [OF _ sub] by auto
      next
        case False
        then show ?thesis using g step_other_forwards [OF a False] track_ok_mono [OF g(2) sub] by simp
      qed
      then show ?thesis using ok dom fr by (auto simp: visitor_ok_def split: vpc.splits)
    qed
  qed
  have cnt: "ls_visitors u = slots sp ?vs \<and> ls_visitors u \<le> max 0 (m_maxVisitors m')" if u: "m_states m' sp = Some u" for sp u
  proof (cases "sp = v_st ?v")
    case True
    have base: "ls_visitors st = slots sp (sy_vs s)" "ls_visitors st \<le> max 0 (m_maxVisitors ?m)"
      using vis_inv_cnt [OF inv st] True by simp_all
    have "slots sp ?vs = slots sp (sy_vs s) + of_bool (holds_slot v') - of_bool (holds_slot ?v)"
      unfolding slots_def count_update [OF k] using True id(1) by simp
    moreover have "u = st'" using u st'(1) True by simp
    moreover have "ls_visitors st < m_maxVisitors ?m" if "holds_slot v'" "\<not> holds_slot ?v"
      using step_acquire [OF a that] vok by (simp add: visitor_ok_def)
    ultimately show ?thesis using base st'(2) fr by (auto split: if_splits)
  next
    case False
    then have "m_states ?m sp = Some u" using step_other_states [OF a False] u by simp
    note base = vis_inv_cnt [OF inv this]
    have "slots sp ?vs = slots sp (sy_vs s)"
      unfolding slots_def count_update [OF k] using False id(1) by simp
    then show ?thesis using base fr by simp
  qed
  have "m_visitorConns m' = gauged ?vs"
    using step_gauge [OF a] inv unfolding gauged_def count_update [OF k] by (simp add: vis_inv_def gauged_def)
  moreover have "heap_ok m'"
  proof -
    have hp: "heap_ok ?m" using inv by (simp add: vis_inv_def)
    note below = heap_ok_below(1) [OF hp st] heap_ok_below(2) [OF hp f(1)]
    show ?thesis
      unfolding heap_ok_def
    proof (intro allI impI)
      fix p assume p: "m_brk m' \<le> p"
      then have "p \<noteq> v_st ?v" "p \<noteq> v_fwd ?v" "m_brk ?m \<le> p" using below fr by auto
      then show "m_states m' p = None \<and> m_forwards m' p = None"
        using step_other_states [OF a] step_other_forwards [OF a] hp by (simp add: heap_ok_def)
    qed
  qed
  ultimately have gh: "m_visitorConns m' = gauged ?vs" "heap_ok m'" .
  show ?thesis
    by (rule vis_invI; simp) (rule gh(2), erule fw', rule dist, erule other, erule cnt, rule gh(1))
qed

lemma vis_inv_spawn:
  assumes "vis_inv s" "m_states (sy_m s) sp \<noteq> None" "m_forwards (sy_m s) fp \<noteq> None" "vc \<notin> v_conn ` set (sy_vs s)"
  shows "vis_inv (s\<lparr>sy_vs := sy_vs s @ [new_visitor sp fp vc a]\<rparr>)"
proof -
  let ?v = "new_visitor sp fp vc a"
  have new: "\<not> holds_slot ?v" "\<not> in_gauge ?v" "visitor_ok (sy_m s) ?v" "v_conn ?v = vc"
    using assms(2,3)
    by (auto simp: new_visitor_def holds_slot_def in_gauge_def visitor_ok_def defers_at_def track_ok_def tracked_def)
  have "slots sp' (sy_vs s @ [?v]) = slots sp' (sy_vs s)" "gauged (sy_vs s @ [?v]) = gauged (sy_vs s)" for sp'
    using new by (simp_all add: slots_def gauged_def)
  then show ?thesis
    using assms(1,4) new(3,4) vis_inv_cnt [OF assms(1)] by (intro vis_invI) (auto simp: vis_inv_def)
qed

text \<open>Every step is one of the manager, which the visitors only see through the frame, or a visitor's.\<close>

lemma step_kinds:
  assumes "sys_step get s s'" "heap_ok (sy_m s)"
  obtains (manager) "frames (sy_m s) (sy_m s')" "sy_vs s' = sy_vs s"
  | (spawn) sp fp vc a where "m_states (sy_m s) sp \<noteq> None" "m_forwards (sy_m s) fp \<noteq> None"
      "vc \<notin> v_conn ` set (sy_vs s)" "s' = s\<lparr>sy_vs := sy_vs s @ [new_visitor sp fp vc a]\<rparr>"
  | (visit) k env v' m' where "k < length (sy_vs s)" "visitor_step env (sy_vs s ! k) (sy_m s) = (v', m')"
      "s' = s\<lparr>sy_m := m', sy_vs := (sy_vs s)[k := v']\<rparr>"
  using assms(1)
proof cases
  case (register now conn i ok ts m')
  then show ?thesis using frames_register [OF assms(2)] by (intro manager) simp_all
next
  case (start now listen conn i b p r m')
  then show ?thesis using frames_start [OF assms(2)] by (intro manager) simp_all
next
  case (teardown i ts m')
  then show ?thesis using frames_teardown [OF assms(2)] by (intro manager) simp_all
next
  case (cancel i c ts m')
  then show ?thesis using frames_cancel [OF assms(2)] by (intro manager) simp_all
next
  case (onclose i c ts m')
  then show ?thesis using frames_onclose [OF assms(2)] by (intro manager) simp_all
next
  case (tail k)
  then show ?thesis using frames_task [OF assms(2)] by (intro manager) simp_all
next
  case (hangup c)
  then show ?thesis using assms(2) by (intro manager) (simp_all add: frames_def)
qed (use that in blast)+

lemma vis_inv_step:
  assumes "sys_step get s s'" "vis_inv s"
  shows "vis_inv s' \<and> m_maxVisitors (sy_m s') = m_maxVisitors (sy_m s)"
proof -
  have hp: "heap_ok (sy_m s)" using assms(2) by (simp add: vis_inv_def)
  from assms(1) hp show ?thesis
  proof (cases rule: step_kinds)
    case manager
    then show ?thesis using vis_inv_frame [OF assms(2)] by (simp add: frames_def mgr_frame_def)
  next
    case (spawn sp fp vc a)
    then show ?thesis using vis_inv_spawn [OF assms(2)] by simp
  next
    case (visit k env v' m')
    have "visitor_ok (sy_m s) (sy_vs s ! k)" using assms(2) visit(1) by (simp add: vis_inv_def)
    then obtain f st where "m_forwards (sy_m s) (v_fwd (sy_vs s ! k)) = Some f" "defers_at (sy_vs s ! k)"
      "m_states (sy_m s) (v_st (sy_vs s ! k)) = Some st" by (auto simp: visitor_ok_def split: option.splits)
    then show ?thesis using step_frame [OF _ visit(2)] vis_inv_visit [OF assms(2) visit(1,2)] visit(3) by simp
  qed
qed

lemma vis_inv_init: "vis_inv (sys_init n)"
  by (simp add: vis_inv_def sys_init_def heap_ok_new) (simp add: NewManager_def gauged_def)

lemma reach_inv: "sys_reach n s \<Longrightarrow> vis_inv s \<and> m_maxVisitors (sy_m s) = n"
proof (induction rule: sys_reach.induct)
  case init
  then show ?case using vis_inv_init by (simp add: sys_init_def NewManager_def)
next
  case (step s get s')
  then show ?case using vis_inv_step by metis
qed

section \<open>Properties\<close>

text \<open>
  (C4) The visitor cap. However registrations, forwards, cancels, teardowns and any number of
  visitors interleave, for every lease state at most the configured number of visitor goroutines
  hold a slot at a time, across all its forwards (a cancel and a new forward do not reset the
  count); the counter equals that number, and the gauge equals the number of goroutines counted
  in it.
\<close>

theorem visitor_cap:
  assumes "sys_reach maxVisitors s" "m_states (sy_m s) sp = Some st"
  shows "ls_visitors st = slots sp (sy_vs s) \<and> slots sp (sy_vs s) \<le> max 0 maxVisitors
    \<and> m_visitorConns (sy_m s) = gauged (sy_vs s)"
proof -
  have inv: "vis_inv s" "m_maxVisitors (sy_m s) = maxVisitors" using reach_inv [OF assms(1)] by simp_all
  then have "m_visitorConns (sy_m s) = gauged (sy_vs s)" by (simp add: vis_inv_def)
  then show ?thesis using vis_inv_cnt [OF inv(1) assms(2)] inv(2) by simp
qed

text \<open>
  (C6) Teardown reaches every visitor. Once a forward has been closed, by whichever operation
  and however it interleaves with visitors arriving, its listener is closed, and so is the
  socket of each of its tracked visitors; a visitor that is copying has its SSH channel closed
  as well, so neither copy direction can block.
\<close>

theorem close_reaches_visitors:
  assumes "sys_reach maxVisitors s" "v \<in> set (sy_vs s)" "m_forwards (sy_m s) (v_fwd v) = Some f" "f_closeOnce f"
  shows "HListener (f_listener f) \<in> set (m_closed (sy_m s))
    \<and> (tracked v \<longrightarrow> HVisitor (v_conn v) \<in> set (m_closed (sy_m s)))
    \<and> (case v_pc v of PCopy ch _ _ \<Rightarrow> HChannel ch \<in> set (m_closed (sy_m s)) \<and> HVisitor (v_conn v) \<in> set (m_closed (sy_m s))
       | _ \<Rightarrow> True)"
proof -
  have inv: "vis_inv s" using reach_inv [OF assms(1)] by simp
  then have ok: "visitor_ok (sy_m s) v" and fo: "fwd_ok (set (m_closed (sy_m s))) f"
    using assms(2,3) by (simp_all add: vis_inv_def)
  then have tr: "track_ok (set (m_closed (sy_m s))) f v" and df: "defers_at v"
    using assms(3) by (simp_all add: visitor_ok_def)
  have cl: "f_closed f" using fo assms(4) by (simp add: fwd_ok_def)
  have "tracked v" if "v_pc v = PCopy ch i out" for ch i out
    using df that by (simp add: defers_at_def base_defers_def tracked_def)
  then show ?thesis using fo tr cl by (auto simp: fwd_ok_def track_ok_def split: vpc.splits)
qed

section \<open>A run\<close>

text \<open>The steps as functions, to run the system on an example.\<close>

definition do_register :: "(string \<Rightarrow> Lease option) \<Rightarrow> time \<Rightarrow> nat \<Rightarrow> string \<Rightarrow> sys \<Rightarrow> sys" where
  "do_register get now c i s = (case RegisterConn_cs get now c i (sy_m s) of ((ok, ts), m') \<Rightarrow>
     s\<lparr>sy_m := m', sy_todo := sy_todo s @ ts\<rparr>)"

definition do_start :: "(string \<Rightarrow> Lease option) \<Rightarrow> time \<Rightarrow> nat \<Rightarrow> nat \<Rightarrow> string \<Rightarrow> sys \<Rightarrow> sys" where
  "do_start get now ln c i s = s\<lparr>sy_m := snd (StartForward get now (\<lambda>_. Inr ln) c i [] 0 (sy_m s))\<rparr>"

definition do_teardown :: "string \<Rightarrow> sys \<Rightarrow> sys" where
  "do_teardown i s = (case Teardown_cs i (sy_m s) of (ts, m') \<Rightarrow> s\<lparr>sy_m := m', sy_todo := sy_todo s @ ts\<rparr>)"

definition do_tail :: "nat \<Rightarrow> sys \<Rightarrow> sys" where
  "do_tail k s = s\<lparr>sy_m := run_task (sy_todo s ! k) (sy_m s), sy_todo := take k (sy_todo s) @ drop (Suc k) (sy_todo s)\<rparr>"

definition do_visit :: "venv \<Rightarrow> nat \<Rightarrow> sys \<Rightarrow> sys" where
  "do_visit env k s = (case visitor_step env (sy_vs s ! k) (sy_m s) of (v', m') \<Rightarrow>
     s\<lparr>sy_m := m', sy_vs := (sy_vs s)[k := v']\<rparr>)"

lemma do_steps:
  "sys_step get s (do_register get now c i s)" "sys_step get s (do_start get now ln c i s)" "sys_step get s (do_teardown i s)"
  "k < length (sy_todo s) \<Longrightarrow> sys_step get s (do_tail k s)" "k < length (sy_vs s) \<Longrightarrow> sys_step get s (do_visit env k s)"
proof -
  show "sys_step get s (do_register get now c i s)"
    unfolding do_register_def by (auto split: prod.splits intro: sys_step.register)
  show "sys_step get s (do_start get now ln c i s)"
    unfolding do_start_def by (rule sys_step.start [OF prod.collapse [symmetric]])
  show "sys_step get s (do_teardown i s)"
    unfolding do_teardown_def by (auto split: prod.splits intro: sys_step.teardown)
  show "k < length (sy_todo s) \<Longrightarrow> sys_step get s (do_tail k s)"
    unfolding do_tail_def by (rule sys_step.tail)
  show "k < length (sy_vs s) \<Longrightarrow> sys_step get s (do_visit env k s)"
    unfolding do_visit_def by (auto split: prod.splits intro: sys_step.visit)
qed

definition demo_get :: "string \<Rightarrow> Lease option" where
  "demo_get i = (if i = ''a'' then Some \<lparr>l_LeaseID = ''a'', l_Token = [], l_AllocatedPort = 10000, l_AllowlistCIDRs = [],
     l_CreatedAt = 0, l_ExpiresAt = 10, l_Status = StatusActive\<rparr> else None)"

definition demo_env :: venv where
  "demo_env = \<lparr>ve_open = (\<lambda>_ _. Some (Inr 9)), ve_in = True, ve_copy = Some 0\<rparr>"

text \<open>Connection 7 registers, listener 3 opens, visitor 5 arrives and copies over channel 9.\<close>

definition demo_forward :: sys where
  "demo_forward = do_start demo_get 1 3 7 ''a'' (do_register demo_get 1 7 ''a'' (sys_init 1))"

definition demo_arrived :: sys where
  "demo_arrived = demo_forward\<lparr>sy_vs := [new_visitor 0 1 5 (TCPAddr None ''192.0.2.1:80'')]\<rparr>"

definition demo_copying :: sys where
  "demo_copying = (do_visit demo_env 0 ^^ 7) demo_arrived"

definition demo_closed :: sys where
  "demo_closed = do_tail 0 (do_tail 0 (do_teardown ''a'' demo_copying))"

lemma length_do_visit [simp]: "length (sy_vs (do_visit env k s)) = length (sy_vs s)"
  by (simp add: do_visit_def split: prod.splits)

lemma length_do_visits [simp]: "length (sy_vs ((do_visit env k ^^ n) s)) = length (sy_vs s)"
  by (induction n) simp_all

lemma reach_visits: "sys_reach n s \<Longrightarrow> k < length (sy_vs s) \<Longrightarrow> sys_reach n ((do_visit env k ^^ j) s)"
proof (induction j)
  case (Suc j)
  then have "sys_step get ((do_visit env k ^^ j) s) (do_visit env k ((do_visit env k ^^ j) s))"
    by (intro do_steps(5)) simp
  with Suc show ?case by (auto intro: sys_reach.step)
qed simp

definition demo_fwd :: forward where
  "demo_fwd = \<lparr>f_listener = 3, f_connectedAddr = [], f_connectedPort = 10000, f_allowNets = [], f_allowlistSet = False,
     f_closeOnce = False, f_visitors = [], f_closed = False\<rparr>"

lemma demo_forward_eq:
  "demo_forward = \<lparr>sy_m = \<lparr>m_leases = [(''a'', 0)], m_maxVisitors = 1, m_states = [0 \<mapsto> (new_state 7)\<lparr>ls_forward := Some 1\<rparr>],
     m_forwards = [1 \<mapsto> demo_fwd], m_brk = 2, m_closed = [], m_visitorConns = 0, m_bytesFwd = (0, 0)\<rparr>,
     sy_vs = [], sy_todo = []\<rparr>"
  by (simp add: demo_forward_def do_register_def do_start_def RegisterConn_cs_def StartForward_def sys_init_def
      NewManager_def lease_live_def demo_get_def Expired_def time_Before_def upd_state_def upd_forward_def
      new_state_def demo_fwd_def Let_def parseCIDRs_def List.map_filter_def)

lemma demo_copying_eq:
  "demo_copying = \<lparr>sy_m = \<lparr>m_leases = [(''a'', 0)], m_maxVisitors = 1,
     m_states = [0 \<mapsto> (new_state 7)\<lparr>ls_forward := Some 1, ls_visitors := 1\<rparr>],
     m_forwards = [1 \<mapsto> demo_fwd\<lparr>f_visitors := [(5, Some 9)]\<rparr>], m_brk = 2, m_closed = [], m_visitorConns = 1,
     m_bytesFwd = (0, 0)\<rparr>,
     sy_vs = [\<lparr>v_st = 0, v_fwd = 1, v_conn = 5, v_addr = TCPAddr None ''192.0.2.1:80'', v_pc = PCopy 9 False False,
       v_defers = DCloseChannel 9 # DRelease # base_defers\<rparr>], sy_todo = []\<rparr>"
  by (simp add: demo_copying_def demo_arrived_def demo_forward_eq do_visit_def numeral_eq_Suc visitor_step_def
      handleVisitor_step_def new_visitor_def demo_fwd_def new_state_def trackVisitor_def setVisitorChannel_def
      upd_state_def upd_forward_def demo_env_def base_defers_def)

lemma demo_reach: "sys_reach 1 demo_copying" "sys_reach 1 demo_closed"
proof -
  have 0: "sys_reach 1 (do_register demo_get 1 7 ''a'' (sys_init 1))"
    by (rule sys_reach.step [OF sys_reach.init do_steps(1)])
  have 1: "sys_reach 1 demo_forward"
    unfolding demo_forward_def by (rule sys_reach.step [OF 0 do_steps(2)])
  have "sys_step demo_get demo_forward demo_arrived"
    unfolding demo_arrived_def using sys_step.spawn [of demo_forward 0 1 5 demo_get "TCPAddr None ''192.0.2.1:80''"]
    by (simp add: demo_forward_eq)
  with 1 have 2: "sys_reach 1 demo_arrived" by (rule sys_reach.step)
  show 3: "sys_reach 1 demo_copying"
    unfolding demo_copying_def by (rule reach_visits [OF 2]) (simp add: demo_arrived_def)
  have todo: "length (sy_todo (do_teardown ''a'' demo_copying)) = 2"
    by (simp add: do_teardown_def Teardown_cs_def demo_copying_eq)
  have 4: "sys_reach 1 (do_teardown ''a'' demo_copying)" by (rule sys_reach.step [OF 3 do_steps(3)])
  have 5: "sys_reach 1 (do_tail 0 (do_teardown ''a'' demo_copying))"
    by (rule sys_reach.step [OF 4 do_steps(4)]) (simp add: todo)
  show "sys_reach 1 demo_closed"
    unfolding demo_closed_def by (rule sys_reach.step [OF 5 do_steps(4)]) (simp add: do_tail_def todo)
qed

theorem visitor_cap_witness:
  "slots 0 (sy_vs demo_copying) \<le> 1 \<and> m_visitorConns (sy_m demo_copying) = 1 \<and> slots 0 (sy_vs demo_copying) = 1"
proof -
  have "m_states (sy_m demo_copying) 0 = Some ((new_state 7)\<lparr>ls_forward := Some 1, ls_visitors := 1\<rparr>)"
    by (simp add: demo_copying_eq)
  from visitor_cap [OF demo_reach(1) this] show ?thesis by (simp add: demo_copying_eq new_state_def)
qed

lemma demo_closed_eq:
  "sy_vs demo_closed = sy_vs demo_copying"
  "m_forwards (sy_m demo_closed) 1 = Some (demo_fwd\<lparr>f_closeOnce := True, f_closed := True\<rparr>)"
  by (simp_all add: demo_closed_def do_tail_def do_teardown_def Teardown_cs_def demo_copying_eq run_task_def
      forward_close_def demo_fwd_def new_state_def)

theorem close_reaches_visitors_witness:
  "HListener 3 \<in> set (m_closed (sy_m demo_closed)) \<and> HVisitor 5 \<in> set (m_closed (sy_m demo_closed))
   \<and> HChannel 9 \<in> set (m_closed (sy_m demo_closed))"
proof -
  let ?v = "hd (sy_vs demo_copying)"
  have "?v \<in> set (sy_vs demo_closed)" by (simp add: demo_closed_eq demo_copying_eq)
  moreover have "v_fwd ?v = 1" by (simp add: demo_copying_eq)
  then have "m_forwards (sy_m demo_closed) (v_fwd ?v) = Some (demo_fwd\<lparr>f_closeOnce := True, f_closed := True\<rparr>)"
    by (simp only: demo_closed_eq)
  ultimately show ?thesis
    using close_reaches_visitors [OF demo_reach(2), of ?v] by (simp add: demo_copying_eq demo_fwd_def)
qed

end
