(* ===== verification/Tunnel_Config.thy ===== *)
theory Tunnel_Config
  imports Go_Net
begin

text \<open>
  The configuration of the tunnel daemon (\<open>src/internal/tunnel/config/config.go\<close>). The
  environment is a function from names to values (the empty string when unset), the resolver of
  the host a parameter. What \<open>Load\<close> accepts is what the other components rely on.
\<close>

section \<open>Library functions\<close>

text \<open>\<open>filepath.Join\<close> on a non-empty directory, with the lexical cleaning of \<open>filepath.Clean\<close>.\<close>

fun split_on :: "char \<Rightarrow> string \<Rightarrow> string list" where
  "split_on c [] = [[]]"
| "split_on c (x # xs) =
     (if x = c then [] # split_on c xs
      else case split_on c xs of [] \<Rightarrow> [[x]] | w # ws \<Rightarrow> (x # w) # ws)"

fun clean_comps :: "bool \<Rightarrow> string list \<Rightarrow> string list \<Rightarrow> string list" where
  "clean_comps rooted [] acc = rev acc"
| "clean_comps rooted (c # cs) acc =
     (if c = [] \<or> c = ''.'' then clean_comps rooted cs acc
      else if c = ''..'' then
        (if acc \<noteq> [] \<and> hd acc \<noteq> ''..'' then clean_comps rooted cs (tl acc)
         else if rooted then clean_comps rooted cs acc
         else clean_comps rooted cs (c # acc))
      else clean_comps rooted cs (c # acc))"

definition filepath_Join :: "string \<Rightarrow> string \<Rightarrow> string" where
  "filepath_Join dir file =
     (let p = dir @ ''/'' @ file; rooted = (hd p = CHR ''/''); out = Join ''/'' (clean_comps rooted (split_on CHR ''/'' p) [])
      in if rooted then CHR ''/'' # out else if out = [] then ''.'' else out)"

text \<open>
  \<open>fmt.Sscanf(s, "%d-%d", &lo, &hi)\<close> on ASCII input: each number may follow blanks (a newline is
  an error) and have a sign; what follows the second number is not looked at.
\<close>

definition scan_blank :: "char \<Rightarrow> bool" where
  "scan_blank c \<longleftrightarrow> ascii_space c \<and> c \<noteq> CHR 0x0A"

definition scan_int :: "string \<Rightarrow> (int \<times> string) option" where
  "scan_int s0 =
     (let s = dropWhile scan_blank s0;
          sign = (if s \<noteq> [] \<and> hd s \<in> {CHR ''+'', CHR ''-''} then [hd s] else []);
          rest = drop (length sign) s;
          tok = takeWhile is_digit rest
      in if tok = [] then None
         else case ParseInt (sign @ tok) of None \<Rightarrow> None | Some n \<Rightarrow> Some (n, drop (length tok) rest))"

definition Sscanf_range :: "string \<Rightarrow> (int \<times> int) option" where
  "Sscanf_range s =
     (case scan_int s of
        None \<Rightarrow> None
      | Some (lo, r) \<Rightarrow>
          (case r of
             [] \<Rightarrow> None
           | c # r' \<Rightarrow> if c \<noteq> CHR ''-'' then None
                       else (case scan_int r' of None \<Rightarrow> None | Some (hi, _) \<Rightarrow> Some (lo, hi))))"

section \<open>Model\<close>

record Config =
  c_SSHListenAddr :: string
  c_ControlListenAddr :: string
  c_MetricsListenAddr :: string
  c_STUNListenAddr :: string
  c_AuthToken :: string
  c_EndpointHost :: string
  c_SSHPort :: int
  c_StateDir :: string
  c_HostKeyPath :: string
  c_DataPortMin :: int
  c_DataPortMax :: int
  c_MinLeaseSeconds :: int
  c_MaxLeaseSeconds :: int
  c_MaxVisitorConnsPerLease :: int
  c_AuthAttemptsPerWindow :: int
  c_AuthWindow :: duration
  c_KeepaliveInterval :: duration
  c_LogLevel :: string

definition getenv :: "(string \<Rightarrow> string) \<Rightarrow> string \<Rightarrow> string \<Rightarrow> string" where
  "getenv env key fallback = (if env key \<noteq> [] then env key else fallback)"

definition getenvInt :: "(string \<Rightarrow> string) \<Rightarrow> string \<Rightarrow> int \<Rightarrow> int" where
  "getenvInt env key fallback = (case ParseInt (env key) of None \<Rightarrow> fallback | Some v \<Rightarrow> v)"

definition getenvInt64 :: "(string \<Rightarrow> string) \<Rightarrow> string \<Rightarrow> int \<Rightarrow> int" where
  "getenvInt64 env key fallback = (case ParseInt (env key) of None \<Rightarrow> fallback | Some v \<Rightarrow> v)"

definition parsePortRange :: "unicode \<Rightarrow> string \<Rightarrow> (string, int \<times> int) result" where
  "parsePortRange U s =
     (case Sscanf_range s of
        None \<Rightarrow> Inl (''expected MIN-MAX, got '' @ u_quote U s)
      | Some (lo, hi) \<Rightarrow>
          if lo < 1 \<or> hi > 65535 \<or> lo > hi
          then Inl (''range '' @ Itoa lo @ ''-'' @ Itoa hi @ '' out of bounds'') else Inr (lo, hi))"

definition isWildcardAddr :: "(string \<Rightarrow> string list option) \<Rightarrow> string \<Rightarrow> bool" where
  "isWildcardAddr lookup addr =
     (case SplitHostPort addr of
        Inl _ \<Rightarrow> True
      | Inr (host, _) \<Rightarrow>
          if host = [] then True
          else (let base = takeWhile (\<lambda>c. c \<noteq> CHR ''%'') host in
                case ParseIP base of
                  Some ip \<Rightarrow> IP_IsUnspecified ip
                | None \<Rightarrow>
                    (case lookup host of
                       None \<Rightarrow> False
                     | Some addrs \<Rightarrow>
                         list_ex (\<lambda>a. case ParseIP a of None \<Rightarrow> False | Some ip \<Rightarrow> IP_IsUnspecified ip) addrs)))"

definition env_config :: "(string \<Rightarrow> string) \<Rightarrow> Config" where
  "env_config env =
     (let stateDir = getenv env ''HTP_STATE_DIR'' ''/var/lib/hyrule-tunnel-proxy'' in
      \<lparr>c_SSHListenAddr = getenv env ''HTP_SSH_LISTEN_ADDR'' '':2222'',
       c_ControlListenAddr = getenv env ''HTP_CONTROL_LISTEN_ADDR'' ''127.0.0.1:8452'',
       c_MetricsListenAddr = getenv env ''HTP_METRICS_LISTEN_ADDR'' ''127.0.0.1:8453'',
       c_STUNListenAddr = getenv env ''HTP_STUN_LISTEN_ADDR'' '':3478'',
       c_AuthToken = env ''HTP_AUTH_TOKEN'',
       c_EndpointHost = getenv env ''HTP_ENDPOINT_HOST'' ''tun.hyrule.host'',
       c_SSHPort = getenvInt env ''HTP_SSH_PORT'' 2222,
       c_StateDir = stateDir,
       c_HostKeyPath = getenv env ''HTP_HOST_KEY_PATH'' (filepath_Join stateDir ''ssh_host_ed25519_key''),
       c_DataPortMin = 0, c_DataPortMax = 0,
       c_MinLeaseSeconds = getenvInt64 env ''HTP_MIN_LEASE_SECONDS'' 3600,
       c_MaxLeaseSeconds = getenvInt64 env ''HTP_MAX_LEASE_SECONDS'' 2592000,
       c_MaxVisitorConnsPerLease = getenvInt env ''HTP_MAX_VISITOR_CONNS_PER_LEASE'' 64,
       c_AuthAttemptsPerWindow = getenvInt env ''HTP_AUTH_ATTEMPTS_PER_WINDOW'' 5,
       c_AuthWindow = seconds_dur (getenvInt env ''HTP_AUTH_WINDOW_SECONDS'' 30),
       c_KeepaliveInterval = seconds_dur (getenvInt env ''HTP_KEEPALIVE_SECONDS'' 30),
       c_LogLevel = getenv env ''HTP_LOG_LEVEL'' ''info''\<rparr>)"

definition Load :: "unicode \<Rightarrow> (string \<Rightarrow> string list option) \<Rightarrow> (string \<Rightarrow> string) \<Rightarrow> (string, Config) result" where
  "Load U lookup env =
     (let cfg0 = env_config env in
      case parsePortRange U (getenv env ''HTP_DATA_PORT_RANGE'' ''10000-10499'') of
        Inl e \<Rightarrow> Inl (''invalid HTP_DATA_PORT_RANGE: '' @ e)
      | Inr (mn, mx) \<Rightarrow>
          (let cfg = cfg0\<lparr>c_DataPortMin := mn, c_DataPortMax := mx\<rparr> in
           if c_AuthToken cfg = [] then Inl ''HTP_AUTH_TOKEN is required''
           else if length (c_AuthToken cfg) < 32 \<or> c_AuthToken cfg = ''change-me''
           then Inl ''HTP_AUTH_TOKEN must be at least 32 characters and not the placeholder''
           else if c_EndpointHost cfg = [] then Inl ''HTP_ENDPOINT_HOST is required''
           else if isWildcardAddr lookup (c_ControlListenAddr cfg)
           then Inl (''HTP_CONTROL_LISTEN_ADDR must bind an internal address, not a wildcard: '' @ u_quote U (c_ControlListenAddr cfg))
           else if isWildcardAddr lookup (c_MetricsListenAddr cfg)
           then Inl (''HTP_METRICS_LISTEN_ADDR must bind an internal address, not a wildcard: '' @ u_quote U (c_MetricsListenAddr cfg))
           else if c_MinLeaseSeconds cfg \<le> 0 \<or> c_MaxLeaseSeconds cfg < c_MinLeaseSeconds cfg
           then Inl ''invalid lease duration bounds''
           else if c_MaxVisitorConnsPerLease cfg \<le> 0 then Inl ''HTP_MAX_VISITOR_CONNS_PER_LEASE must be positive''
           else if c_AuthAttemptsPerWindow cfg \<le> 0 \<or> c_AuthWindow cfg \<le> 0 then Inl ''invalid auth rate-limit settings''
           else Inr cfg))"

section \<open>Properties\<close>

text \<open>
  What an internal endpoint may be bound to, stated without the check: the address splits into a host and a
  port, the host is not empty, and none of the addresses the host denotes is \<open>0.0.0.0\<close> or \<open>::\<close>. A literal
  denotes itself, without its zone; a name what it resolves to.
\<close>

definition denoted_ips :: "(string \<Rightarrow> string list option) \<Rightarrow> string \<Rightarrow> byte list list" where
  "denoted_ips lookup host =
     (case ParseIP (takeWhile (\<lambda>c. c \<noteq> CHR ''%'') host) of
        Some ip \<Rightarrow> [ip]
      | None \<Rightarrow> (case lookup host of None \<Rightarrow> [] | Some addrs \<Rightarrow> List.map_filter ParseIP addrs))"

definition internal_bind :: "(string \<Rightarrow> string list option) \<Rightarrow> string \<Rightarrow> bool" where
  "internal_bind lookup addr =
     (case SplitHostPort addr of
        Inl e \<Rightarrow> False
      | Inr (host, port) \<Rightarrow> host \<noteq> []
          \<and> list_all (\<lambda>ip. ip \<noteq> replicate 16 0 \<and> ip \<noteq> v4InV6Prefix @ [0, 0, 0, 0]) (denoted_ips lookup host))"

lemma unspecified_ips: "IP_IsUnspecified (replicate 16 0)" "IP_IsUnspecified (v4InV6Prefix @ [0, 0, 0, 0])"
  by (simp_all add: IP_IsUnspecified_def To4_def v4InV6Prefix_def numeral_eq_Suc)

lemma not_wildcard_internal: "\<not> isWildcardAddr lookup addr \<Longrightarrow> internal_bind lookup addr"
  using unspecified_ips
  by (auto simp: isWildcardAddr_def internal_bind_def denoted_ips_def Let_def list_ex_iff list_all_iff List.map_filter_def
      split: sum.splits if_splits option.splits)

text \<open>The settings of an accepted configuration the other components rely on.\<close>

definition config_ok :: "(string \<Rightarrow> string list option) \<Rightarrow> Config \<Rightarrow> bool" where
  "config_ok lookup cfg \<longleftrightarrow> 1 \<le> c_DataPortMin cfg \<and> c_DataPortMin cfg \<le> c_DataPortMax cfg \<and> c_DataPortMax cfg \<le> 65535
     \<and> 32 \<le> length (c_AuthToken cfg) \<and> 0 < c_MinLeaseSeconds cfg \<and> c_MinLeaseSeconds cfg \<le> c_MaxLeaseSeconds cfg
     \<and> 0 < c_MaxVisitorConnsPerLease cfg \<and> 0 < c_AuthAttemptsPerWindow cfg \<and> 0 < c_AuthWindow cfg
     \<and> internal_bind lookup (c_ControlListenAddr cfg) \<and> internal_bind lookup (c_MetricsListenAddr cfg)"

lemma load_parts:
  assumes "Load U lookup env = Inr cfg"
  obtains mn mx where "cfg = (env_config env)\<lparr>c_DataPortMin := mn, c_DataPortMax := mx\<rparr>" "config_ok lookup cfg"
proof -
  from assms obtain mn mx where "parsePortRange U (getenv env ''HTP_DATA_PORT_RANGE'' ''10000-10499'') = Inr (mn, mx)"
    by (auto simp: Load_def Let_def split: sum.splits)
  moreover from this have "1 \<le> mn" "mn \<le> mx" "mx \<le> 65535"
    by (auto simp: parsePortRange_def split: option.splits if_splits)
  ultimately show ?thesis
    using assms by (intro that [where mn = mn and mx = mx])
      (auto simp: Load_def Let_def config_ok_def not_wildcard_internal split: if_splits)
qed

text \<open>A number of seconds, wrapped or not, is never the largest duration, which is odd.\<close>

lemma seconds_dur_below: "seconds_dur n < 2 ^ 63 - 1"
proof -
  have "in_int64 (seconds_dur n)" by (simp add: seconds_dur_def)
  moreover have "even (seconds_dur n)"
    unfolding seconds_dur_def wrap64_def Second_def by (intro dvd_diff dvd_mod) simp_all
  then have "seconds_dur n \<noteq> 2 ^ 63 - 1" by auto
  ultimately show ?thesis by (simp add: in_int64_def)
qed

lemma load_window:
  assumes "Load U lookup env = Inr cfg"
  shows "c_AuthWindow cfg < 2 ^ 63 - 1"
proof -
  have "c_AuthWindow cfg = seconds_dur (getenvInt env ''HTP_AUTH_WINDOW_SECONDS'' 30)"
    by (rule load_parts [OF assms]) (simp add: env_config_def Let_def)
  then show ?thesis using seconds_dur_below by simp
qed

text \<open>
  (C35) What \<open>Load\<close> guarantees: an accepted configuration has a non-empty port range inside
  1..65535, a bearer token of at least 32 bytes, ordered positive lease bounds, positive limits,
  and a rate-limit window that does not saturate the clock. Both internal endpoints are bound to a host
  that is not empty, and neither \<open>0.0.0.0\<close> nor \<open>::\<close> is the literal, with or without a zone, or one
  of the addresses the name resolved to. Every other setting is what the environment says or its default.
\<close>

theorem load_guarantees:
  assumes "Load U lookup env = Inr cfg"
  shows "1 \<le> c_DataPortMin cfg \<and> c_DataPortMin cfg \<le> c_DataPortMax cfg \<and> c_DataPortMax cfg \<le> 65535
    \<and> 32 \<le> length (c_AuthToken cfg) \<and> 0 < c_MinLeaseSeconds cfg \<and> c_MinLeaseSeconds cfg \<le> c_MaxLeaseSeconds cfg
    \<and> 0 < c_MaxVisitorConnsPerLease cfg \<and> 0 < c_AuthAttemptsPerWindow cfg
    \<and> 0 < c_AuthWindow cfg \<and> c_AuthWindow cfg < 2 ^ 63 - 1
    \<and> (\<forall>addr \<in> {c_ControlListenAddr cfg, c_MetricsListenAddr cfg}. \<exists>host port.
         SplitHostPort addr = Inr (host, port) \<and> host \<noteq> []
         \<and> (\<forall>ip. (ParseIP (takeWhile (\<lambda>c. c \<noteq> CHR ''%'') host) = Some ip
               \<or> ParseIP (takeWhile (\<lambda>c. c \<noteq> CHR ''%'') host) = None
                  \<and> (\<exists>addrs. lookup host = Some addrs \<and> (\<exists>a \<in> set addrs. ParseIP a = Some ip))) \<longrightarrow>
              ip \<noteq> replicate 16 0 \<and> ip \<noteq> v4InV6Prefix @ [0, 0, 0, 0]))
    \<and> cfg = (env_config env)\<lparr>c_DataPortMin := c_DataPortMin cfg, c_DataPortMax := c_DataPortMax cfg\<rparr>"
proof -
  obtain mn mx where cfg: "cfg = (env_config env)\<lparr>c_DataPortMin := mn, c_DataPortMax := mx\<rparr>" "config_ok lookup cfg"
    using load_parts [OF assms] .
  have bind: "\<exists>host port. SplitHostPort addr = Inr (host, port) \<and> host \<noteq> []
      \<and> (\<forall>ip. (ParseIP (takeWhile (\<lambda>c. c \<noteq> CHR ''%'') host) = Some ip
            \<or> ParseIP (takeWhile (\<lambda>c. c \<noteq> CHR ''%'') host) = None
               \<and> (\<exists>addrs. lookup host = Some addrs \<and> (\<exists>a \<in> set addrs. ParseIP a = Some ip))) \<longrightarrow>
           ip \<noteq> replicate 16 0 \<and> ip \<noteq> v4InV6Prefix @ [0, 0, 0, 0])"
    if "internal_bind lookup addr" for addr
  proof -
    obtain host port where hp: "SplitHostPort addr = Inr (host, port)" "host \<noteq> []"
      "list_all (\<lambda>ip. ip \<noteq> replicate 16 0 \<and> ip \<noteq> v4InV6Prefix @ [0, 0, 0, 0]) (denoted_ips lookup host)"
      using \<open>internal_bind lookup addr\<close> by (auto simp: internal_bind_def split: sum.splits)
    have mem: "ip \<in> set (List.map_filter ParseIP addrs)" if "a \<in> set addrs" "ParseIP a = Some ip" for a addrs ip
      using that by (force simp: List.map_filter_def)
    have "ip \<in> set (denoted_ips lookup host)"
      if "ParseIP (takeWhile (\<lambda>c. c \<noteq> CHR ''%'') host) = Some ip
        \<or> ParseIP (takeWhile (\<lambda>c. c \<noteq> CHR ''%'') host) = None
           \<and> (\<exists>addrs. lookup host = Some addrs \<and> (\<exists>a \<in> set addrs. ParseIP a = Some ip))" for ip
      using that mem by (auto simp: denoted_ips_def)
    then show ?thesis using hp unfolding list_all_iff by blast
  qed
  show ?thesis using cfg(2) load_window [OF assms] bind cfg(1) unfolding config_ok_def by auto
qed

definition demo_environ :: "string \<Rightarrow> string" where
  "demo_environ k = (if k = ''HTP_AUTH_TOKEN'' then replicate 32 CHR ''t''
     else if k = ''HTP_CONTROL_LISTEN_ADDR'' then ''10.0.0.1:1'' else if k = ''HTP_METRICS_LISTEN_ADDR'' then ''10.0.0.1:2'' else [])"

lemma demo_range: "parsePortRange U ''10000-10499'' = Inr (10000, 10499)"
  by (simp add: parsePortRange_def Sscanf_range_def scan_int_def scan_blank_def ascii_space_def is_digit_def Let_def
      ParseInt_def digits_val_def digit_val_def)

lemma demo_not_wildcard: "\<not> isWildcardAddr lookup ''10.0.0.1:1''" "\<not> isWildcardAddr lookup ''10.0.0.1:2''"
proof -
  have 1: "SplitHostPort ''10.0.0.1:1'' = Inr (''10.0.0.1'', ''1'')" "SplitHostPort ''10.0.0.1:2'' = Inr (''10.0.0.1'', ''2'')"
    by code_simp+
  have 2: "ParseAddr ''10.0.0.1'' = Some (Addr4 [10, 0, 0, 1])" by code_simp
  have "\<not> IP_IsUnspecified (v4InV6Prefix @ [10, 0, 0, 1])"
    by (simp add: IP_IsUnspecified_def To4_def v4InV6Prefix_def numeral_eq_Suc)
  with 1 2 show "\<not> isWildcardAddr lookup ''10.0.0.1:1''" "\<not> isWildcardAddr lookup ''10.0.0.1:2''"
    by (simp_all add: isWildcardAddr_def ParseIP_def Let_def)
qed

lemma demo_loaded:
  "\<exists>cfg. Load plain_unicode (\<lambda>_. None) demo_environ = Inr cfg \<and> c_MaxLeaseSeconds cfg = 2592000
     \<and> c_DataPortMin cfg = 10000 \<and> c_DataPortMax cfg = 10499"
proof -
  have no: "ParseInt [] = None" by (simp add: ParseInt_def)
  have tok: "replicate 32 CHR ''t'' \<noteq> ''change-me''" by (simp add: numeral_eq_Suc)
  show ?thesis
    by (simp add: Load_def env_config_def Let_def demo_environ_def getenv_def getenvInt_def getenvInt64_def no
        demo_range demo_not_wildcard seconds_dur_exact tok)
qed

theorem load_guarantees_witness:
  "\<exists>cfg. Load plain_unicode (\<lambda>_. None) demo_environ = Inr cfg \<and> c_AuthWindow cfg < 2 ^ 63 - 1
     \<and> c_MaxLeaseSeconds cfg = 2592000"
  using demo_loaded load_guarantees by blast

end
