(* ===== verification/Coordinator.thy ===== *)
theory Coordinator
  imports Lease_Properties Visitor_Invariant Tunnel_Config
begin

text \<open>
  The application core of the tunnel daemon (\<open>src/internal/tunnel/coordinator.go\<close>): it joins
  the lease store and the forward manager, clamps durations, and sweeps expired leases. Metrics
  are the sequence of instrument calls made.
\<close>

section \<open>Model\<close>

datatype metric = Reconcile string | LeasesActive int | PortsFree int

record 'db Coordinator =
  co_store :: "'db Store"
  co_manager :: Manager
  co_metrics :: "metric list"

text \<open>What the surroundings supply to one call: clock, randomness, port probe, map order.\<close>

record 'db ext =
  x_bolt :: "'db bolt"
  x_codec :: codec
  x_probe :: probe_outcome
  x_rnd :: "(string, byte list) result"
  x_now :: time
  x_rng :: "(string, nat) gomap \<Rightarrow> (string, nat) gomap"

definition emit :: "metric list \<Rightarrow> 'db Coordinator \<Rightarrow> 'db Coordinator" where
  "emit ms c = c\<lparr>co_metrics := co_metrics c @ ms\<rparr>"

definition RefreshMetrics :: "'db Coordinator \<Rightarrow> 'db Coordinator" where
  "RefreshMetrics c = (case Stats (co_store c) of (active, fr) \<Rightarrow> emit [LeasesActive active, PortsFree fr] c)"

definition NewCoordinator :: "'db Store \<Rightarrow> Manager \<Rightarrow> 'db Coordinator" where
  "NewCoordinator s m = RefreshMetrics \<lparr>co_store = s, co_manager = m, co_metrics = []\<rparr>"

definition clampDuration :: "Config \<Rightarrow> int \<Rightarrow> duration" where
  "clampDuration cfg seconds0 =
     (let seconds1 = (if seconds0 < c_MinLeaseSeconds cfg then c_MinLeaseSeconds cfg else seconds0);
          seconds = (if seconds1 > c_MaxLeaseSeconds cfg then c_MaxLeaseSeconds cfg else seconds1)
      in seconds_dur seconds)"

definition toResponse :: "Config \<Rightarrow> Manager \<Rightarrow> Lease \<Rightarrow> bool \<Rightarrow> LeaseResponse" where
  "toResponse cfg m l includeToken =
     (case manager_Stats (l_LeaseID l) m of (connected, visitors, bytesIn, bytesOut) \<Rightarrow>
        \<lparr>lr_LeaseID = l_LeaseID l, lr_Token = (if includeToken then l_Token l else []), lr_Port = l_AllocatedPort l,
         lr_EndpointHost = c_EndpointHost cfg, lr_SSHPort = c_SSHPort cfg, lr_Status = l_Status l,
         lr_ExpiresAt = l_ExpiresAt l, lr_Connected = connected, lr_VisitorConns = visitors,
         lr_BytesIn = bytesIn, lr_BytesOut = bytesOut\<rparr>)"

definition CreateLease ::
  "Config \<Rightarrow> 'db ext \<Rightarrow> CreateLeaseRequest \<Rightarrow> 'db Coordinator \<Rightarrow> (lease_error, LeaseResponse) result \<times> 'db Coordinator" where
  "CreateLease cfg x req c =
     (let dur = clampDuration cfg (cr_DurationSeconds req);
          p = \<lparr>cp_LeaseID = cr_LeaseID req, cp_Duration = dur, cp_AllowlistCIDRs = cr_AllowlistCIDRs req\<rparr> in
      case Create (x_bolt x) (x_codec x) (x_probe x) (x_rnd x) (x_now x) p (co_store c) of
        (Inl e, s') \<Rightarrow> (Inl e, emit [Reconcile ''create_failed''] (c\<lparr>co_store := s'\<rparr>))
      | (Inr l, s') \<Rightarrow>
          (Inr (toResponse cfg (co_manager c) l True),
           RefreshMetrics (emit [Reconcile ''created''] (c\<lparr>co_store := s'\<rparr>))))"

definition ExtendLease ::
  "Config \<Rightarrow> 'db ext \<Rightarrow> string \<Rightarrow> ExtendLeaseRequest \<Rightarrow> 'db Coordinator
   \<Rightarrow> (lease_error, LeaseResponse) result \<times> 'db Coordinator" where
  "ExtendLease cfg x i req c =
     (case Extend (x_bolt x) (x_codec x) i (clampDuration cfg (er_DurationSeconds req)) (co_store c) of
        (Inl e, s') \<Rightarrow> (Inl e, c\<lparr>co_store := s'\<rparr>)
      | (Inr l, s') \<Rightarrow>
          (Inr (toResponse cfg (co_manager c) l False), emit [Reconcile ''extended''] (c\<lparr>co_store := s'\<rparr>)))"

definition RevokeLease :: "'db ext \<Rightarrow> string \<Rightarrow> 'db Coordinator \<Rightarrow> lease_error option \<times> 'db Coordinator" where
  "RevokeLease x i c =
     (case Revoke (x_bolt x) i (co_store c) of
        (Some e, s') \<Rightarrow> (Some e, c\<lparr>co_store := s'\<rparr>)
      | (None, s') \<Rightarrow>
          (None, RefreshMetrics (emit [Reconcile ''revoked'']
                   (c\<lparr>co_store := s', co_manager := Teardown i (co_manager c)\<rparr>))))"

definition GetLease :: "Config \<Rightarrow> string \<Rightarrow> 'db Coordinator \<Rightarrow> LeaseResponse option" where
  "GetLease cfg i c =
     (case Get (co_store c) i of None \<Rightarrow> None | Some l \<Rightarrow> Some (toResponse cfg (co_manager c) l False))"

definition ListLeases :: "Config \<Rightarrow> 'db ext \<Rightarrow> 'db Coordinator \<Rightarrow> LeaseResponse list" where
  "ListLeases cfg x c = map (\<lambda>l. toResponse cfg (co_manager c) l False) (store_List (x_rng x) (co_store c))"

definition Health :: "'db Coordinator \<Rightarrow> HealthResponse" where
  "Health c =
     (case Stats (co_store c) of (active, fr) \<Rightarrow>
        \<lparr>hr_Status = ''ok'', hr_Service = ''hyrule-tunnel-proxy'', hr_Version = Version,
         hr_ActiveLeases = active, hr_FreePorts = fr\<rparr>)"

text \<open>The loop of \<open>SweepExpired\<close>, with the number reaped so far.\<close>

fun sweep_loop :: "'db bolt \<Rightarrow> time \<Rightarrow> string list \<Rightarrow> int \<Rightarrow> 'db Coordinator \<Rightarrow> int \<times> 'db Coordinator" where
  "sweep_loop B cutoff [] reaped c = (reaped, c)"
| "sweep_loop B cutoff (i # is) reaped c =
     (case MarkExpiredIfBefore B i cutoff (co_store c) of
        ((wasExpired, removed, err), s') \<Rightarrow>
          if \<not> wasExpired then sweep_loop B cutoff is reaped (c\<lparr>co_store := s'\<rparr>)
          else (let c1 = c\<lparr>co_store := s', co_manager := Teardown i (co_manager c)\<rparr> in
                if err \<noteq> None \<or> \<not> removed then sweep_loop B cutoff is reaped c1
                else sweep_loop B cutoff is (reaped + 1) (emit [Reconcile ''expired''] c1)))"

definition SweepExpired :: "'db ext \<Rightarrow> 'db Coordinator \<Rightarrow> int \<times> 'db Coordinator" where
  "SweepExpired x c =
     (case sweep_loop (x_bolt x) (x_now x) (ExpiredBefore (x_rng x) (x_now x) (co_store c)) 0 c of
        (reaped, c') \<Rightarrow> (reaped, if reaped > 0 then RefreshMetrics c' else c'))"

section \<open>Durations\<close>

text \<open>
  Clamping. With bounds of at most 9223372036 seconds (292 years) the duration granted is
  the requested one clamped to the configured bounds, exactly, so it is positive and within
  them whatever the request asks for.
\<close>

lemma clamp_exact:
  assumes "0 < c_MinLeaseSeconds cfg" "c_MinLeaseSeconds cfg \<le> c_MaxLeaseSeconds cfg" "c_MaxLeaseSeconds cfg \<le> 9223372036"
  shows "clampDuration cfg n = max (c_MinLeaseSeconds cfg) (min (c_MaxLeaseSeconds cfg) n) * Second
    \<and> c_MinLeaseSeconds cfg * Second \<le> clampDuration cfg n \<and> clampDuration cfg n \<le> c_MaxLeaseSeconds cfg * Second"
proof -
  let ?s = "max (c_MinLeaseSeconds cfg) (min (c_MaxLeaseSeconds cfg) n)"
  have "clampDuration cfg n = seconds_dur ?s" using assms by (auto simp: clampDuration_def)
  also have "\<dots> = ?s * Second" using assms by (subst seconds_dur_exact) (auto simp: Second_def)
  finally show ?thesis using assms by (auto simp: Second_def)
qed

definition demo_config :: "int \<Rightarrow> Config" where
  "demo_config maxSeconds =
     \<lparr>c_SSHListenAddr = [], c_ControlListenAddr = ''10.0.0.1:1'', c_MetricsListenAddr = ''10.0.0.1:2'', c_STUNListenAddr = [],
      c_AuthToken = replicate 32 CHR ''t'', c_EndpointHost = ''h'', c_SSHPort = 2222, c_StateDir = [], c_HostKeyPath = [],
      c_DataPortMin = 10000, c_DataPortMax = 10001, c_MinLeaseSeconds = 3600, c_MaxLeaseSeconds = maxSeconds,
      c_MaxVisitorConnsPerLease = 64, c_AuthAttemptsPerWindow = 5, c_AuthWindow = 30000000000,
      c_KeepaliveInterval = 0, c_LogLevel = []\<rparr>"

text \<open>
  Nothing bounds \<open>HTP_MAX_LEASE_SECONDS\<close> from above, and the product with \<open>time.Second\<close> wraps:
  a configuration \<open>Load\<close> accepts can turn a long lease into one that expired centuries ago.
\<close>

lemma clamp_overflow:
  "config_ok lookup (demo_config 10000000000) \<and> clampDuration (demo_config 10000000000) 10000000000 < 0"
  using demo_not_wildcard [THEN not_wildcard_internal]
  by (simp add: config_ok_def demo_config_def clampDuration_def seconds_dur_def wrap64_def Second_def)

section \<open>Projections\<close>

lemma RefreshMetrics_frame [simp]:
  "co_store (RefreshMetrics c) = co_store c" "co_manager (RefreshMetrics c) = co_manager c"
  by (simp_all add: RefreshMetrics_def emit_def split: prod.splits)

lemma emit_frame [simp]:
  "co_store (emit ms c) = co_store c" "co_manager (emit ms c) = co_manager c"
  by (simp_all add: emit_def)

lemma toResponse_fields [simp]:
  "lr_Token (toResponse cfg m l b) = (if b then l_Token l else [])" "lr_LeaseID (toResponse cfg m l b) = l_LeaseID l"
  "lr_Port (toResponse cfg m l b) = l_AllocatedPort l" "lr_ExpiresAt (toResponse cfg m l b) = l_ExpiresAt l"
  by (simp_all add: toResponse_def split: prod.splits)

text \<open>
  (C27) Create through the coordinator. The answer carries the port and the token under which the
  SSH server will authenticate the lease; creating again with the same identifier, whatever
  the clock, the randomness and the other fields of the request are, gives the same token, port
  and expiry, and leaves the store unchanged. Get, list and extend never carry a token.
\<close>

theorem create_lease_idempotent:
  assumes "store_inv (x_bolt x) (x_codec x) (co_store c)" "bolt_ok (x_bolt x)" "codec_ok (x_codec x)"
    "utf8_valid (cr_LeaseID req)" "list_all utf8_valid (cr_AllowlistCIDRs req)" "token_fresh (x_rnd x) (co_store c)"
    "CreateLease cfg x req c = (Inr r, c')" "cr_LeaseID req' = cr_LeaseID req"
  shows "(case CreateLease cfg x' req' c' of (r', c'') \<Rightarrow>
      (case r' of Inl _ \<Rightarrow> False
       | Inr r2 \<Rightarrow> lr_Token r2 = lr_Token r \<and> lr_Port r2 = lr_Port r \<and> lr_ExpiresAt r2 = lr_ExpiresAt r)
      \<and> co_store c'' = co_store c')
    \<and> (\<exists>l. ByToken (co_store c') (lr_Token r) = Some l \<and> l_LeaseID l = cr_LeaseID req \<and> l_AllocatedPort l = lr_Port r)
    \<and> (case GetLease cfg i c' of None \<Rightarrow> True | Some g \<Rightarrow> lr_Token g = [])
    \<and> list_all (\<lambda>g. lr_Token g = []) (ListLeases cfg x c')
    \<and> (case fst (ExtendLease cfg x i ereq c') of Inl _ \<Rightarrow> True | Inr g \<Rightarrow> lr_Token g = [])"
proof -
  define p where "p = \<lparr>cp_LeaseID = cr_LeaseID req, cp_Duration = clampDuration cfg (cr_DurationSeconds req),
    cp_AllowlistCIDRs = cr_AllowlistCIDRs req\<rparr>"
  have wire: "params_wire p" using assms(4,5) by (simp add: params_wire_def p_def)
  obtain l where run: "Create (x_bolt x) (x_codec x) (x_probe x) (x_rnd x) (x_now x) p (co_store c) = (Inr l, co_store c')"
    and r: "r = toResponse cfg (co_manager c) l True"
    using assms(7) by (auto simp: CreateLease_def p_def Let_def split: prod.splits sum.splits)
  note cr = create_result [OF assms(1-3) wire assms(6) run]
  have id: "cp_LeaseID p = cr_LeaseID req" by (simp add: p_def)
  have "Get (co_store c') (cr_LeaseID req') = Some l" using cr(2) assms(8) id by simp
  then have "CreateLease cfg x' req' c' =
      (Inr (toResponse cfg (co_manager c') l True), RefreshMetrics (emit [Reconcile ''created''] c'))"
    by (simp add: CreateLease_def Create_def Let_def)
  then have "case CreateLease cfg x' req' c' of (r', c'') \<Rightarrow>
      (case r' of Inl _ \<Rightarrow> False
       | Inr r2 \<Rightarrow> lr_Token r2 = lr_Token r \<and> lr_Port r2 = lr_Port r \<and> lr_ExpiresAt r2 = lr_ExpiresAt r)
      \<and> co_store c'' = co_store c'" by (simp add: r)
  moreover have "ByToken (co_store c') (lr_Token r) = Some l" "l_LeaseID l = cr_LeaseID req" "l_AllocatedPort l = lr_Port r"
    using cr(3,4) id by (simp_all add: r)
  moreover have "case GetLease cfg i c' of None \<Rightarrow> True | Some g \<Rightarrow> lr_Token g = []"
    by (simp add: GetLease_def split: option.splits)
  moreover have "list_all (\<lambda>g. lr_Token g = []) (ListLeases cfg x c')"
    by (simp add: ListLeases_def list_all_iff)
  moreover have "case fst (ExtendLease cfg x i ereq c') of Inl _ \<Rightarrow> True | Inr g \<Rightarrow> lr_Token g = []"
    by (simp add: ExtendLease_def split: sum.splits prod.splits)
  ultimately show ?thesis by blast
qed

definition demo_ext :: "memdb ext" where
  "demo_ext = \<lparr>x_bolt = mem_bolt, x_codec = ref_codec, x_probe = (\<lambda>_. Inr 0), x_rnd = Inr ref_bytes, x_now = 0, x_rng = rev\<rparr>"

definition demo_request :: CreateLeaseRequest where
  "demo_request = \<lparr>cr_LeaseID = ''a'', cr_DurationSeconds = 7200, cr_AllowlistCIDRs = [''10.0.0.0/8'']\<rparr>"

definition demo_coord :: "memdb Coordinator" where
  "demo_coord = NewCoordinator ref_store (NewManager 64)"

lemma demo_create: "\<exists>r c'. CreateLease (demo_config 2592000) demo_ext demo_request demo_coord = (Inr r, c')"
proof -
  obtain l s' where "Create mem_bolt ref_codec (\<lambda>_. Inr 0) (Inr ref_bytes) 0
      \<lparr>cp_LeaseID = ''a'', cp_Duration = clampDuration (demo_config 2592000) 7200, cp_AllowlistCIDRs = [''10.0.0.0/8'']\<rparr>
      ref_store = (Inr l, s')" using ref_create_any by blast
  then show ?thesis
    by (simp add: CreateLease_def demo_ext_def demo_request_def demo_coord_def NewCoordinator_def Let_def)
qed

theorem create_lease_idempotent_witness:
  "\<exists>r c' r2 c''. CreateLease (demo_config 2592000) demo_ext demo_request demo_coord = (Inr r, c')
     \<and> CreateLease (demo_config 2592000) demo_ext (demo_request\<lparr>cr_DurationSeconds := 9\<rparr>) c' = (Inr r2, c'')
     \<and> lr_Token r2 = lr_Token r \<and> lr_ExpiresAt r2 = lr_ExpiresAt r"
proof -
  obtain r c' where run: "CreateLease (demo_config 2592000) demo_ext demo_request demo_coord = (Inr r, c')"
    using demo_create by blast
  have store: "co_store demo_coord = ref_store" by (simp add: demo_coord_def NewCoordinator_def)
  have req: "utf8_valid (cr_LeaseID demo_request)" "list_all utf8_valid (cr_AllowlistCIDRs demo_request)"
    by (simp_all add: demo_request_def)
  have "store_inv (x_bolt demo_ext) (x_codec demo_ext) (co_store demo_coord)" "bolt_ok (x_bolt demo_ext)"
    "codec_ok (x_codec demo_ext)" "token_fresh (x_rnd demo_ext) (co_store demo_coord)"
    using ref_store_inv mem_bolt_ok ref_codec_ok ref_params_ok(2) by (simp_all add: demo_ext_def store)
  note id = create_lease_idempotent [OF this(1-3) req this(4) run, of "demo_request\<lparr>cr_DurationSeconds := 9\<rparr>" demo_ext]
  obtain r2 c'' where run2: "CreateLease (demo_config 2592000) demo_ext (demo_request\<lparr>cr_DurationSeconds := 9\<rparr>) c' = (r2, c'')"
    by fastforce
  show ?thesis using id run run2 by (cases r2) auto
qed

section \<open>Revocation\<close>

lemma task_leases [simp]: "m_leases (run_task t m) = m_leases m"
  by (simp add: run_task_def forward_close_def split: task.splits option.splits)

lemma tasks_leases [simp]: "m_leases (run_tasks ts m) = m_leases m"
  by (induction ts arbitrary: m) (simp_all add: run_tasks_def)

lemma Teardown_leases [simp]: "m_leases (Teardown i m) = gm_del i (m_leases m)"
  by (simp add: Teardown_def Teardown_cs_def Let_def split: option.splits)

text \<open>Forwards marked closed have closed their listener.\<close>

definition fwds_ok :: "Manager \<Rightarrow> bool" where
  "fwds_ok m \<longleftrightarrow> (\<forall>fp f. m_forwards m fp = Some f \<longrightarrow> fwd_ok (set (m_closed m)) f)"

lemma Teardown_closes:
  assumes "fwds_ok m" "gm_get (m_leases m) i = Some sp" "m_states m sp = Some st"
  shows "HConn (ls_conn st) \<in> set (m_closed (Teardown i m))"
    "ls_forward st = Some fp \<Longrightarrow> m_forwards m fp = Some f \<Longrightarrow> HListener (f_listener f) \<in> set (m_closed (Teardown i m))"
  using assms
  by (auto simp: Teardown_def Teardown_cs_def run_tasks_def run_task_def forward_close_eq close_handles_def fwds_ok_def
      fwd_ok_def split: option.splits)

text \<open>
  (C13) Revocation is complete. When \<open>RevokeLease\<close> succeeds, the lease is unknown to the store,
  its token no longer authenticates, the manager has forgotten it, and its connection and
  public listener are closed. When it fails, the store is as it was and the tunnel keeps running.
\<close>

theorem revoke_lease_complete:
  assumes "store_inv (x_bolt x) J (co_store c)" "bolt_ok (x_bolt x)" "fwds_ok (co_manager c)"
  shows "case RevokeLease x i c of
      (Some e, c') \<Rightarrow> same_leases (x_bolt x) (co_store c) (co_store c') \<and> co_manager c' = co_manager c
    | (None, c') \<Rightarrow> store_inv (x_bolt x) J (co_store c') \<and> Get (co_store c') = (Get (co_store c))(i := None)
        \<and> (\<exists>l. Get (co_store c) i = Some l \<and> ByToken (co_store c') (l_Token l) = None)
        \<and> gm_get (m_leases (co_manager c')) i = None
        \<and> (\<forall>sp st. gm_get (m_leases (co_manager c)) i = Some sp \<and> m_states (co_manager c) sp = Some st \<longrightarrow>
             HConn (ls_conn st) \<in> set (m_closed (co_manager c'))
             \<and> (\<forall>fp f. ls_forward st = Some fp \<and> m_forwards (co_manager c) fp = Some f \<longrightarrow>
                  HListener (f_listener f) \<in> set (m_closed (co_manager c'))))"
proof -
  obtain r s' where run: "Revoke (x_bolt x) i (co_store c) = (r, s')" by (cases "Revoke (x_bolt x) i (co_store c)")
  then have rem: "remove (x_bolt x) i (co_store c) = (r, s')" by (simp add: Revoke_def)
  show ?thesis
  proof (cases r)
    case (Some e)
    then show ?thesis
      using run remove_error [OF assms(1,2) rem [unfolded Some]] by (simp add: RevokeLease_def)
  next
    case None
    note ok = remove_ok [OF assms(1,2) rem [unfolded None]] remove_token [OF assms(1,2) rem [unfolded None]]
    have "RevokeLease x i c = (None, RefreshMetrics (emit [Reconcile ''revoked'']
        (c\<lparr>co_store := s', co_manager := Teardown i (co_manager c)\<rparr>)))"
      using run None by (simp add: RevokeLease_def)
    then show ?thesis
      using ok Teardown_closes [OF assms(3)] by (auto simp: gomap_simps)
  qed
qed

section \<open>Sweeping\<close>

definition expired_at :: "time \<Rightarrow> 'db Store \<Rightarrow> string \<Rightarrow> bool" where
  "expired_at cutoff s i = (case Get s i of None \<Rightarrow> False | Some l \<Rightarrow> l_ExpiresAt l \<le> cutoff)"

lemma mark_expired_spec:
  assumes "store_inv B J s" "bolt_ok B" "MarkExpiredIfBefore B i cutoff s = ((was, removed, err), s')"
  shows "store_inv B J s'" "was = expired_at cutoff s i" "removed \<longleftrightarrow> was \<and> err = None"
    "Get s' = (if removed then (Get s)(i := None) else Get s)"
proof -
  have "store_inv B J s' \<and> was = expired_at cutoff s i \<and> (removed \<longleftrightarrow> was \<and> err = None)
      \<and> Get s' = (if removed then (Get s)(i := None) else Get s)"
  proof (cases "Get s i")
    case None
    then show ?thesis using assms(1,3) by (auto simp: MarkExpiredIfBefore_def expired_at_def)
  next
    case (Some l)
    obtain r t where rem: "remove B i s = (r, t)" by (cases "remove B i s")
    show ?thesis
    proof (cases r)
      case None
      then show ?thesis using assms(1,3) Some rem remove_ok(2,3) [OF assms(1,2) rem [unfolded None]]
        by (auto simp: MarkExpiredIfBefore_def expired_at_def time_After_def split: if_splits)
    next
      case (Some e)
      then show ?thesis
        using assms(1,3) \<open>Get s i = Some l\<close> rem remove_error [OF assms(1,2) rem [unfolded Some]]
        by (auto simp: MarkExpiredIfBefore_def expired_at_def time_After_def same_leases_def split: if_splits)
    qed
  qed
  then show "store_inv B J s'" "was = expired_at cutoff s i" "removed \<longleftrightarrow> was \<and> err = None"
    "Get s' = (if removed then (Get s)(i := None) else Get s)" by simp_all
qed

lemma sweep_loop_spec:
  assumes "store_inv B J (co_store c)" "bolt_ok B" "sweep_loop B cutoff is r c = (r', c')"
  shows "store_inv B J (co_store c')
    \<and> (\<forall>i. if i \<in> set is \<and> expired_at cutoff (co_store c) i
          then gm_get (m_leases (co_manager c')) i = None
            \<and> (Get (co_store c') i = None \<or> Get (co_store c') i = Get (co_store c) i)
          else Get (co_store c') i = Get (co_store c) i
            \<and> gm_get (m_leases (co_manager c')) i = gm_get (m_leases (co_manager c)) i)
    \<and> r' = r + int (card {i. Get (co_store c) i \<noteq> None \<and> Get (co_store c') i = None})"
  using assms(1,3)
proof (induction "is" arbitrary: c r)
  case Nil
  have none: "{i. Get (co_store c) i \<noteq> None \<and> Get (co_store c) i = None} = {}" by auto
  have eq: "r' = r" "c' = c" using Nil by simp_all
  show ?case unfolding eq none using Nil(1) by simp
next
  case (Cons j js)
  obtain was removed err s1 where mk: "MarkExpiredIfBefore B j cutoff (co_store c) = ((was, removed, err), s1)"
    by (metis prod.exhaust)
  note ms = mark_expired_spec [OF Cons.prems(1) assms(2) mk]
  define c1 where "c1 = (if was then c\<lparr>co_store := s1, co_manager := Teardown j (co_manager c)\<rparr> else c\<lparr>co_store := s1\<rparr>)"
  define c2 where "c2 = (if removed then emit [Reconcile ''expired''] c1 else c1)"
  have c2: "co_store c2 = s1" "m_leases (co_manager c2) = (if was then gm_del j (m_leases (co_manager c)) else m_leases (co_manager c))"
    by (simp_all add: c2_def c1_def)
  have rest: "sweep_loop B cutoff js (if removed then r + 1 else r) c2 = (r', c')"
    using Cons.prems(2) mk ms(3) by (auto simp: c2_def c1_def Let_def split: if_splits)
  have "store_inv B J (co_store c2)" using ms(1) c2 by simp
  note IH = Cons.IH [OF this rest, unfolded c2]
  have get: "Get s1 i = (if removed \<and> i = j then None else Get (co_store c) i)" for i using ms(4) by simp
  have exp: "expired_at cutoff s1 i = (expired_at cutoff (co_store c) i \<and> \<not> (removed \<and> i = j))" for i
    by (simp add: expired_at_def get)
  have each: "if i \<in> set (j # js) \<and> expired_at cutoff (co_store c) i
      then gm_get (m_leases (co_manager c')) i = None
        \<and> (Get (co_store c') i = None \<or> Get (co_store c') i = Get (co_store c) i)
      else Get (co_store c') i = Get (co_store c) i
        \<and> gm_get (m_leases (co_manager c')) i = gm_get (m_leases (co_manager c)) i" for i
  proof (cases "i = j")
    case False
    have g: "Get s1 i = Get (co_store c) i" "expired_at cutoff s1 i = expired_at cutoff (co_store c) i"
      "gm_get (if was then gm_del j (m_leases (co_manager c)) else m_leases (co_manager c)) i = gm_get (m_leases (co_manager c)) i"
      using False get exp by (simp_all add: gomap_simps)
    have "i \<in> set (j # js) \<longleftrightarrow> i \<in> set js" using False by simp
    then show ?thesis using IH [THEN conjunct2, THEN conjunct1, THEN spec, of i] unfolding g by simp
  next
    case True
    note at = IH [THEN conjunct2, THEN conjunct1, THEN spec, of j] and g = get [of j] and e = exp [of j]
    show ?thesis
      unfolding True using at g e ms(2,3) by (cases was; cases removed) (auto simp: gomap_simps split: if_splits)
  qed
  let ?gone = "\<lambda>s. {i. Get s i \<noteq> None \<and> Get (co_store c') i = None}"
  have fin: "finite (?gone s1)"
    using Get_keys [OF store_inv_parts(2) [OF ms(1)]]
    by (auto intro: finite_subset [of _ "gm_keys (s_byID s1)"])
  have "int (card (?gone (co_store c))) = of_bool removed + int (card (?gone s1))"
  proof (cases removed)
    case True
    have "Get (co_store c) j \<noteq> None" using True ms(2,3) by (auto simp: expired_at_def split: option.splits)
    moreover have "Get (co_store c') j = None"
      using IH [THEN conjunct2, THEN conjunct1, THEN spec, of j] True get [of j] by (auto split: if_splits)
    ultimately have "?gone (co_store c) = insert j (?gone s1)" "j \<notin> ?gone s1" using get True by auto
    then show ?thesis using fin True by simp
  next
    case False
    then show ?thesis using get by simp
  qed
  then show ?case using IH each by simp
qed

lemma sweep_spec:
  assumes "store_inv (x_bolt x) J (co_store c)" "bolt_ok (x_bolt x)" "range_order (x_rng x)"
    "SweepExpired x c = (n, c')"
  shows "store_inv (x_bolt x) J (co_store c')
    \<and> (\<forall>i. if expired_at (x_now x) (co_store c) i
          then gm_get (m_leases (co_manager c')) i = None
            \<and> (Get (co_store c') i = None \<or> Get (co_store c') i = Get (co_store c) i)
          else Get (co_store c') i = Get (co_store c) i
            \<and> gm_get (m_leases (co_manager c')) i = gm_get (m_leases (co_manager c)) i)
    \<and> n = int (card {i. Get (co_store c) i \<noteq> None \<and> Get (co_store c') i = None})"
proof -
  let ?ids = "ExpiredBefore (x_rng x) (x_now x) (co_store c)"
  obtain c1 where loop: "sweep_loop (x_bolt x) (x_now x) ?ids 0 c = (n, c1)"
    and c': "co_store c' = co_store c1" "co_manager c' = co_manager c1"
    using assms(4) by (auto simp: SweepExpired_def split: prod.splits if_splits)
  have "i \<in> set ?ids \<longleftrightarrow> expired_at (x_now x) (co_store c) i" for i
    using expired_before_set [OF store_inv_parts(2) [OF assms(1)] assms(3)]
    by (auto simp: expired_at_def split: option.splits)
  then show ?thesis using sweep_loop_spec [OF assms(1,2) loop] by (simp add: c')
qed

text \<open>A teardown keeps the lease states and the listeners of all forwards, and what is closed stays closed.\<close>

definition mgr_grows :: "Manager \<Rightarrow> Manager \<Rightarrow> bool" where
  "mgr_grows m m' \<longleftrightarrow> m_states m' = m_states m \<and> set (m_closed m) \<subseteq> set (m_closed m')
     \<and> (\<forall>fp. map_option f_listener (m_forwards m' fp) = map_option f_listener (m_forwards m fp))"

lemma mgr_grows_refl [simp]: "mgr_grows m m" by (simp add: mgr_grows_def)

lemma mgr_grows_trans: "mgr_grows m m1 \<Longrightarrow> mgr_grows m1 m2 \<Longrightarrow> mgr_grows m m2"
  unfolding mgr_grows_def by auto

lemma task_grows: "mgr_grows m (run_task t m) \<and> (fwds_ok m \<longrightarrow> fwds_ok (run_task t m))"
  by (cases t) (auto simp: mgr_grows_def fwds_ok_def fwd_ok_def run_task_def forward_close_eq closed_forward_def
      close_handles_def split: option.splits)

lemma tasks_grow: "mgr_grows m (run_tasks ts m) \<and> (fwds_ok m \<longrightarrow> fwds_ok (run_tasks ts m))"
proof (induction ts arbitrary: m)
  case (Cons t ts)
  then show ?case using task_grows [of m t] mgr_grows_trans by (simp add: run_tasks_def) blast
qed (simp add: run_tasks_def)

lemma Teardown_grows: "mgr_grows m (Teardown i m)" "fwds_ok m \<Longrightarrow> fwds_ok (Teardown i m)"
proof -
  let ?m = "m\<lparr>m_leases := gm_del i (m_leases m)\<rparr>"
  have "snd (Teardown_cs i m) = ?m" by (simp add: Teardown_cs_def Let_def split: option.splits)
  then have eq: "Teardown i m = run_tasks (fst (Teardown_cs i m)) ?m"
    unfolding Teardown_def by (cases "Teardown_cs i m") simp
  have "mgr_grows m ?m" "fwds_ok m \<Longrightarrow> fwds_ok ?m" by (simp_all add: mgr_grows_def fwds_ok_def)
  then show "mgr_grows m (Teardown i m)" "fwds_ok m \<Longrightarrow> fwds_ok (Teardown i m)"
    unfolding eq using tasks_grow mgr_grows_trans by blast+
qed

text \<open>The connection and the listener that served lease \<open>i\<close> in \<open>m\<close> are closed in \<open>m'\<close>.\<close>

definition unserved :: "string \<Rightarrow> Manager \<Rightarrow> Manager \<Rightarrow> bool" where
  "unserved i m m' \<longleftrightarrow>
     (\<forall>sp st. gm_get (m_leases m) i = Some sp \<and> m_states m sp = Some st \<longrightarrow>
        HConn (ls_conn st) \<in> set (m_closed m')
        \<and> (\<forall>fp f. ls_forward st = Some fp \<and> m_forwards m fp = Some f \<longrightarrow> HListener (f_listener f) \<in> set (m_closed m')))"

lemma unserved_before:
  assumes "mgr_grows m m1" "gm_get (m_leases m1) i = gm_get (m_leases m) i" "unserved i m1 m'"
  shows "unserved i m m'"
  unfolding unserved_def
proof (intro allI impI conjI)
  fix sp st assume st: "gm_get (m_leases m) i = Some sp \<and> m_states m sp = Some st"
  then have st1: "gm_get (m_leases m1) i = Some sp \<and> m_states m1 sp = Some st"
    using assms(1,2) by (simp add: mgr_grows_def)
  then show "HConn (ls_conn st) \<in> set (m_closed m')" using assms(3) unfolding unserved_def by blast
  fix fp f assume f: "ls_forward st = Some fp \<and> m_forwards m fp = Some f"
  then have "map_option f_listener (m_forwards m1 fp) = Some (f_listener f)" using assms(1) by (simp add: mgr_grows_def)
  then obtain f1 where "m_forwards m1 fp = Some f1" "f_listener f1 = f_listener f" by auto
  then show "HListener (f_listener f) \<in> set (m_closed m')" using assms(3) st1 f unfolding unserved_def by metis
qed

lemma unserved_after: "unserved i m m1 \<Longrightarrow> mgr_grows m1 m2 \<Longrightarrow> unserved i m m2"
  unfolding unserved_def mgr_grows_def by blast

lemma Teardown_unserved: "fwds_ok m \<Longrightarrow> unserved i m (Teardown i m)"
  unfolding unserved_def using Teardown_closes by blast

lemma sweep_loop_closes:
  assumes "store_inv B J (co_store c)" "bolt_ok B" "fwds_ok (co_manager c)" "sweep_loop B cutoff is r c = (r', c')"
  shows "mgr_grows (co_manager c) (co_manager c')
    \<and> (\<forall>i \<in> set is. expired_at cutoff (co_store c) i \<longrightarrow> unserved i (co_manager c) (co_manager c'))"
  using assms(1,3,4)
proof (induction "is" arbitrary: c r)
  case (Cons j js)
  obtain was removed err s1 where mk: "MarkExpiredIfBefore B j cutoff (co_store c) = ((was, removed, err), s1)"
    by (metis prod.exhaust)
  note ms = mark_expired_spec [OF Cons.prems(1) assms(2) mk]
  define c1 where "c1 = (if was then c\<lparr>co_store := s1, co_manager := Teardown j (co_manager c)\<rparr> else c\<lparr>co_store := s1\<rparr>)"
  define c2 where "c2 = (if removed then emit [Reconcile ''expired''] c1 else c1)"
  have c2: "co_store c2 = s1" "co_manager c2 = (if was then Teardown j (co_manager c) else co_manager c)"
    by (simp_all add: c2_def c1_def)
  have rest: "sweep_loop B cutoff js (if removed then r + 1 else r) c2 = (r', c')"
    using Cons.prems(3) mk ms(3) by (auto simp: c2_def c1_def Let_def split: if_splits)
  have ok: "store_inv B J (co_store c2)" "fwds_ok (co_manager c2)"
    using ms(1) c2 Teardown_grows(2) Cons.prems(2) by simp_all
  note IH = Cons.IH [OF ok rest]
  have g: "mgr_grows (co_manager c) (co_manager c2)" using c2 Teardown_grows(1) by simp
  have "unserved i (co_manager c) (co_manager c')" if i: "i \<in> set (j # js)" "expired_at cutoff (co_store c) i" for i
  proof (cases "i = j")
    case True
    then have "unserved i (co_manager c) (co_manager c2)" using i(2) ms(2) c2 Teardown_unserved [OF Cons.prems(2)] by simp
    then show ?thesis using unserved_after IH by blast
  next
    case False
    then have "expired_at cutoff (co_store c2) i" "gm_get (m_leases (co_manager c2)) i = gm_get (m_leases (co_manager c)) i"
      using i(2) ms(4) c2 by (simp_all add: expired_at_def gomap_simps)
    then show ?thesis using unserved_before [OF g] IH False i(1) by simp
  qed
  then show ?case using mgr_grows_trans [OF g] IH by blast
qed simp

text \<open>
  (C11) The sweep. Whatever the database answers, after \<open>SweepExpired\<close> the manager serves no
  lease that had expired at the cutoff: it has forgotten the lease, and the SSH connection
  registered for it and the public listener of its forward are closed. The manager's entry and the stored
  lease of every other lease are as they were; an expired lease is either gone from the store or,
  when its row could not be deleted, still there unchanged for the next sweep. The number returned
  counts exactly the leases removed. \<open>fwds_ok\<close> is part of the invariant of the running system.
\<close>

theorem sweep_correct:
  assumes "store_inv (x_bolt x) J (co_store c)" "bolt_ok (x_bolt x)" "range_order (x_rng x)" "fwds_ok (co_manager c)"
    "SweepExpired x c = (n, c')"
  shows "store_inv (x_bolt x) J (co_store c')
    \<and> (\<forall>i. if expired_at (x_now x) (co_store c) i
          then gm_get (m_leases (co_manager c')) i = None
            \<and> (\<forall>sp st. gm_get (m_leases (co_manager c)) i = Some sp \<and> m_states (co_manager c) sp = Some st \<longrightarrow>
                 HConn (ls_conn st) \<in> set (m_closed (co_manager c'))
                 \<and> (\<forall>fp f. ls_forward st = Some fp \<and> m_forwards (co_manager c) fp = Some f \<longrightarrow>
                      HListener (f_listener f) \<in> set (m_closed (co_manager c'))))
            \<and> (Get (co_store c') i = None \<or> Get (co_store c') i = Get (co_store c) i)
          else Get (co_store c') i = Get (co_store c) i
            \<and> gm_get (m_leases (co_manager c')) i = gm_get (m_leases (co_manager c)) i)
    \<and> n = int (card {i. Get (co_store c) i \<noteq> None \<and> Get (co_store c') i = None})"
proof -
  let ?ids = "ExpiredBefore (x_rng x) (x_now x) (co_store c)"
  obtain c1 where loop: "sweep_loop (x_bolt x) (x_now x) ?ids 0 c = (n, c1)" and c': "co_manager c' = co_manager c1"
    using assms(5) by (auto simp: SweepExpired_def split: prod.splits if_splits)
  have "i \<in> set ?ids \<longleftrightarrow> expired_at (x_now x) (co_store c) i" for i
    using expired_before_set [OF store_inv_parts(2) [OF assms(1)] assms(3)]
    by (auto simp: expired_at_def split: option.splits)
  then have closes: "expired_at (x_now x) (co_store c) i \<Longrightarrow> unserved i (co_manager c) (co_manager c')" for i
    using sweep_loop_closes [OF assms(1,2,4) loop] c' by simp
  note sw = sweep_spec [OF assms(1-3,5)]
  show ?thesis
  proof (fold unserved_def, intro conjI allI)
    fix i
    show "if expired_at (x_now x) (co_store c) i
          then gm_get (m_leases (co_manager c')) i = None \<and> unserved i (co_manager c) (co_manager c')
            \<and> (Get (co_store c') i = None \<or> Get (co_store c') i = Get (co_store c) i)
          else Get (co_store c') i = Get (co_store c) i
            \<and> gm_get (m_leases (co_manager c')) i = gm_get (m_leases (co_manager c)) i"
      using sw [THEN conjunct2, THEN conjunct1, THEN spec, of i] closes [of i] by (simp split: if_splits)
  qed (use sw in blast)+
qed

section \<open>Examples\<close>

definition demo_served :: "memdb Coordinator" where
  "demo_served = \<lparr>co_store = ref_store1, co_manager = sy_m demo_forward, co_metrics = []\<rparr>"

lemma demo_ext_sel [simp]:
  "x_bolt demo_ext = mem_bolt" "x_codec demo_ext = ref_codec" "x_rng demo_ext = rev" "x_rnd demo_ext = Inr ref_bytes"
  by (simp_all add: demo_ext_def)

lemma demo_served_sel [simp]: "co_store demo_served = ref_store1" "co_manager demo_served = sy_m demo_forward"
  by (simp_all add: demo_served_def)

lemma demo_served_ok: "fwds_ok (co_manager demo_served)"
  by (simp add: demo_served_def demo_forward_eq fwds_ok_def fwd_ok_def demo_fwd_def)

theorem revoke_lease_complete_witness:
  "case RevokeLease demo_ext ''a'' demo_served of (e, c') \<Rightarrow>
     e = None \<and> Get (co_store c') = Map.empty \<and> HListener 3 \<in> set (m_closed (co_manager c'))
     \<and> HConn 7 \<in> set (m_closed (co_manager c'))"
proof -
  have hyps: "store_inv (x_bolt demo_ext) ref_codec (co_store demo_served)" "bolt_ok (x_bolt demo_ext)"
    using ref_store1_inv mem_bolt_ok by simp_all
  have "fst (Revoke mem_bolt ''a'' ref_store1) = None" unfolding Revoke_def by (rule ref_remove)
  then have e: "fst (RevokeLease demo_ext ''a'' demo_served) = None"
    by (cases "Revoke mem_bolt ''a'' ref_store1") (simp add: RevokeLease_def)
  obtain c' where run: "RevokeLease demo_ext ''a'' demo_served = (None, c')"
    using e by (cases "RevokeLease demo_ext ''a'' demo_served") simp
  have m: "gm_get (m_leases (sy_m demo_forward)) ''a'' = Some 0"
    "m_states (sy_m demo_forward) 0 = Some ((new_state 7)\<lparr>ls_forward := Some 1\<rparr>)"
    "m_forwards (sy_m demo_forward) 1 = Some demo_fwd" by (simp_all add: demo_forward_eq)
  have st: "ls_conn ((new_state 7)\<lparr>ls_forward := Some 1\<rparr>) = 7" "f_listener demo_fwd = 3"
    by (simp_all add: new_state_def demo_fwd_def)
  note rv = revoke_lease_complete [OF hyps demo_served_ok, of "''a''", unfolded run prod.case option.case demo_served_sel]
  have "HConn 7 \<in> set (m_closed (co_manager c'))" "HListener 3 \<in> set (m_closed (co_manager c'))"
    using rv m st by (metis leaseState.select_convs(2) leaseState.surjective leaseState.update_convs(2))+
  then show ?thesis using rv by (simp add: run ref_store1_get)
qed

theorem sweep_correct_witness:
  "case SweepExpired (demo_ext\<lparr>x_now := 10\<rparr>) demo_served of (n, c') \<Rightarrow>
     gm_get (m_leases (co_manager c')) ''a'' = None \<and> n = int (card {i. i = ''a'' \<and> Get (co_store c') i = None})
     \<and> HConn 7 \<in> set (m_closed (co_manager c')) \<and> HListener 3 \<in> set (m_closed (co_manager c'))"
proof -
  let ?x = "demo_ext\<lparr>x_now := 10\<rparr>"
  have hyps: "store_inv (x_bolt ?x) ref_codec (co_store demo_served)" "bolt_ok (x_bolt ?x)" "range_order (x_rng ?x)"
    using ref_store1_inv mem_bolt_ok by (simp_all add: range_order_def)
  obtain n c' where run: "SweepExpired ?x demo_served = (n, c')" by fastforce
  have get: "Get (co_store demo_served) i \<noteq> None \<longleftrightarrow> i = ''a''" for i by (simp add: ref_store1_get)
  have exp: "expired_at 10 (co_store demo_served) ''a''"
    by (simp add: expired_at_def ref_store1_get ref_lease_def)
  note sw = sweep_correct [OF hyps demo_served_ok run, unfolded get]
  note gone = sw [THEN conjunct2, THEN conjunct1, THEN spec, of "''a''"]
  have "HConn 7 \<in> set (m_closed (co_manager c'))" "HListener 3 \<in> set (m_closed (co_manager c'))"
    using gone exp by (simp_all add: demo_forward_eq new_state_def demo_fwd_def)
  then show ?thesis using sw gone exp unfolding run by simp
qed

end
