(* ===== verification/Lifecycle.thy ===== *)
theory Lifecycle
  imports Coordinator
begin

text \<open>
  The life of a lease across store and manager. The coordinator takes a lease out of the store
  first and tears its forward down afterwards; meanwhile SSH connections register and start
  forwards against the store they see. The two invariants shown here hold under every
  interleaving: an open public listener always has an owner or a pending close, and a registered
  lease is in the store or its teardown is pending.
\<close>

section \<open>No listener without an owner\<close>

definition owner :: "Manager \<Rightarrow> nat \<Rightarrow> bool" where
  "owner m fp \<longleftrightarrow> (\<exists>i sp st. gm_get (m_leases m) i = Some sp \<and> m_states m sp = Some st \<and> ls_forward st = Some fp)"

definition close_pending :: "Manager \<Rightarrow> task list \<Rightarrow> nat \<Rightarrow> bool" where
  "close_pending m ts fp \<longleftrightarrow> CloseForward fp \<in> set ts
     \<or> (\<exists>sp st. CloseForwardOf sp \<in> set ts \<and> m_states m sp = Some st \<and> ls_forward st = Some fp)"

definition leak_free :: "sys \<Rightarrow> bool" where
  "leak_free s \<longleftrightarrow>
     (\<forall>i sp. gm_get (m_leases (sy_m s)) i = Some sp \<longrightarrow> m_states (sy_m s) sp \<noteq> None)
     \<and> (\<forall>fp f. m_forwards (sy_m s) fp = Some f \<and> \<not> f_closeOnce f \<longrightarrow>
          owner (sy_m s) fp \<or> close_pending (sy_m s) (sy_todo s) fp)"

lemma leak_freeI:
  assumes "\<And>i sp. gm_get (m_leases (sy_m s)) i = Some sp \<Longrightarrow> m_states (sy_m s) sp \<noteq> None"
    "\<And>fp f. m_forwards (sy_m s) fp = Some f \<Longrightarrow> \<not> f_closeOnce f \<Longrightarrow>
       owner (sy_m s) fp \<or> close_pending (sy_m s) (sy_todo s) fp"
  shows "leak_free s"
  using assms unfolding leak_free_def by blast

lemma leak_freeD:
  assumes "leak_free s"
  shows "gm_get (m_leases (sy_m s)) i = Some sp \<Longrightarrow> m_states (sy_m s) sp \<noteq> None"
    "m_forwards (sy_m s) fp = Some f \<Longrightarrow> \<not> f_closeOnce f \<Longrightarrow> owner (sy_m s) fp \<or> close_pending (sy_m s) (sy_todo s) fp"
  using assms unfolding leak_free_def by blast+

text \<open>Taking an entry out of the map hands its forward to the task \<open>CloseForwardOf\<close>.\<close>

lemma owner_removed:
  assumes "owner m fp" "gm_get (m_leases m) i = Some sp" "m_states m sp = Some st"
  shows "owner (m\<lparr>m_leases := gm_del i (m_leases m)\<rparr>) fp \<or> ls_forward st = Some fp"
proof -
  from assms(1) obtain j sq su where o: "gm_get (m_leases m) j = Some sq" "m_states m sq = Some su" "ls_forward su = Some fp"
    by (auto simp: owner_def)
  show ?thesis
  proof (cases "j = i")
    case True
    then show ?thesis using o assms(2,3) by simp
  next
    case False
    then show ?thesis using o by (auto simp: owner_def gomap_simps intro!: exI [of _ j])
  qed
qed

lemma leak_register:
  assumes inv: "leak_free s" and hp: "heap_ok (sy_m s)" and run: "RegisterConn_cs get now conn i (sy_m s) = ((ok, ts), m')"
  shows "leak_free (s\<lparr>sy_m := m', sy_todo := sy_todo s @ ts\<rparr>)"
proof (cases "lease_live get now i")
  case None
  then have "m' = sy_m s" "ts = []" using run by (simp_all add: RegisterConn_cs_def)
  then show ?thesis using inv by simp
next
  case (Some l)
  let ?m = "sy_m s"
  have m': "m' = (upd_state (m_brk ?m) (new_state conn) ?m)
      \<lparr>m_leases := gm_put i (m_brk ?m) (m_leases ?m), m_brk := Suc (m_brk ?m)\<rparr>"
    using run Some by (auto simp: RegisterConn_cs_def Let_def split: option.splits)
  have old: "CloseForwardOf sp \<in> set ts" if "gm_get (m_leases ?m) i = Some sp" for sp
    using run Some that leak_freeD(1) [OF inv that] by (auto simp: RegisterConn_cs_def Let_def split: option.splits)
  have keep: "m_states m' sp = m_states ?m sp" if "m_states ?m sp \<noteq> None" for sp
    using that heap_ok_fresh(1) [OF hp] by (auto simp: m')
  show ?thesis
  proof (rule leak_freeI; simp)
    fix j sp assume "gm_get (m_leases m') j = Some sp"
    then show "\<exists>y. m_states m' sp = Some y"
      using keep leak_freeD(1) [OF inv, of j sp] by (auto simp: m' gomap_simps split: if_splits)
  next
    fix fp f assume f: "m_forwards m' fp = Some f" "\<not> f_closeOnce f"
    then have "m_forwards ?m fp = Some f" by (simp add: m')
    from leak_freeD(2) [OF inv this f(2)] show "owner m' fp \<or> close_pending m' (sy_todo s @ ts) fp"
    proof
      assume "owner ?m fp"
      then obtain j sp st where o: "gm_get (m_leases ?m) j = Some sp" "m_states ?m sp = Some st" "ls_forward st = Some fp"
        by (auto simp: owner_def)
      have st: "m_states m' sp = Some st" using keep o(2) by simp
      show ?thesis
      proof (cases "j = i")
        case True
        then show ?thesis using old o st by (auto simp: close_pending_def)
      next
        case False
        then have "gm_get (m_leases m') j = Some sp" using o(1) by (simp add: m' gomap_simps)
        then show ?thesis using o st by (auto simp: owner_def)
      qed
    next
      assume "close_pending ?m (sy_todo s) fp"
      then show ?thesis using keep by (auto simp: close_pending_def)
    qed
  qed
qed

lemma leak_start:
  assumes inv: "leak_free s" and hp: "heap_ok (sy_m s)" and run: "StartForward get now listen conn i b p (sy_m s) = (r, m')"
  shows "leak_free (s\<lparr>sy_m := m'\<rparr>)"
proof (cases rule: StartForward_cases [of get now listen conn i b p "sy_m s"])
  case (refused e)
  then show ?thesis using run inv by simp
next
  case (started l sp st ln f)
  let ?m = "sy_m s"
  have m': "m' = (upd_state sp (st\<lparr>ls_forward := Some (m_brk ?m)\<rparr>) (upd_forward (m_brk ?m) f ?m))\<lparr>m_brk := Suc (m_brk ?m)\<rparr>"
    using run started(8) by simp
  have keep: "\<exists>su'. m_states m' sq = Some su' \<and> ls_forward su' = Some fp" if "m_states ?m sq = Some su" "ls_forward su = Some fp"
    for sq su fp using that started(3,5) by (auto simp: m')
  show ?thesis
  proof (rule leak_freeI; simp)
    fix j sq assume "gm_get (m_leases m') j = Some sq"
    then show "\<exists>y. m_states m' sq = Some y" using leak_freeD(1) [OF inv, of j sq] by (auto simp: m')
  next
    fix fp g assume g: "m_forwards m' fp = Some g" "\<not> f_closeOnce g"
    show "owner m' fp \<or> close_pending m' (sy_todo s) fp"
    proof (cases "fp = m_brk ?m")
      case True
      then show ?thesis using started(2) by (auto simp: owner_def m' intro!: exI [of _ i])
    next
      case False
      then have "m_forwards ?m fp = Some g" using g(1) by (simp add: m')
      from leak_freeD(2) [OF inv this g(2)] show ?thesis
        unfolding owner_def close_pending_def using keep by (fastforce simp: m')
    qed
  qed
qed

lemma leak_remove:
  assumes inv: "leak_free s"
    and m': "m' = (sy_m s)\<lparr>m_leases := gm_del i (m_leases (sy_m s))\<rparr>"
    and ts: "\<And>sp. gm_get (m_leases (sy_m s)) i = Some sp \<Longrightarrow> CloseForwardOf sp \<in> set ts"
  shows "leak_free (s\<lparr>sy_m := m', sy_todo := sy_todo s @ ts\<rparr>)"
proof (rule leak_freeI; simp)
  fix j sp assume "gm_get (m_leases m') j = Some sp"
  then show "\<exists>y. m_states m' sp = Some y"
    using leak_freeD(1) [OF inv, of j sp] by (simp add: m' gomap_simps split: if_splits)
next
  let ?m = "sy_m s"
  fix fp f assume f: "m_forwards m' fp = Some f" "\<not> f_closeOnce f"
  then have "m_forwards ?m fp = Some f" by (simp add: m')
  from leak_freeD(2) [OF inv this f(2)] show "owner m' fp \<or> close_pending m' (sy_todo s @ ts) fp"
  proof
    assume own: "owner ?m fp"
    show ?thesis
    proof (cases "gm_get (m_leases ?m) i")
      case None
      from own obtain j sp st where o: "gm_get (m_leases ?m) j = Some sp" "m_states ?m sp = Some st" "ls_forward st = Some fp"
        by (auto simp: owner_def)
      with None have "j \<noteq> i" by auto
      then have "owner m' fp" using o by (auto simp: owner_def m' gomap_simps intro!: exI [of _ j])
      then show ?thesis ..
    next
      case (Some sp)
      then obtain st where st: "m_states ?m sp = Some st" using leak_freeD(1) [OF inv Some] by blast
      from owner_removed [OF own Some st] show ?thesis
        using ts [OF Some] st by (auto simp: m' close_pending_def)
    qed
  next
    assume "close_pending ?m (sy_todo s) fp"
    then show ?thesis by (auto simp: close_pending_def m')
  qed
qed

lemma leak_teardown:
  assumes "leak_free s" "Teardown_cs i (sy_m s) = (ts, m')"
  shows "leak_free (s\<lparr>sy_m := m', sy_todo := sy_todo s @ ts\<rparr>)"
proof (rule leak_remove [OF assms(1)])
  show "m' = (sy_m s)\<lparr>m_leases := gm_del i (m_leases (sy_m s))\<rparr>"
    using assms(2) by (auto simp: Teardown_cs_def Let_def split: option.splits)
  show "CloseForwardOf sp \<in> set ts" if "gm_get (m_leases (sy_m s)) i = Some sp" for sp
    using assms(2) that leak_freeD(1) [OF assms(1) that] by (auto simp: Teardown_cs_def Let_def)
qed

lemma leak_onclose:
  assumes "leak_free s" "OnConnClosed_cs i c (sy_m s) = (ts, m')"
  shows "leak_free (s\<lparr>sy_m := m', sy_todo := sy_todo s @ ts\<rparr>)"
proof (cases rule: OnConnClosed_cases [of i c "sy_m s"])
  case nothing
  then show ?thesis using assms by simp
next
  case (removed sp st)
  then have "m' = (sy_m s)\<lparr>m_leases := gm_del i (m_leases (sy_m s))\<rparr>" "ts = [CloseForwardOf sp]" using assms(2) by simp_all
  then show ?thesis using removed(1) by (intro leak_remove [OF assms(1)]) auto
qed

lemma leak_cancel:
  assumes inv: "leak_free s" and run: "CancelForward_cs i c (sy_m s) = (ts, m')"
  shows "leak_free (s\<lparr>sy_m := m', sy_todo := sy_todo s @ ts\<rparr>)"
proof (cases rule: CancelForward_cases [of i c "sy_m s"])
  case nothing
  then show ?thesis using run inv by simp
next
  case (cancelled sp0 st0 fp0)
  let ?m = "sy_m s"
  obtain sp st fp where sp: "gm_get (m_leases ?m) i = Some sp" "m_states ?m sp = Some st"
    "ls_forward st = Some fp" "ts = [CloseForward fp]" "m' = upd_state sp (st\<lparr>ls_forward := None\<rparr>) ?m"
    using cancelled run by simp
  show ?thesis
  proof (rule leak_freeI; simp)
    fix j sq assume "gm_get (m_leases m') j = Some sq"
    then show "\<exists>y. m_states m' sq = Some y" using leak_freeD(1) [OF inv, of j sq] by (auto simp: sp)
  next
    fix gp g assume g: "m_forwards m' gp = Some g" "\<not> f_closeOnce g"
    then have "m_forwards ?m gp = Some g" by (simp add: sp)
    note old = leak_freeD(2) [OF inv this g(2)]
    have other: "m_states m' sq = Some su" if "m_states ?m sq = Some su" "ls_forward su = Some gp" "gp \<noteq> fp" for sq su
      using that sp by auto
    show "owner m' gp \<or> close_pending m' (sy_todo s @ ts) gp"
    proof (cases "gp = fp")
      case True
      then show ?thesis by (simp add: close_pending_def sp)
    next
      case False
      have same: "m_leases m' = m_leases ?m" by (simp add: sp)
      from old show ?thesis
      proof
        assume "owner ?m gp"
        then have "owner m' gp" unfolding owner_def same using other False by blast
        then show ?thesis ..
      next
        assume "close_pending ?m (sy_todo s) gp"
        then have "close_pending m' (sy_todo s @ ts) gp"
          unfolding close_pending_def set_append using other False by blast
        then show ?thesis ..
      qed
    qed
  qed
qed

lemma task_keeps [simp]: "m_states (run_task t m) = m_states m"
  by (simp add: run_task_def forward_close_def split: task.splits option.splits)

lemma task_forwards:
  assumes "m_forwards (run_task t m) fp = Some f" "\<not> f_closeOnce f"
  shows "m_forwards m fp = Some f \<and> t \<noteq> CloseForward fp
    \<and> (\<forall>sp st. t = CloseForwardOf sp \<longrightarrow> m_states m sp = Some st \<longrightarrow> ls_forward st \<noteq> Some fp)"
  using assms
  by (cases t) (auto simp: run_task_def forward_close_eq closed_forward_def split: option.splits if_splits)

lemma todo_rest:
  assumes "k < length ts" "t \<in> set ts" "t \<noteq> ts ! k"
  shows "t \<in> set (take k ts @ drop (Suc k) ts)"
proof -
  have "ts = take k ts @ ts ! k # drop (Suc k) ts" using assms(1) by (rule id_take_nth_drop)
  with assms(2,3) show ?thesis by (metis Un_iff set_append set_ConsD)
qed

lemma leak_tail:
  assumes inv: "leak_free s" and k: "k < length (sy_todo s)"
  shows "leak_free (s\<lparr>sy_m := run_task (sy_todo s ! k) (sy_m s), sy_todo := take k (sy_todo s) @ drop (Suc k) (sy_todo s)\<rparr>)"
proof (rule leak_freeI; simp)
  let ?t = "sy_todo s ! k" and ?m = "sy_m s"
  fix j sq assume "gm_get (m_leases ?m) j = Some sq"
  then show "\<exists>y. m_states ?m sq = Some y" using leak_freeD(1) [OF inv] by auto
next
  let ?t = "sy_todo s ! k" and ?m = "sy_m s"
  fix fp f assume f: "m_forwards (run_task ?t ?m) fp = Some f" "\<not> f_closeOnce f"
  note tf = task_forwards [OF f]
  from leak_freeD(2) [OF inv _ f(2)] tf have "owner ?m fp \<or> close_pending ?m (sy_todo s) fp" by blast
  then show "owner (run_task ?t ?m) fp \<or> close_pending (run_task ?t ?m) (take k (sy_todo s) @ drop (Suc k) (sy_todo s)) fp"
  proof
    assume "owner ?m fp"
    then show ?thesis by (simp add: owner_def)
  next
    assume "close_pending ?m (sy_todo s) fp"
    then show ?thesis
      unfolding close_pending_def task_keeps using tf todo_rest [OF k] by metis
  qed
qed

lemma step_keeps_forward:
  assumes "visitor_step env v m = (v', m')"
  shows "m_leases m' = m_leases m"
    "map_option ls_forward (m_states m' sp) = map_option ls_forward (m_states m sp)"
    "map_option f_closeOnce (m_forwards m' fp) = map_option f_closeOnce (m_forwards m fp)"
proof -
  have "m_leases m' = m_leases m \<and> map_option ls_forward (m_states m' sp) = map_option ls_forward (m_states m sp)
    \<and> map_option f_closeOnce (m_forwards m' fp) = map_option f_closeOnce (m_forwards m fp)"
    using assms
    by (cases "v_pc v")
      (auto simp: visitor_step_def handleVisitor_step_def trackVisitor_def setVisitorChannel_def untrackVisitor_def
        run_deferred_def add_in_def add_out_def split: option.splits if_splits sum.splits list.splits deferred.splits)
  then show "m_leases m' = m_leases m"
    "map_option ls_forward (m_states m' sp) = map_option ls_forward (m_states m sp)"
    "map_option f_closeOnce (m_forwards m' fp) = map_option f_closeOnce (m_forwards m fp)" by simp_all
qed


lemma owner_keeps:
  assumes "m_leases m' = m_leases m" "\<And>sp. map_option ls_forward (m_states m' sp) = map_option ls_forward (m_states m sp)"
  shows "owner m' fp = owner m fp" "close_pending m' ts fp = close_pending m ts fp"
proof -
  have st: "(\<exists>st. m_states m' sp = Some st \<and> ls_forward st = Some fp) \<longleftrightarrow>
      (\<exists>st. m_states m sp = Some st \<and> ls_forward st = Some fp)" for sp
    using assms(2) [of sp] by (cases "m_states m' sp"; cases "m_states m sp") auto
  show "owner m' fp = owner m fp" unfolding owner_def assms(1) using st by blast
  show "close_pending m' ts fp = close_pending m ts fp" unfolding close_pending_def using st by blast
qed

lemma leak_visit:
  assumes inv: "leak_free s" and step: "visitor_step env v (sy_m s) = (v', m')"
  shows "leak_free (s\<lparr>sy_m := m', sy_vs := vs\<rparr>)"
proof (rule leak_freeI; simp)
  note keep = step_keeps_forward [OF step]
  fix i sp assume "gm_get (m_leases m') i = Some sp"
  then have "m_states (sy_m s) sp \<noteq> None" using leak_freeD(1) [OF inv] by (simp add: keep(1))
  then show "\<exists>y. m_states m' sp = Some y" using keep(2) [of sp] by (cases "m_states m' sp") auto
next
  note keep = step_keeps_forward [OF step]
  fix fp f assume f: "m_forwards m' fp = Some f" "\<not> f_closeOnce f"
  then obtain g where "m_forwards (sy_m s) fp = Some g" "\<not> f_closeOnce g"
    using keep(3) [of fp] by (cases "m_forwards (sy_m s) fp") auto
  from leak_freeD(2) [OF inv this] show "owner m' fp \<or> close_pending m' (sy_todo s) fp"
    by (simp add: owner_keeps [OF keep(1,2)])
qed

lemma leak_step:
  assumes "sys_step get s s'" "leak_free s" "heap_ok (sy_m s)"
  shows "leak_free s'"
  using assms(1)
proof cases
  case (register now conn i ok ts m')
  then show ?thesis using leak_register [OF assms(2,3)] by simp
next
  case (start now listen conn i b p r m')
  then show ?thesis using leak_start [OF assms(2,3)] by simp
next
  case (teardown i ts m')
  then show ?thesis using leak_teardown [OF assms(2)] by simp
next
  case (cancel i c ts m')
  then show ?thesis using leak_cancel [OF assms(2)] by simp
next
  case (onclose i c ts m')
  then show ?thesis using leak_onclose [OF assms(2)] by simp
next
  case (tail k)
  then show ?thesis using leak_tail [OF assms(2)] by simp
next
  case (hangup c)
  then show ?thesis using assms(2) by (simp add: leak_free_def close_pending_def)
next
  case (spawn sp fp vc a)
  then show ?thesis using assms(2) by (simp add: leak_free_def)
next
  case (visit k env v' m')
  then show ?thesis using leak_visit [OF assms(2)] by simp
qed

lemma leak_init: "leak_free (sys_init n)"
  by (simp add: leak_free_def sys_init_def NewManager_def)


section \<open>Store, coordinator and manager together\<close>

text \<open>
  \<open>li_down\<close> holds the identifiers whose lease has left the store and whose \<open>Teardown\<close> the
  coordinator has still to call: \<open>RevokeLease\<close> and \<open>SweepExpired\<close> change the store first and
  call the manager afterwards, without a lock around both.
\<close>

record 'db life =
  li_store :: "'db Store"
  li_sys :: sys
  li_down :: "string list"

inductive life_step :: "'db bolt \<Rightarrow> codec \<Rightarrow> 'db life \<Rightarrow> 'db life \<Rightarrow> bool" for B J where
  create: "params_wire p \<Longrightarrow> token_fresh rnd (li_store s) \<Longrightarrow> Create B J probe rnd now p (li_store s) = (r, st') \<Longrightarrow>
     life_step B J s (s\<lparr>li_store := st'\<rparr>)"
| extend: "Extend B J i d (li_store s) = (r, st') \<Longrightarrow> life_step B J s (s\<lparr>li_store := st'\<rparr>)"
| revoke: "Revoke B i (li_store s) = (e, st') \<Longrightarrow>
     life_step B J s (s\<lparr>li_store := st', li_down := (if e = None then i # li_down s else li_down s)\<rparr>)"
| expire: "MarkExpiredIfBefore B i cutoff (li_store s) = ((wasExpired, removed, err), st') \<Longrightarrow>
     life_step B J s (s\<lparr>li_store := st', li_down := (if wasExpired then i # li_down s else li_down s)\<rparr>)"
| pull: "i \<in> set (li_down s) \<Longrightarrow> Teardown_cs i (sy_m (li_sys s)) = (ts, m') \<Longrightarrow>
     life_step B J s (s\<lparr>li_sys := (li_sys s)\<lparr>sy_m := m', sy_todo := sy_todo (li_sys s) @ ts\<rparr>,
       li_down := remove1 i (li_down s)\<rparr>)"
| serve: "sys_step (Get (li_store s)) (li_sys s) y \<Longrightarrow> life_step B J s (s\<lparr>li_sys := y\<rparr>)"

inductive_cases life_step_cases: "life_step B J s s'"

inductive life_reach :: "'db bolt \<Rightarrow> codec \<Rightarrow> 'db life \<Rightarrow> bool" for B J where
  boot: "store_inv B J st \<Longrightarrow> life_reach B J \<lparr>li_store = st, li_sys = sys_init n, li_down = []\<rparr>"
| step: "life_reach B J s \<Longrightarrow> life_step B J s s' \<Longrightarrow> life_reach B J s'"

definition life_inv :: "'db bolt \<Rightarrow> codec \<Rightarrow> 'db life \<Rightarrow> bool" where
  "life_inv B J s \<longleftrightarrow> store_inv B J (li_store s) \<and> vis_inv (li_sys s) \<and> leak_free (li_sys s)
     \<and> (\<forall>i. gm_get (m_leases (sy_m (li_sys s))) i \<noteq> None \<longrightarrow> Get (li_store s) i \<noteq> None \<or> i \<in> set (li_down s))"

text \<open>The entries of the manager grow only by a registration, which the store has confirmed.\<close>

lemma step_leases:
  assumes "sys_step get s s'" "gm_get (m_leases (sy_m s')) i \<noteq> None"
  shows "gm_get (m_leases (sy_m s)) i \<noteq> None \<or> get i \<noteq> None"
  using assms(1)
proof cases
  case (register now conn j ok ts m')
  then show ?thesis using assms(2)
    by (auto simp: RegisterConn_cs_def lease_live_def Let_def gomap_simps upd_state_def split: option.splits if_splits)
next
  case (start now listen conn j b p r m')
  then show ?thesis using assms(2)
    by (cases rule: StartForward_cases [of get now listen conn j b p "sy_m s"]) (auto simp: upd_state_def upd_forward_def)
next
  case (teardown j ts m')
  then show ?thesis using assms(2)
    by (auto simp: Teardown_cs_def Let_def gomap_simps split: option.splits if_splits)
next
  case (cancel j c ts m')
  then show ?thesis using assms(2)
    by (cases rule: CancelForward_cases [of j c "sy_m s"]) (auto simp: upd_state_def)
next
  case (onclose j c ts m')
  then show ?thesis using assms(2)
    by (cases rule: OnConnClosed_cases [of j c "sy_m s"]) (auto simp: gomap_simps split: if_splits)
next
  case (visit k env v' m')
  then show ?thesis using assms(2) step_keeps_forward(1) by auto
qed (use assms(2) in auto)


lemma life_invI:
  assumes "store_inv B J (li_store s)" "vis_inv (li_sys s)" "leak_free (li_sys s)"
    "\<And>i. gm_get (m_leases (sy_m (li_sys s))) i \<noteq> None \<Longrightarrow> Get (li_store s) i \<noteq> None \<or> i \<in> set (li_down s)"
  shows "life_inv B J s"
  using assms unfolding life_inv_def by blast

lemma life_invD:
  assumes "life_inv B J s"
  shows "store_inv B J (li_store s)" "vis_inv (li_sys s)" "leak_free (li_sys s)"
    "gm_get (m_leases (sy_m (li_sys s))) i \<noteq> None \<Longrightarrow> Get (li_store s) i \<noteq> None \<or> i \<in> set (li_down s)"
  using assms unfolding life_inv_def by blast+

lemma create_grows:
  assumes "store_inv B J s" "bolt_ok B" "codec_ok J" "params_wire p" "token_fresh rnd s"
    "Create B J probe rnd now p s = (r, s')" "Get s i \<noteq> None"
  shows "Get s' i \<noteq> None"
proof (cases r)
  case (Inl e)
  then show ?thesis using create_error [OF assms(1,2)] assms(6,7) by (simp add: same_leases_def)
next
  case (Inr l)
  show ?thesis
  proof (cases "Get s (cp_LeaseID p)")
    case None
    then show ?thesis using create_new(2) [OF assms(1-5) None] assms(6,7) Inr by simp
  next
    case (Some l0)
    then show ?thesis using assms(6,7) by (simp add: Create_def)
  qed
qed

lemma extend_grows:
  assumes "store_inv B J s" "bolt_ok B" "codec_ok J" "Extend B J j d s = (r, s')" "Get s i \<noteq> None"
  shows "Get s' i \<noteq> None"
proof (cases r)
  case (Inl e)
  then show ?thesis using extend_error [OF assms(1,2)] assms(4,5) by (simp add: same_leases_def)
next
  case (Inr l)
  then show ?thesis using extend_ok(3) [OF assms(1-3)] assms(4,5) by simp
qed

lemma remove_get:
  assumes "store_inv B J s" "bolt_ok B" "remove B j s = (e, s')"
  shows "Get s' = (if e = None then (Get s)(j := None) else Get s)"
  using remove_ok(3) [OF assms(1,2)] remove_error [OF assms(1,2)] assms(3) by (cases e) (auto simp: same_leases_def)

lemma life_inv_store:
  assumes "life_inv B J s" "store_inv B J st'" "\<And>i. Get (li_store s) i \<noteq> None \<Longrightarrow> Get st' i \<noteq> None \<or> i \<in> set ds"
    "set (li_down s) \<subseteq> set ds"
  shows "life_inv B J (s\<lparr>li_store := st', li_down := ds\<rparr>)"
  using assms life_invD [OF assms(1)] by (intro life_invI) (auto, blast)

lemma life_inv_step:
  assumes "life_step B J s s'" "life_inv B J s" "bolt_ok B" "codec_ok J"
  shows "life_inv B J s'"
proof -
  note inv = life_invD [OF assms(2)]
  from assms(1) show ?thesis
  proof cases
    case (create p rnd probe now r st')
    have "life_inv B J (s\<lparr>li_store := st', li_down := li_down s\<rparr>)"
      using create_grows [OF inv(1) assms(3,4) create(2-4)] create_inv [OF inv(1) assms(3,4) create(2-4)]
      by (intro life_inv_store [OF assms(2)]) auto
    then show ?thesis using create(1) by simp
  next
    case (extend i d r st')
    have "life_inv B J (s\<lparr>li_store := st', li_down := li_down s\<rparr>)"
      using extend_grows [OF inv(1) assms(3,4) extend(2)] extend_inv [OF inv(1) assms(3,4) extend(2)]
      by (intro life_inv_store [OF assms(2)]) auto
    then show ?thesis using extend(1) by simp
  next
    case (revoke i e st')
    note rem = revoke(2) [unfolded Revoke_def]
    show ?thesis
      unfolding revoke(1) using remove_get [OF inv(1) assms(3) rem] remove_inv [OF inv(1) assms(3) rem]
      by (intro life_inv_store [OF assms(2)]) auto
  next
    case (expire i cutoff was removed err st')
    note spec = mark_expired_spec [OF inv(1) assms(3) expire(2)]
    show ?thesis
      unfolding expire(1) using spec(3,4) by (intro life_inv_store [OF assms(2) spec(1)]) auto
  next
    case (pull i ts m')
    let ?y = "(li_sys s)\<lparr>sy_m := m', sy_todo := sy_todo (li_sys s) @ ts\<rparr>"
    have st: "sys_step (Get (li_store s)) (li_sys s) ?y" by (rule sys_step.teardown [OF pull(3)])
    have hp: "heap_ok (sy_m (li_sys s))" using inv(2) by (simp add: vis_inv_def)
    have m': "gm_get (m_leases m') j = (if j = i then None else gm_get (m_leases (sy_m (li_sys s))) j)" for j
      using pull(3) by (auto simp: Teardown_cs_def Let_def gomap_simps split: option.splits)
    show ?thesis
      unfolding pull(1) using inv(1) vis_inv_step [OF st inv(2)] leak_step [OF st inv(3) hp] inv(4)
      by (intro life_invI) (auto simp: m' split: if_splits)
  next
    case (serve y)
    have hp: "heap_ok (sy_m (li_sys s))" using inv(2) by (simp add: vis_inv_def)
    show ?thesis
      unfolding serve(1)
      using inv(1) vis_inv_step [OF serve(2) inv(2)] leak_step [OF serve(2) inv(3) hp] inv(4) step_leases [OF serve(2)]
      by (intro life_invI) (auto, blast)
  qed
qed

lemma life_reach_inv: "life_reach B J s \<Longrightarrow> bolt_ok B \<Longrightarrow> codec_ok J \<Longrightarrow> life_inv B J s"
proof (induction rule: life_reach.induct)
  case (boot st n)
  then show ?case using vis_inv_init leak_init
    by (intro life_invI) (simp_all add: sys_init_def NewManager_def)
next
  case (step s s')
  then show ?case using life_inv_step by blast
qed


section \<open>Properties\<close>

text \<open>
  (C7) No orphaned listener. However API calls, the sweeper, SSH connections, visitors and the
  deferred work of each interleave, a public listener that is still open is the forward of some
  registered lease that is in the store or whose teardown the coordinator is about to call, or
  its close is among the pending tasks. In particular, when nothing is pending, every open
  listener belongs to a lease in the store: a revoked or expired lease leaves no port open.
\<close>

theorem no_orphan_listener:
  assumes "life_reach B J s" "bolt_ok B" "codec_ok J"
    "m_forwards (sy_m (li_sys s)) fp = Some f" "\<not> f_closeOnce f"
  shows "close_pending (sy_m (li_sys s)) (sy_todo (li_sys s)) fp
    \<or> (\<exists>i sp st. gm_get (m_leases (sy_m (li_sys s))) i = Some sp \<and> m_states (sy_m (li_sys s)) sp = Some st
         \<and> ls_forward st = Some fp \<and> (Get (li_store s) i \<noteq> None \<or> i \<in> set (li_down s)))"
proof -
  note inv = life_invD [OF life_reach_inv [OF assms(1-3)]]
  from leak_freeD(2) [OF inv(3) assms(4,5)] show ?thesis
  proof
    assume "owner (sy_m (li_sys s)) fp"
    then obtain i sp st where o: "gm_get (m_leases (sy_m (li_sys s))) i = Some sp"
      "m_states (sy_m (li_sys s)) sp = Some st" "ls_forward st = Some fp" by (auto simp: owner_def)
    then have "Get (li_store s) i \<noteq> None \<or> i \<in> set (li_down s)" using inv(4) [of i] by simp
    with o show ?thesis by blast
  qed simp
qed

text \<open>A daemon on the reference store: connection 7 serves the lease on listener 3.\<close>

definition demo_boot :: "memdb life" where
  "demo_boot = \<lparr>li_store = ref_store1, li_sys = sys_init 1, li_down = []\<rparr>"

definition demo_life :: "memdb life" where
  "demo_life = demo_boot\<lparr>li_sys := do_start (Get ref_store1) 1 3 7 ''a'' (do_register (Get ref_store1) 1 7 ''a'' (sys_init 1))\<rparr>"

lemma demo_life_reach: "life_reach mem_bolt ref_codec demo_life"
proof -
  have 0: "life_reach mem_bolt ref_codec demo_boot"
    unfolding demo_boot_def by (rule life_reach.boot [OF ref_store1_inv])
  let ?y = "do_register (Get ref_store1) 1 7 ''a'' (sys_init 1)"
  have "life_step mem_bolt ref_codec demo_boot (demo_boot\<lparr>li_sys := ?y\<rparr>)"
    by (rule life_step.serve) (simp add: demo_boot_def do_steps)
  note 1 = life_reach.step [OF 0 this]
  have "life_step mem_bolt ref_codec (demo_boot\<lparr>li_sys := ?y\<rparr>)
      ((demo_boot\<lparr>li_sys := ?y\<rparr>)\<lparr>li_sys := do_start (Get ref_store1) 1 3 7 ''a'' ?y\<rparr>)"
    by (rule life_step.serve) (simp add: demo_boot_def do_steps)
  from life_reach.step [OF 1 this] show ?thesis by (simp add: demo_life_def)
qed

definition demo_life_fwd :: forward where
  "demo_life_fwd = demo_fwd\<lparr>f_allowNets := parseCIDRs [''10.0.0.0/8''], f_allowlistSet := True\<rparr>"

lemma demo_life_sys: "li_sys demo_life = demo_forward\<lparr>sy_m := (sy_m demo_forward)\<lparr>m_forwards := [1 \<mapsto> demo_life_fwd]\<rparr>\<rparr>"
  by (simp add: demo_life_def demo_forward_eq do_register_def do_start_def RegisterConn_cs_def StartForward_def sys_init_def
      NewManager_def lease_live_def ref_store1_get ref_lease_def Expired_def time_Before_def upd_state_def upd_forward_def
      new_state_def demo_fwd_def demo_life_fwd_def Let_def)

theorem no_orphan_listener_witness:
  "\<exists>i. gm_get (m_leases (sy_m (li_sys demo_life))) i = Some 0 \<and> Get (li_store demo_life) i \<noteq> None"
proof -
  have f: "m_forwards (sy_m (li_sys demo_life)) 1 = Some demo_life_fwd" "\<not> f_closeOnce demo_life_fwd"
    by (simp_all add: demo_life_sys demo_life_fwd_def demo_fwd_def)
  have "\<not> close_pending (sy_m (li_sys demo_life)) (sy_todo (li_sys demo_life)) 1"
    by (simp add: demo_life_sys demo_forward_eq close_pending_def)
  moreover have "li_down demo_life = []" by (simp add: demo_life_def demo_boot_def)
  ultimately show ?thesis
    using no_orphan_listener [OF demo_life_reach mem_bolt_ok ref_codec_ok f]
    by (auto simp: demo_life_sys demo_forward_eq split: if_splits)
qed

end
