(* ===== verification/Limiter.thy ===== *)
theory Limiter
  imports Prelude
begin

text \<open>
  The per-source rate limiter of the SSH front door (\<open>src/internal/tunnel/sshd/limiter.go\<close>).
  The clock reading is an argument. The counters are reached only through the map, so they are
  values of it. The main theorem bounds the attempts accepted from one source in any interval of
  one window's length, whatever other sources do in between.
\<close>

section \<open>Model\<close>

definition authCleanupInterval :: duration where "authCleanupInterval = 5 * Second"
definition authHardCap :: nat where "authHardCap = 65536"

record windowCounter =
  wc_count :: int
  wc_start :: time

record authLimiter =
  al_max :: int
  al_window :: duration
  al_seen :: "(string, windowCounter) gomap"
  al_lastCleanup :: time

definition newAuthLimiter :: "int \<Rightarrow> duration \<Rightarrow> authLimiter" where
  "newAuthLimiter mx window = \<lparr>al_max = mx, al_window = window, al_seen = [], al_lastCleanup = 0\<rparr>"

definition maybeCleanup :: "time \<Rightarrow> authLimiter \<Rightarrow> authLimiter" where
  "maybeCleanup now a =
     (if time_Sub now (al_lastCleanup a) < authCleanupInterval then a
      else a\<lparr>al_lastCleanup := now,
             al_seen := filter (\<lambda>(k, w). \<not> time_Sub now (wc_start w) > al_window a) (al_seen a)\<rparr>)"

definition allow :: "time \<Rightarrow> string \<Rightarrow> authLimiter \<Rightarrow> bool \<times> authLimiter" where
  "allow now ip a0 =
     (let a = maybeCleanup now a0; w = gm_get (al_seen a) ip in
      case w of
        Some c \<Rightarrow>
          if time_Sub now (wc_start c) \<le> al_window a then
            (if wc_count c \<ge> al_max a then (False, a)
             else (True, a\<lparr>al_seen := gm_put ip (c\<lparr>wc_count := wc_count c + 1\<rparr>) (al_seen a)\<rparr>))
          else (True, a\<lparr>al_seen := gm_put ip \<lparr>wc_count = 1, wc_start = now\<rparr> (al_seen a)\<rparr>)
      | None \<Rightarrow>
          if length (al_seen a) \<ge> authHardCap then (False, a)
          else (True, a\<lparr>al_seen := gm_put ip \<lparr>wc_count = 1, wc_start = now\<rparr> (al_seen a)\<rparr>))"

text \<open>A run: the attempts in the order in which they take the lock, with their answers.\<close>

fun allow_run :: "(time \<times> string) list \<Rightarrow> authLimiter \<Rightarrow> bool list" where
  "allow_run [] a = []"
| "allow_run ((now, ip) # es) a = (case allow now ip a of (r, a') \<Rightarrow> r # allow_run es a')"

fun allow_after :: "(time \<times> string) list \<Rightarrow> authLimiter \<Rightarrow> authLimiter" where
  "allow_after [] a = a"
| "allow_after ((now, ip) # es) a = allow_after es (snd (allow now ip a))"

section \<open>Invariant\<close>

definition cap_of :: "authLimiter \<Rightarrow> int" where
  "cap_of a = max 1 (al_max a)"

definition lim_inv :: "authLimiter \<Rightarrow> bool" where
  "lim_inv a \<longleftrightarrow> gm_wf (al_seen a) \<and> length (al_seen a) \<le> authHardCap
     \<and> (\<forall>k w. gm_get (al_seen a) k = Some w \<longrightarrow> 1 \<le> wc_count w \<and> wc_count w \<le> cap_of a)"

lemma cleanup_frame [simp]:
  "al_max (maybeCleanup now a) = al_max a" "al_window (maybeCleanup now a) = al_window a"
  "cap_of (maybeCleanup now a) = cap_of a"
  by (simp_all add: maybeCleanup_def cap_of_def)

lemma cleanup_get:
  assumes "gm_wf (al_seen a)"
  shows "gm_get (al_seen (maybeCleanup now a)) k = gm_get (al_seen a) k \<or>
    (gm_get (al_seen (maybeCleanup now a)) k = None \<and>
      (\<exists>w. gm_get (al_seen a) k = Some w \<and> time_Sub now (wc_start w) > al_window a))"
  using assms by (auto simp: maybeCleanup_def gm_get_filter split: option.splits)

lemma cleanup_inv:
  assumes "lim_inv a"
  shows "lim_inv (maybeCleanup now a)"
proof -
  have wf: "gm_wf (al_seen a)" using assms by (simp add: lim_inv_def)
  have sub: "gm_get (al_seen (maybeCleanup now a)) k = Some w \<Longrightarrow> gm_get (al_seen a) k = Some w" for k w
    using cleanup_get [OF wf, of now k] by auto
  have "length (al_seen (maybeCleanup now a)) \<le> length (al_seen a)"
    by (simp add: maybeCleanup_def)
  moreover have "gm_wf (al_seen (maybeCleanup now a))" using wf by (simp add: maybeCleanup_def)
  ultimately show ?thesis using assms sub unfolding lim_inv_def by fastforce
qed

lemma seen_put_inv:
  assumes "lim_inv a" "1 \<le> wc_count w" "wc_count w \<le> cap_of a"
    "k \<in> gm_keys (al_seen a) \<or> length (al_seen a) < authHardCap"
  shows "lim_inv (a\<lparr>al_seen := gm_put k w (al_seen a)\<rparr>)"
proof -
  have wf: "gm_wf (al_seen a)" using assms(1) by (simp add: lim_inv_def)
  have "length (gm_put k w (al_seen a)) \<le> authHardCap"
    using assms(1,4) gm_length_put_old [OF wf, of k w] gm_length_put_new [OF wf, of k w]
    by (cases "k \<in> gm_keys (al_seen a)") (simp_all add: lim_inv_def)
  then show ?thesis using assms wf by (auto simp: lim_inv_def cap_of_def gomap_simps split: if_splits)
qed

lemma allow_inv:
  assumes "lim_inv a"
  shows "lim_inv (snd (allow now ip a))" "al_max (snd (allow now ip a)) = al_max a"
    "al_window (snd (allow now ip a)) = al_window a"
proof -
  let ?b = "maybeCleanup now a"
  note inv = cleanup_inv [OF assms, of now]
  have cnt: "1 \<le> wc_count w" if "gm_get (al_seen ?b) ip = Some w" for w using inv that by (simp add: lim_inv_def)
  have one: "1 \<le> cap_of ?b" by (simp add: cap_of_def)
  show "lim_inv (snd (allow now ip a))"
  proof (cases "gm_get (al_seen ?b) ip")
    case None
    then show ?thesis
      using inv one by (auto simp: allow_def Let_def intro!: seen_put_inv)
  next
    case (Some w)
    have key: "ip \<in> gm_keys (al_seen ?b)" using Some by (rule gm_get_in_keys)
    have "lim_inv (?b\<lparr>al_seen := gm_put ip \<lparr>wc_count = 1, wc_start = now\<rparr> (al_seen ?b)\<rparr>)"
      using inv one key by (intro seen_put_inv) simp_all
    moreover have "wc_count w < al_max a \<Longrightarrow>
        lim_inv (?b\<lparr>al_seen := gm_put ip (w\<lparr>wc_count := wc_count w + 1\<rparr>) (al_seen ?b)\<rparr>)"
      using inv key cnt [OF Some] by (intro seen_put_inv) (simp_all add: cap_of_def)
    ultimately show ?thesis using Some inv by (simp add: allow_def Let_def)
  qed
qed (auto simp: allow_def Let_def split: option.splits)

section \<open>The rate bound\<close>

definition accepted :: "time \<Rightarrow> time \<Rightarrow> string \<Rightarrow> (time \<times> string) list \<Rightarrow> bool list \<Rightarrow> int" where
  "accepted lo hi ip es rs =
     int (length (filter (\<lambda>((t, k), r). r \<and> k = ip \<and> lo \<le> t \<and> t \<le> hi) (zip es rs)))"

text \<open>
  What source \<open>ip\<close> can still be granted in the interval starting at \<open>T\<close>, when the clock
  shows \<open>now\<close>: a window opened before \<open>T\<close> may be used up and followed by one more.
\<close>

definition pot :: "time \<Rightarrow> time \<Rightarrow> authLimiter \<Rightarrow> string \<Rightarrow> int" where
  "pot T now a ip =
     (if now < T then 2 * cap_of a - 1
      else case gm_get (al_seen a) ip of
             None \<Rightarrow> cap_of a
           | Some w \<Rightarrow> if T \<le> wc_start w then cap_of a - wc_count w else 2 * cap_of a - wc_count w)"

definition sane_window :: "authLimiter \<Rightarrow> bool" where
  "sane_window a \<longleftrightarrow> 0 \<le> al_window a \<and> al_window a < 2 ^ 63 - 1"

lemma window_sub: "sane_window a \<Longrightarrow> time_Sub t u \<le> al_window a \<longleftrightarrow> t - u \<le> al_window a"
  by (rule time_Sub_le_iff) (auto simp: sane_window_def in_int64_def)

lemma lim_count: "lim_inv a \<Longrightarrow> gm_get (al_seen a) ip = Some w \<Longrightarrow> 1 \<le> wc_count w \<and> wc_count w \<le> cap_of a"
  by (simp add: lim_inv_def)

lemma pot_nonneg: "lim_inv a \<Longrightarrow> 0 \<le> pot T now a ip"
  using lim_count [of a ip] by (fastforce simp: pot_def cap_of_def split: option.splits)

lemma pot_later:
  assumes "lim_inv a" "now \<le> n"
  shows "pot T n a ip \<le> pot T now a ip"
proof -
  have "1 \<le> cap_of a" by (simp add: cap_of_def)
  then show ?thesis using assms lim_count [OF assms(1), of ip] by (fastforce simp: pot_def split: option.splits)
qed

lemma pot_cleanup:
  assumes "lim_inv a" "sane_window a" "n \<le> T + al_window a"
  shows "pot T n (maybeCleanup n a) ip \<le> pot T n a ip"
proof -
  have wf: "gm_wf (al_seen a)" using assms(1) by (simp add: lim_inv_def)
  from cleanup_get [OF wf, of n ip] show ?thesis
  proof
    assume "gm_get (al_seen (maybeCleanup n a)) ip = gm_get (al_seen a) ip"
    then show ?thesis by (simp add: pot_def split: option.splits)
  next
    assume "gm_get (al_seen (maybeCleanup n a)) ip = None \<and>
        (\<exists>w. gm_get (al_seen a) ip = Some w \<and> time_Sub n (wc_start w) > al_window a)"
    then obtain w where w: "gm_get (al_seen (maybeCleanup n a)) ip = None" "gm_get (al_seen a) ip = Some w"
      "\<not> time_Sub n (wc_start w) \<le> al_window a" by auto
    then have "wc_start w < T" using window_sub [OF assms(2)] assms(3) by force
    then show ?thesis using w lim_count [OF assms(1) w(2)] by (simp add: pot_def)
  qed
qed

lemma pot_step:
  assumes inv: "lim_inv a" and win: "sane_window a" and le: "now \<le> n" "n \<le> T + al_window a"
  shows "of_bool (fst (allow n k a) \<and> k = ip \<and> T \<le> n) + pot T n (snd (allow n k a)) ip \<le> pot T now a ip"
proof -
  let ?b = "maybeCleanup n a"
  note binv = cleanup_inv [OF inv, of n]
  have bwin: "sane_window ?b" using win by (simp add: sane_window_def)
  have one: "1 \<le> cap_of ?b" by (simp add: cap_of_def)
  have "of_bool (fst (allow n k a) \<and> k = ip \<and> T \<le> n) + pot T n (snd (allow n k a)) ip \<le> pot T n ?b ip"
  proof (cases "k = ip \<and> T \<le> n")
    case False
    then show ?thesis
      by (auto simp: allow_def Let_def pot_def cap_of_def gomap_simps split: option.splits)
  next
    case True
    show ?thesis
    proof (cases "gm_get (al_seen ?b) ip")
      case None
      then show ?thesis using True by (auto simp: allow_def Let_def pot_def cap_of_def gomap_simps)
    next
      case (Some w)
      note cnt = lim_count [OF binv Some]
      show ?thesis
      proof (cases "n - wc_start w \<le> al_window a")
        case in_window: True
        then have "time_Sub n (wc_start w) \<le> al_window a" using window_sub [OF win] by simp
        then show ?thesis
          using True Some cnt by (auto simp: allow_def Let_def pot_def cap_of_def gomap_simps)
      next
        case expired: False
        then have "\<not> time_Sub n (wc_start w) \<le> al_window a" using window_sub [OF win] by simp
        moreover have "wc_start w < T" using expired le(2) by simp
        ultimately show ?thesis
          using True Some cnt by (auto simp: allow_def Let_def pot_def cap_of_def gomap_simps)
      qed
    qed
  qed
  also have "\<dots> \<le> pot T n a ip" by (rule pot_cleanup [OF inv win le(2)])
  also have "\<dots> \<le> pot T now a ip" by (rule pot_later [OF inv le(1)])
  finally show ?thesis .
qed

lemma accepted_Cons:
  "accepted lo hi ip ((t, k) # es) (r # rs) = of_bool (r \<and> k = ip \<and> lo \<le> t \<and> t \<le> hi) + accepted lo hi ip es rs"
  by (simp add: accepted_def)

lemma accepted_late:
  assumes "\<And>t k. (t, k) \<in> set es \<Longrightarrow> hi < t"
  shows "accepted lo hi ip es rs = 0"
proof -
  have none: "filter (\<lambda>((t, k), r). r \<and> k = ip \<and> lo \<le> t \<and> t \<le> hi) (zip es rs) = []"
    using assms by (fastforce simp: filter_empty_conv dest: set_zip_leftD)
  show ?thesis unfolding accepted_def none by simp
qed

lemma run_bound:
  assumes "lim_inv a" "sane_window a" "sorted (map fst es)" "\<And>t k. (t, k) \<in> set es \<Longrightarrow> now \<le> t"
  shows "accepted T (T + al_window a) ip es (allow_run es a) \<le> pot T now a ip"
  using assms
proof (induction es arbitrary: a now)
  case Nil
  then show ?case using pot_nonneg by (simp add: accepted_def)
next
  case (Cons e es)
  obtain n k where e: "e = (n, k)" by (cases e)
  obtain r b where al: "allow n k a = (r, b)" by (cases "allow n k a")
  note inv = allow_inv [OF Cons.prems(1), of n k, unfolded al snd_conv]
  have win: "sane_window b" using Cons.prems(2) inv(3) by (simp add: sane_window_def)
  have later: "n \<le> t" if "(t, k') \<in> set es" for t k' using Cons.prems(3) that e by force
  show ?case
  proof (cases "n \<le> T + al_window a")
    case True
    have now: "now \<le> n" using Cons.prems(4) [of n k] e by simp
    have "sorted (map fst es)" using Cons.prems(3) by simp
    then have "accepted T (T + al_window b) ip es (allow_run es b) \<le> pot T n b ip"
      using Cons.IH [OF inv(1) win] later by blast
    moreover have "of_bool (r \<and> k = ip \<and> T \<le> n) + pot T n b ip \<le> pot T now a ip"
      using pot_step [OF Cons.prems(1,2) now True, of k ip] al by simp
    ultimately show ?thesis using True by (simp add: e al accepted_Cons inv(3))
  next
    case False
    then have "T + al_window a < t" if "(t, k') \<in> set (e # es)" for t k' using that e later by fastforce
    then have "accepted T (T + al_window a) ip (e # es) (allow_run (e # es) a) = 0" by (rule accepted_late)
    then show ?thesis using pot_nonneg [OF Cons.prems(1)] by simp
  qed
qed

section \<open>Properties\<close>

lemma new_lim_inv: "lim_inv (newAuthLimiter mx w)"
  by (simp add: lim_inv_def newAuthLimiter_def)

lemma allow_after_inv: "lim_inv a \<Longrightarrow> lim_inv (allow_after es a)"
  by (induction es arbitrary: a) (auto simp: allow_inv)

lemma rate_bound:
  assumes "1 \<le> mx" "0 \<le> window" "window < 2 ^ 63 - 1" "sorted (map fst es)"
  shows "accepted T (T + window) ip es (allow_run es (newAuthLimiter mx window)) \<le> 2 * mx - 1"
proof -
  let ?a = "newAuthLimiter mx window"
  define now where "now = (case es of [] \<Rightarrow> 0 | e # _ \<Rightarrow> min (fst e) (T - 1))"
  have "now \<le> t" if "(t, k) \<in> set es" for t k
    using assms(4) that by (cases es) (auto simp: now_def)
  moreover have "sane_window ?a" using assms by (simp add: sane_window_def newAuthLimiter_def)
  ultimately have "accepted T (T + al_window ?a) ip es (allow_run es ?a) \<le> pot T now ?a ip"
    using run_bound [OF new_lim_inv] assms(4) by blast
  also have "\<dots> \<le> 2 * mx - 1" using assms(1) by (simp add: pot_def cap_of_def newAuthLimiter_def)
  finally show ?thesis by (simp add: newAuthLimiter_def)
qed

text \<open>
  Bounded memory and no lock-out. After any sequence of attempts the map has at most
  65536 entries, one per source, and a source that is already tracked and still below its
  limit, or whose window is over, is admitted however full the map is.
\<close>

lemma auth_memory_bounded:
  "let a = allow_after es (newAuthLimiter mx window) in
     distinct (map fst (al_seen a)) \<and> length (al_seen a) \<le> 65536
     \<and> (case gm_get (al_seen (maybeCleanup now a)) ip of
           Some w \<Rightarrow> fst (allow now ip a) \<longleftrightarrow> al_window a < time_Sub now (wc_start w) \<or> wc_count w < al_max a
         | None \<Rightarrow> fst (allow now ip a) \<longleftrightarrow> length (al_seen (maybeCleanup now a)) < 65536)"
proof -
  let ?a = "allow_after es (newAuthLimiter mx window)"
  have "lim_inv ?a" by (rule allow_after_inv [OF new_lim_inv])
  then have "distinct (map fst (al_seen ?a)) \<and> length (al_seen ?a) \<le> 65536"
    by (simp add: lim_inv_def gm_wf_def authHardCap_def)
  then show ?thesis by (auto simp: Let_def allow_def authHardCap_def split: option.splits)
qed

text \<open>
  The comment in \<open>allow\<close> says that whatever is still present after the cleanup is within its
  window. The cleanup is skipped for five seconds after the last one, so the map can be full of
  expired entries and an unknown source is refused all the same.
\<close>

lemma stale_entries_refuse:
  "\<exists>a now. lim_inv a \<and> (\<forall>(k, w) \<in> set (al_seen (maybeCleanup now a)). al_window a < time_Sub now (wc_start w))
     \<and> ip \<notin> gm_keys (al_seen a) \<and> \<not> fst (allow now ip a)"
proof -
  let ?w = "\<lparr>wc_count = 1, wc_start = 0\<rparr>"
  let ?name = "\<lambda>i. replicate (Suc (length ip) + i) CHR ''a''"
  define m where "m = map (\<lambda>i. (?name i, ?w)) [0..<authHardCap]"
  let ?a = "\<lparr>al_max = 1, al_window = 60 * Second, al_seen = m, al_lastCleanup = 58 * Second\<rparr>"
  have "inj_on ?name {0..<authHardCap}" by (rule inj_onI) (metis add_left_cancel length_replicate)
  then have wf: "gm_wf m" by (simp add: m_def gm_wf_def comp_def distinct_map)
  have len: "length m = authHardCap" by (simp add: m_def)
  have ent: "w = ?w" if "(k, w) \<in> set m" for k w using that by (auto simp: m_def)
  then have "lim_inv ?a" using wf len by (fastforce simp: lim_inv_def cap_of_def dest: map_of_SomeD)
  moreover have cl: "maybeCleanup (61 * Second) ?a = ?a"
    by (simp add: maybeCleanup_def time_Sub_def authCleanupInterval_def Second_def)
  moreover have new: "ip \<notin> gm_keys m"
  proof
    assume "ip \<in> gm_keys m"
    then obtain i where "ip = ?name i" by (auto simp: m_def)
    then have "length ip = Suc (length ip) + i" by (metis length_replicate)
    then show False by simp
  qed
  moreover have "\<not> fst (allow (61 * Second) ip ?a)"
    using new len by (simp add: allow_def cl Let_def gm_get_None_iff [THEN iffD2])
  moreover have "\<forall>(k, w) \<in> set m. 60 * Second < time_Sub (61 * Second) (wc_start w)"
    using ent by (force simp: time_Sub_def Second_def)
  ultimately show ?thesis by (intro exI [of _ ?a] exI [of _ "61 * Second"]) simp
qed

end
