(* ===== verification/Sshd_Server.thy ===== *)
theory Sshd_Server
  imports Lifecycle Limiter "HOL-Library.Sublist"
begin

text \<open>
  The SSH intake (\<open>src/internal/tunnel/sshd/server.go\<close>): token authentication, the connection
  handler, the global requests, keepalives, the accept loop and the host key. The SSH library is
  a parameter: what a handshake does with the callbacks it is given, and the encodings of
  request payloads. What the lease store and the clock answer may differ at every point of a
  handler, so each step has its own \<open>moment\<close>.
\<close>

section \<open>The lease store as the server sees it\<close>

text \<open>
  The interface \<open>LeaseLookup\<close>: a token resolves to the lease it was minted for, which is the
  one found under its identifier.
\<close>

locale lease_lookup =
  fixes inv :: "'s \<Rightarrow> bool" and get :: "'s \<Rightarrow> string \<Rightarrow> Lease option" and byToken :: "'s \<Rightarrow> string \<Rightarrow> Lease option"
  assumes token_law: "inv s \<Longrightarrow> byToken s t = Some l \<longleftrightarrow> l_Token l = t \<and> get s (l_LeaseID l) = Some l"
    and id_law: "inv s \<Longrightarrow> get s i = Some l \<Longrightarrow> l_LeaseID l = i"
begin

lemma token_get: "inv s \<Longrightarrow> byToken s t = Some l \<Longrightarrow> get s (l_LeaseID l) = Some l"
  by (simp add: token_law)

lemma token_unique:
  assumes "inv s" "get s i = Some l" "get s j = Some m" "l_Token l = l_Token m"
  shows "i = j"
proof -
  have "byToken s (l_Token l) = Some l" "byToken s (l_Token l) = Some m"
    using assms id_law [OF assms(1)] by (auto simp: token_law)
  then show ?thesis using id_law [OF assms(1,2)] id_law [OF assms(1,3)] by simp
qed

lemma live_token_exists:
  assumes "inv s"
  shows "(\<exists>l. byToken s t = Some l \<and> P l) \<longleftrightarrow> (\<exists>i l. get s i = Some l \<and> l_Token l = t \<and> P l)"
  using assms id_law by (fastforce simp: token_law)

end

interpretation lookup: lease_lookup idx_inv Get ByToken
  by unfold_locales (simp_all add: ByToken_iff Get_fields(1))

text \<open>What the store and the clock answer at one moment.\<close>

record moment =
  mo_get :: "string \<Rightarrow> Lease option"
  mo_byToken :: "string \<Rightarrow> Lease option"
  mo_now :: time

definition store_moment :: "'db Store \<Rightarrow> time \<Rightarrow> moment" where
  "store_moment s now = \<lparr>mo_get = Get s, mo_byToken = ByToken s, mo_now = now\<rparr>"

section \<open>Model\<close>

record sshd_Config =
  sc_ListenAddr :: string
  sc_HostKeyPath :: string
  sc_EndpointHost :: string
  sc_SSHPort :: int
  sc_MaxVisitorConnsPerLease :: int
  sc_KeepaliveInterval :: duration
  sc_AuthAttemptsPerWindow :: int
  sc_AuthWindow :: duration

text \<open>\<open>sv_authFailures\<close> and \<open>sv_connected\<close> are the instruments the server drives.\<close>

record 'key Server =
  sv_cfg :: sshd_Config
  sv_signer :: 'key
  sv_manager :: Manager
  sv_limiter :: authLimiter
  sv_authFailures :: int
  sv_connected :: int

subsection \<open>Host key\<close>

text \<open>
  The outcomes of the calls \<open>loadOrCreateHostKey\<close> makes: whether \<open>os.ReadFile\<close> fails although
  the file is there, the generated key, its PKCS 8 and PEM encodings, and the write. A failed
  \<open>os.WriteFile\<close> may have created, truncated or partly written the file: with its error comes
  what is at the path afterwards.
\<close>

record ('priv, 'key) keyio =
  ki_readFails :: bool
  ki_parse :: "string \<Rightarrow> (string, 'key) result"
  ki_generate :: "(string, 'priv) result"
  ki_pkcs8 :: "'priv \<Rightarrow> (string, string) result"
  ki_pem :: "string \<Rightarrow> string"
  ki_writeErr :: "(string \<times> string option) option"

definition loadOrCreateHostKey ::
  "('priv, 'key) keyio \<Rightarrow> string \<Rightarrow> (string \<rightharpoonup> string) \<Rightarrow> (string, 'key) result \<times> (string \<rightharpoonup> string)" where
  "loadOrCreateHostKey K path fs =
     (case (if ki_readFails K then None else fs path) of
        Some content \<Rightarrow>
          (case ki_parse K content of
             Inl e \<Rightarrow> (Inl (''parse host key '' @ path @ '': '' @ e), fs)
           | Inr signer \<Rightarrow> (Inr signer, fs))
      | None \<Rightarrow>
          (case ki_generate K of
             Inl e \<Rightarrow> (Inl e, fs)
           | Inr priv \<Rightarrow>
               (case ki_pkcs8 K priv of
                  Inl e \<Rightarrow> (Inl e, fs)
                | Inr der \<Rightarrow>
                    (let pemBytes = ki_pem K der in
                     case ki_writeErr K of
                       Some (e, left) \<Rightarrow> (Inl (''persist host key '' @ path @ '': '' @ e), fs(path := left))
                     | None \<Rightarrow> (ki_parse K pemBytes, fs(path \<mapsto> pemBytes))))))"

definition New :: "('priv, 'key) keyio \<Rightarrow> sshd_Config \<Rightarrow> (string \<rightharpoonup> string) \<Rightarrow> (string, 'key Server) result \<times> (string \<rightharpoonup> string)" where
  "New K cfg fs =
     (case loadOrCreateHostKey K (sc_HostKeyPath cfg) fs of
        (Inl e, fs') \<Rightarrow> (Inl e, fs')
      | (Inr signer, fs') \<Rightarrow>
          (Inr \<lparr>sv_cfg = cfg, sv_signer = signer, sv_manager = NewManager (sc_MaxVisitorConnsPerLease cfg),
                sv_limiter = newAuthLimiter (sc_AuthAttemptsPerWindow cfg) (sc_AuthWindow cfg),
                sv_authFailures = 0, sv_connected = 0\<rparr>, fs'))"

text \<open>\<open>fp\<close>: the SHA-256 fingerprint of the key's public half.\<close>

definition HostKeyFingerprint :: "('key \<Rightarrow> string) \<Rightarrow> 'key Server \<Rightarrow> string" where
  "HostKeyFingerprint fp s = fp (sv_signer s)"

subsection \<open>Authentication\<close>

type_synonym Permissions = "(string, string) gomap"

definition authByToken :: "moment \<Rightarrow> string \<Rightarrow> 'key Server \<Rightarrow> (string, Permissions) result \<times> 'key Server" where
  "authByToken mo user s =
     (case mo_byToken mo user of
        None \<Rightarrow> (Inl ''invalid or expired lease token'', s\<lparr>sv_authFailures := sv_authFailures s + 1\<rparr>)
      | Some l \<Rightarrow>
          if Expired l (mo_now mo)
          then (Inl ''invalid or expired lease token'', s\<lparr>sv_authFailures := sv_authFailures s + 1\<rparr>)
          else (Inr [(''lease_id'', l_LeaseID l)], s))"

text \<open>The fields of the library's configuration; a callback that is \<open>None\<close> is a method not offered.\<close>

record 'key ServerConfig =
  gc_NoClientAuth :: bool
  gc_NoClientAuthCallback :: "moment \<Rightarrow> string \<Rightarrow> 'key Server \<Rightarrow> (string, Permissions) result \<times> 'key Server"
  gc_PasswordCallback :: "(moment \<Rightarrow> string \<Rightarrow> string \<Rightarrow> 'key Server \<Rightarrow> (string, Permissions) result \<times> 'key Server) option"
  gc_ServerVersion :: string
  gc_HostKeys :: "'key list"

definition serverConfig :: "'key Server \<Rightarrow> 'key ServerConfig" where
  "serverConfig s =
     \<lparr>gc_NoClientAuth = True, gc_NoClientAuthCallback = authByToken, gc_PasswordCallback = None,
      gc_ServerVersion = ''SSH-2.0-hyrule-tunnel'', gc_HostKeys = [sv_signer s]\<rparr>"


subsection \<open>Global requests\<close>

record Request =
  rq_Type :: string
  rq_WantReply :: bool
  rq_Payload :: "byte list"

text \<open>Encodings of the SSH library: the \<open>tcpip-forward\<close> payload and the port of a reply.\<close>

record sshwire =
  sw_Unmarshal :: "byte list \<Rightarrow> (string, string \<times> 32 word) result"
  sw_MarshalPort :: "32 word \<Rightarrow> byte list"

text \<open>The replies sent, \<open>(ok, payload)\<close>.\<close>

definition replyRequest :: "Request \<Rightarrow> bool \<Rightarrow> byte list \<Rightarrow> (bool \<times> byte list) list" where
  "replyRequest req ok payload = (if rq_WantReply req then [(ok, payload)] else [])"

datatype flow = Continue | Return

text \<open>One turn of the loop: the replies, whether the function goes on, and the manager.\<close>

definition handleGlobalRequest ::
  "sshwire \<Rightarrow> moment \<Rightarrow> (int \<Rightarrow> (string, nat) result) \<Rightarrow> nat \<Rightarrow> Lease \<Rightarrow> Request \<Rightarrow> Manager
   \<Rightarrow> ((bool \<times> byte list) list \<times> flow) \<times> Manager" where
  "handleGlobalRequest W mo listen sconn l req m =
     (if rq_Type req = ''tcpip-forward'' then
        (case sw_Unmarshal W (rq_Payload req) of
           Inl e \<Rightarrow> ((replyRequest req False [], Continue), m)
         | Inr (addr, port) \<Rightarrow>
             (case StartForward (mo_get mo) (mo_now mo) listen sconn (l_LeaseID l) addr port m of
                (Inl err, m') \<Rightarrow>
                  if err = ErrLeaseGone then ((replyRequest req False [], Return), log_close [HConn sconn] m')
                  else ((replyRequest req False [], Continue), m')
              | (Inr (assignedPort, _), m') \<Rightarrow>
                  ((if rq_WantReply req
                    then (if port = 0 then [(True, sw_MarshalPort W (word_of_int assignedPort))] else [(True, [])])
                    else [], Continue), m')))
      else if rq_Type req = ''cancel-tcpip-forward'' then
        ((replyRequest req True [], Continue), CancelForward (l_LeaseID l) sconn m)
      else ((replyRequest req False [], Continue), m))"

subsection \<open>Channels and keepalives\<close>

text \<open>Each offered channel type with the answer it gets.\<close>

datatype chan_answer = Reject string string

definition rejectChannels :: "string list \<Rightarrow> (string \<times> chan_answer) list" where
  "rejectChannels chans =
     map (\<lambda>c. (c, Reject ''Prohibited'' ''hyrule-tunnel accepts only remote (-R) port forwarding'')) chans"

text \<open>Which channel of \<open>sendKeepalive\<close> is ready first: the reply with its error, or the timer.\<close>

datatype ka_answer = Replied "string option" | TimedOut

fun sendKeepalive :: "ka_answer \<Rightarrow> string option" where
  "sendKeepalive (Replied err) = err"
| "sendKeepalive TimedOut = Some ''keepalive timed out''"

datatype ka_event = KaDone | KaTick ka_answer

datatype ka_result = KaWaiting int | KaReturned | KaClosed

fun keepalive_loop :: "int \<Rightarrow> ka_event list \<Rightarrow> ka_result" where
  "keepalive_loop misses [] = KaWaiting misses"
| "keepalive_loop misses (KaDone # es) = KaReturned"
| "keepalive_loop misses (KaTick a # es) =
     (if sendKeepalive a \<noteq> None then
        (let misses = misses + 1 in if misses \<ge> 3 then KaClosed else keepalive_loop misses es)
      else keepalive_loop 0 es)"

definition keepalive :: "duration \<Rightarrow> ka_event list \<Rightarrow> ka_result" where
  "keepalive interval es = (if interval \<le> 0 then KaReturned else keepalive_loop 0 es)"

subsection \<open>The connection handler\<close>

text \<open>
  Program points of \<open>handleConn\<close>: the handshake, the lookup of the lease, its registration, the
  loop of \<open>handleGlobalRequests\<close>, the two calls after it, and the return. A connection and the
  SSH connection on top of it share one handle.
\<close>

datatype hpc = HHandshake | HLookup string | HRegister string Lease | HServe string Lease | HClosed string | HReturned

record hconn =
  hc_id :: nat
  hc_pc :: hpc

text \<open>What the surroundings supply to one step; \<open>None\<close> as request is the closed request channel.\<close>

record 'key hinput =
  hi_moment :: moment
  hi_ssh :: "'key ServerConfig \<Rightarrow> 'key Server \<Rightarrow> (string, Permissions) result \<times> 'key Server"
  hi_listen :: "int \<Rightarrow> (string, nat) result"
  hi_request :: "Request option"

definition upd_manager :: "Manager \<Rightarrow> 'key Server \<Rightarrow> 'key Server" where
  "upd_manager m s = s\<lparr>sv_manager := m\<rparr>"

definition handleConn_step ::
  "sshwire \<Rightarrow> 'key hinput \<Rightarrow> hconn \<Rightarrow> 'key Server \<Rightarrow> ((bool \<times> byte list) list \<times> hconn) \<times> 'key Server" where
  "handleConn_step W x c s =
     (let goto = (\<lambda>pc. c\<lparr>hc_pc := pc\<rparr>); mo = hi_moment x;
          close = (\<lambda>s. upd_manager (log_close [HConn (hc_id c)] (sv_manager s)) s) in
      case hc_pc c of
        HHandshake \<Rightarrow>
          (case hi_ssh x (serverConfig s) s of
             (Inl e, s') \<Rightarrow> (([], goto HReturned), close s')
           | (Inr perms, s') \<Rightarrow>
               (([], goto (HLookup (case gm_get perms ''lease_id'' of None \<Rightarrow> [] | Some i \<Rightarrow> i))), s'))
      | HLookup leaseID \<Rightarrow>
          (case mo_get mo leaseID of
             None \<Rightarrow> (([], goto HReturned), close s)
           | Some l \<Rightarrow>
               if Expired l (mo_now mo) then (([], goto HReturned), close s)
               else (([], goto (HRegister leaseID l)), s\<lparr>sv_connected := sv_connected s + 1\<rparr>))
      | HRegister leaseID l \<Rightarrow>
          (case RegisterConn (mo_get mo) (mo_now mo) (hc_id c) leaseID (sv_manager s) of
             (False, m') \<Rightarrow>
               (([], goto HReturned), close (upd_manager m' (s\<lparr>sv_connected := sv_connected s - 1\<rparr>)))
           | (True, m') \<Rightarrow> (([], goto (HServe leaseID l)), upd_manager m' s))
      | HServe leaseID l \<Rightarrow>
          (case hi_request x of
             None \<Rightarrow> (([], goto (HClosed leaseID)), s)
           | Some req \<Rightarrow>
               (case handleGlobalRequest W mo (hi_listen x) (hc_id c) l req (sv_manager s) of
                  ((rs, Continue), m') \<Rightarrow> ((rs, c), upd_manager m' s)
                | ((rs, Return), m') \<Rightarrow> ((rs, goto (HClosed leaseID)), upd_manager m' s)))
      | HClosed leaseID \<Rightarrow>
          (([], goto HReturned),
           close (upd_manager (OnConnClosed leaseID (hc_id c) (sv_manager s)) (s\<lparr>sv_connected := sv_connected s - 1\<rparr>)))
      | HReturned \<Rightarrow> (([], c), s))"

subsection \<open>The accept loop\<close>

definition remoteIP :: "netaddr \<Rightarrow> string" where
  "remoteIP addr = (case SplitHostPort (addr_str addr) of Inl e \<Rightarrow> addr_str addr | Inr (host, port) \<Rightarrow> host)"

text \<open>
  What \<open>Accept\<close> returns: a connection, its peer and the time; or an error, with whether the
  context is already cancelled and whether it is cancelled during the delay.
\<close>

datatype serve_event = SvAccepted nat netaddr time | SvError bool bool

text \<open>The loop: the connections handed to \<open>handleConn\<close>, the delays, and the server.\<close>

fun Serve ::
  "duration \<Rightarrow> serve_event list \<Rightarrow> 'key Server \<Rightarrow> ((nat \<times> netaddr \<times> time) list \<times> duration list) \<times> 'key Server" where
  "Serve backoff [] s = (([], []), s)"
| "Serve backoff (SvError isDone later # es) s =
     (if isDone then (([], []), s)
      else (let b = next_backoff backoff in
            if later then (([], [b]), s)
            else (case Serve b es s of ((hs, ds), s') \<Rightarrow> ((hs, b # ds), s'))))"
| "Serve backoff (SvAccepted c a now # es) s =
     (case allow now (remoteIP a) (sv_limiter s) of
        (False, lim) \<Rightarrow>
          Serve 0 es (upd_manager (log_close [HConn c] (sv_manager s))
            (s\<lparr>sv_limiter := lim, sv_authFailures := sv_authFailures s + 1\<rparr>))
      | (True, lim) \<Rightarrow>
          (case Serve 0 es (s\<lparr>sv_limiter := lim\<rparr>) of ((hs, ds), s') \<Rightarrow> (((c, a, now) # hs, ds), s')))"


text \<open>\<open>listening\<close> is the outcome of binding the intake address.\<close>

definition ListenAndServe ::
  "string option \<Rightarrow> serve_event list \<Rightarrow> 'key Server
   \<Rightarrow> (string, (nat \<times> netaddr \<times> time) list \<times> duration list) result \<times> 'key Server" where
  "ListenAndServe listening es s =
     (case listening of
        Some e \<Rightarrow> (Inl (''ssh listen '' @ sc_ListenAddr (sv_cfg s) @ '': '' @ e), s)
      | None \<Rightarrow> (case Serve 0 es s of (o1, s') \<Rightarrow> (Inr o1, s')))"

section \<open>Authentication\<close>

text \<open>
  (C19) Token authentication. On any consistent store a client is authenticated exactly when its
  user name is the token of a lease that has not expired, as that lease; every refusal is
  counted and changes nothing else. No password method is offered.
\<close>

theorem auth_exact:
  assumes "idx_inv st"
  shows "(\<forall>i l. Get st i = Some l \<and> l_Token l = user \<and> \<not> Expired l now \<longrightarrow>
       authByToken (store_moment st now) user s = (Inr [(''lease_id'', i)], s))
    \<and> ((\<nexists>i l. Get st i = Some l \<and> l_Token l = user \<and> \<not> Expired l now) \<longrightarrow>
       authByToken (store_moment st now) user s =
         (Inl ''invalid or expired lease token'', s\<lparr>sv_authFailures := sv_authFailures s + 1\<rparr>))
    \<and> gc_NoClientAuthCallback (serverConfig s) = authByToken \<and> gc_PasswordCallback (serverConfig s) = None"
proof -
  have "authByToken (store_moment st now) user s = (Inr [(''lease_id'', i)], s)"
    if "Get st i = Some l" "l_Token l = user" "\<not> Expired l now" for i l
  proof -
    have "ByToken st user = Some l" "l_LeaseID l = i"
      using that lookup.id_law [OF assms that(1)] lookup.token_law [OF assms] by auto
    then show ?thesis using that(3) by (simp add: authByToken_def store_moment_def)
  qed
  moreover have "authByToken (store_moment st now) user s =
      (Inl ''invalid or expired lease token'', s\<lparr>sv_authFailures := sv_authFailures s + 1\<rparr>)"
    if "\<nexists>i l. Get st i = Some l \<and> l_Token l = user \<and> \<not> Expired l now"
    using that lookup.live_token_exists [OF assms, of user "\<lambda>l. \<not> Expired l now"]
    by (auto simp: authByToken_def store_moment_def split: option.splits)
  ultimately show ?thesis by (simp add: serverConfig_def)
qed

definition demo_server :: "string Server" where
  "demo_server =
     \<lparr>sv_cfg = \<lparr>sc_ListenAddr = [], sc_HostKeyPath = ''k'', sc_EndpointHost = [], sc_SSHPort = 22,
        sc_MaxVisitorConnsPerLease = 1, sc_KeepaliveInterval = 30, sc_AuthAttemptsPerWindow = 1, sc_AuthWindow = 60\<rparr>,
      sv_signer = ''key'', sv_manager = NewManager 1, sv_limiter = newAuthLimiter 1 60,
      sv_authFailures = 0, sv_connected = 0\<rparr>"

theorem auth_exact_witness:
  "authByToken (store_moment ref_store1 1) (replicate 32 CHR ''a'') demo_server = (Inr [(''lease_id'', ''a'')], demo_server)
   \<and> fst (authByToken (store_moment ref_store1 1) ''b'' demo_server) = Inl ''invalid or expired lease token''"
proof -
  note a = auth_exact [OF store_inv_parts(2) [OF ref_store1_inv]]
  have "Get ref_store1 ''a'' = Some ref_lease" "l_Token ref_lease = replicate 32 CHR ''a''" "\<not> Expired ref_lease 1"
    by (simp_all add: ref_store1_get ref_lease_def Expired_def time_Before_def)
  then have 1: "authByToken (store_moment ref_store1 1) (replicate 32 CHR ''a'') demo_server
      = (Inr [(''lease_id'', ''a'')], demo_server)" using a by blast
  have "\<nexists>i l. Get ref_store1 i = Some l \<and> l_Token l = ''b'' \<and> \<not> Expired l 1"
    by (simp add: ref_store1_get ref_lease_def numeral_eq_Suc)
  then have "authByToken (store_moment ref_store1 1) ''b'' demo_server
      = (Inl ''invalid or expired lease token'', demo_server\<lparr>sv_authFailures := sv_authFailures demo_server + 1\<rparr>)"
    using a [of "''b''" 1 demo_server] by blast
  with 1 show ?thesis by simp
qed

section \<open>The handler and the manager\<close>

text \<open>
  Documented behaviour of a handshake: it calls the callbacks of the methods its configuration
  offers, at moments within its duration, and a connection it returns carries the permissions of
  a callback that accepted, the one for \<open>none\<close> or the one for \<open>password\<close>.
\<close>

definition offers ::
  "'key ServerConfig \<Rightarrow> (moment \<Rightarrow> string \<Rightarrow> 'key Server \<Rightarrow> (string, Permissions) result \<times> 'key Server) \<Rightarrow> bool" where
  "offers cfg cb \<longleftrightarrow> gc_NoClientAuth cfg \<and> cb = gc_NoClientAuthCallback cfg
     \<or> (\<exists>pcb password. gc_PasswordCallback cfg = Some pcb \<and> cb = (\<lambda>e u. pcb e u password))"

inductive auth_calls :: "'key ServerConfig \<Rightarrow> moment set \<Rightarrow> 'key Server \<Rightarrow> 'key Server \<Rightarrow> bool" for cfg M where
  none: "auth_calls cfg M s s"
| call: "auth_calls cfg M s t \<Longrightarrow> e \<in> M \<Longrightarrow> offers cfg cb \<Longrightarrow> cb e u t = (r, t') \<Longrightarrow> auth_calls cfg M s t'"

definition handshake_ok ::
  "moment set \<Rightarrow> ('key ServerConfig \<Rightarrow> 'key Server \<Rightarrow> (string, Permissions) result \<times> 'key Server) \<Rightarrow> bool" where
  "handshake_ok M ssh \<longleftrightarrow> (\<forall>cfg s r s'. ssh cfg s = (r, s') \<longrightarrow> auth_calls cfg M s s'
     \<and> (\<forall>perms. r = Inr perms \<longrightarrow> (\<exists>e \<in> M. \<exists>cb u t t'. offers cfg cb \<and> cb e u t = (Inr perms, t'))))"

text \<open>The server offers no other method than the token.\<close>

lemma offers_token [simp]: "offers (serverConfig s) cb \<longleftrightarrow> cb = authByToken"
  by (simp add: offers_def serverConfig_def)

lemma auth_calls_keep:
  assumes "auth_calls (serverConfig s) M t t'" "\<And>e u t r t'. authByToken e u t = (r, t') \<Longrightarrow> P t' = P t"
  shows "P t' = P t"
  using assms(1)
proof (induction rule: auth_calls.induct)
  case (call t t1 e cb u r t')
  then show ?case using assms(2) [of e u t1 r t'] by simp
qed simp

lemma auth_frame:
  assumes "authByToken e u s = (r, s')"
  shows "sv_manager s' = sv_manager s" "sv_connected s' = sv_connected s"
  using assms by (auto simp: authByToken_def split: option.splits if_splits)

lemma handshake_keeps:
  assumes "handshake_ok M ssh" "ssh (serverConfig s) s = (r, s')"
  shows "sv_manager s' = sv_manager s" "sv_connected s' = sv_connected s"
proof -
  have "auth_calls (serverConfig s) M s s'" using assms unfolding handshake_ok_def by blast
  then show "sv_manager s' = sv_manager s" "sv_connected s' = sv_connected s"
    using auth_calls_keep [where P = sv_manager] auth_calls_keep [where P = sv_connected] auth_frame by blast+
qed

lemmas handshake_manager = handshake_keeps(1)

lemma handshake_token:
  fixes s s' :: "'key Server"
  assumes "handshake_ok M ssh" "ssh (serverConfig s) s = (Inr perms, s')"
  shows "\<exists>e \<in> M. \<exists>u l. mo_byToken e u = Some l \<and> \<not> Expired l (mo_now e) \<and> perms = [(''lease_id'', l_LeaseID l)]"
proof -
  have "\<exists>e \<in> M. \<exists>cb u t t'. offers (serverConfig s) cb \<and> cb e u t = (Inr perms, t')"
    using assms unfolding handshake_ok_def by blast
  then obtain e u and t t' :: "'key Server" where "e \<in> M" "authByToken e u t = (Inr perms, t')" by auto
  then show ?thesis by (auto simp: authByToken_def split: option.splits if_splits)
qed

lemma upd_manager_sel [simp]: "sv_manager (upd_manager m s) = m" by (simp add: upd_manager_def)

lemma run_tasks_Cons [simp]: "run_tasks (t # ts) m = run_tasks ts (run_task t m)" "run_tasks [] m = m"
  by (simp_all add: run_tasks_def)

lemma tails:
  "(sys_step get)\<^sup>*\<^sup>* \<lparr>sy_m = m, sy_vs = vs, sy_todo = ts @ us\<rparr> \<lparr>sy_m = run_tasks us m, sy_vs = vs, sy_todo = ts\<rparr>"
proof (induction us arbitrary: m)
  case (Cons u us)
  have "sys_step get \<lparr>sy_m = m, sy_vs = vs, sy_todo = ts @ u # us\<rparr> \<lparr>sy_m = run_task u m, sy_vs = vs, sy_todo = ts @ us\<rparr>"
    using sys_step.tail [of "length ts" "\<lparr>sy_m = m, sy_vs = vs, sy_todo = ts @ u # us\<rparr>" get] by simp
  with Cons [of "run_task u m"] show ?case by (simp add: converse_rtranclp_into_rtranclp)
qed simp

text \<open>The handler calls the manager in no other way than the interleaved steps have it.\<close>

definition mgr_steps :: "(string \<Rightarrow> Lease option) \<Rightarrow> Manager \<Rightarrow> Manager \<Rightarrow> bool" where
  "mgr_steps get m m' \<longleftrightarrow>
     (\<forall>vs ts. (sys_step get)\<^sup>*\<^sup>* \<lparr>sy_m = m, sy_vs = vs, sy_todo = ts\<rparr> \<lparr>sy_m = m', sy_vs = vs, sy_todo = ts\<rparr>)"

lemma mgr_steps_refl [simp]: "mgr_steps get m m" by (simp add: mgr_steps_def)

lemma mgr_steps_trans: "mgr_steps get m m' \<Longrightarrow> mgr_steps get m' m'' \<Longrightarrow> mgr_steps get m m''"
  unfolding mgr_steps_def by (meson rtranclp_trans)

lemma mgr_steps_cs:
  assumes "\<And>s. sy_m s = m \<Longrightarrow> sys_step get s (s\<lparr>sy_m := m', sy_todo := sy_todo s @ us\<rparr>)"
  shows "mgr_steps get m (run_tasks us m')"
  unfolding mgr_steps_def
proof (intro allI)
  fix vs ts
  have "sys_step get \<lparr>sy_m = m, sy_vs = vs, sy_todo = ts\<rparr> \<lparr>sy_m = m', sy_vs = vs, sy_todo = ts @ us\<rparr>"
    using assms [of "\<lparr>sy_m = m, sy_vs = vs, sy_todo = ts\<rparr>"] by simp
  then show "(sys_step get)\<^sup>*\<^sup>* \<lparr>sy_m = m, sy_vs = vs, sy_todo = ts\<rparr> \<lparr>sy_m = run_tasks us m', sy_vs = vs, sy_todo = ts\<rparr>"
    using tails by (rule converse_rtranclp_into_rtranclp)
qed

lemma mgr_steps_close: "mgr_steps get m (log_close [HConn c] m)"
proof -
  have "sys_step get s (s\<lparr>sy_m := m, sy_todo := sy_todo s @ [CloseConn c]\<rparr>)" if "sy_m s = m" for s :: sys
  proof -
    have "s\<lparr>sy_m := m, sy_todo := sy_todo s @ [CloseConn c]\<rparr> = s\<lparr>sy_todo := sy_todo s @ [CloseConn c]\<rparr>"
      using that by (cases s) simp
    then show ?thesis using sys_step.hangup by metis
  qed
  from mgr_steps_cs [OF this] show ?thesis by (simp add: run_task_def)
qed

lemma mgr_steps_then_close: "mgr_steps get m m' \<Longrightarrow> mgr_steps get m (log_close [HConn c] m')"
  by (rule mgr_steps_trans [OF _ mgr_steps_close])

lemma mgr_steps_register: "RegisterConn get now c i m = (ok, m') \<Longrightarrow> mgr_steps get m m'"
  by (auto simp: RegisterConn_def split: prod.splits intro!: mgr_steps_cs intro: sys_step.register)

lemma mgr_steps_start:
  assumes "StartForward get now listen c i b p m = (r, m')"
  shows "mgr_steps get m m'"
  unfolding mgr_steps_def
proof (intro allI r_into_rtranclp)
  fix vs ts
  show "sys_step get \<lparr>sy_m = m, sy_vs = vs, sy_todo = ts\<rparr> \<lparr>sy_m = m', sy_vs = vs, sy_todo = ts\<rparr>"
    using sys_step.start [of get now listen c i b p "\<lparr>sy_m = m, sy_vs = vs, sy_todo = ts\<rparr>" r m'] assms by simp
qed

lemma mgr_steps_cancel: "mgr_steps get m (CancelForward i c m)"
  by (auto simp: CancelForward_def split: prod.splits intro!: mgr_steps_cs intro: sys_step.cancel)

lemma mgr_steps_onclose: "mgr_steps get m (OnConnClosed i c m)"
  by (auto simp: OnConnClosed_def split: prod.splits intro!: mgr_steps_cs intro: sys_step.onclose)


lemma request_cases [case_names forward cancel other]:
  assumes "\<And>addr port r m1. rq_Type req = ''tcpip-forward'' \<Longrightarrow> sw_Unmarshal W (rq_Payload req) = Inr (addr, port) \<Longrightarrow>
      StartForward (mo_get mo) (mo_now mo) listen c (l_LeaseID l) addr port m = (r, m1) \<Longrightarrow>
      snd (handleGlobalRequest W mo listen c l req m) = (if r = Inl ErrLeaseGone then log_close [HConn c] m1 else m1) \<Longrightarrow> P"
    "rq_Type req = ''cancel-tcpip-forward'' \<Longrightarrow> snd (handleGlobalRequest W mo listen c l req m) = CancelForward (l_LeaseID l) c m \<Longrightarrow> P"
    "snd (handleGlobalRequest W mo listen c l req m) = m \<Longrightarrow> P"
  shows P
proof (cases "rq_Type req = ''tcpip-forward''")
  case True
  show ?thesis
  proof (cases "sw_Unmarshal W (rq_Payload req)")
    case (Inl e)
    then show ?thesis using True by (intro assms(3)) (simp add: handleGlobalRequest_def)
  next
    case (Inr ap)
    obtain addr port where ap: "ap = (addr, port)" by (cases ap)
    obtain r m1 where st: "StartForward (mo_get mo) (mo_now mo) listen c (l_LeaseID l) addr port m = (r, m1)"
      by (cases "StartForward (mo_get mo) (mo_now mo) listen c (l_LeaseID l) addr port m")
    show ?thesis
      by (rule assms(1) [OF True Inr [unfolded ap] st])
        (use True Inr ap st in \<open>cases r; auto simp: handleGlobalRequest_def\<close>)
  qed
next
  case False
  show ?thesis
  proof (cases "rq_Type req = ''cancel-tcpip-forward''")
    case True
    then show ?thesis by (intro assms(2)) (simp_all add: handleGlobalRequest_def)
  next
    case other: False
    then show ?thesis using False by (intro assms(3)) (simp add: handleGlobalRequest_def)
  qed
qed

lemma mgr_steps_request: "mgr_steps (mo_get mo) m (snd (handleGlobalRequest W mo listen c l req m))"
proof (cases rule: request_cases [of req W mo listen c l m])
  case (forward addr port r m1)
  then show ?thesis using mgr_steps_start [OF forward(3)] by (simp add: mgr_steps_then_close)
next
  case cancel
  then show ?thesis using mgr_steps_cancel by simp
next
  case other
  then show ?thesis by simp
qed

text \<open>The manager after a step of the handler.\<close>

lemma step_manager [consumes 1, case_names handshake register request closed same]:
  assumes "handleConn_step W x c s = ((rs, c'), s')"
    "\<And>r s1. hc_pc c = HHandshake \<Longrightarrow> hi_ssh x (serverConfig s) s = (r, s1) \<Longrightarrow>
      sv_manager s' = sv_manager s1 \<or> sv_manager s' = log_close [HConn (hc_id c)] (sv_manager s1) \<Longrightarrow> P"
    "\<And>i l ok m1. hc_pc c = HRegister i l \<Longrightarrow>
      RegisterConn (mo_get (hi_moment x)) (mo_now (hi_moment x)) (hc_id c) i (sv_manager s) = (ok, m1) \<Longrightarrow>
      sv_manager s' = (if ok then m1 else log_close [HConn (hc_id c)] m1) \<Longrightarrow> P"
    "\<And>i l req. hc_pc c = HServe i l \<Longrightarrow> hi_request x = Some req \<Longrightarrow>
      sv_manager s' = snd (handleGlobalRequest W (hi_moment x) (hi_listen x) (hc_id c) l req (sv_manager s)) \<Longrightarrow> P"
    "\<And>i. hc_pc c = HClosed i \<Longrightarrow>
      sv_manager s' = log_close [HConn (hc_id c)] (OnConnClosed i (hc_id c) (sv_manager s)) \<Longrightarrow> P"
    "sv_manager s' = sv_manager s \<or> sv_manager s' = log_close [HConn (hc_id c)] (sv_manager s) \<Longrightarrow> P"
  shows P
proof (cases "hc_pc c")
  case HHandshake
  obtain r s1 where hs: "hi_ssh x (serverConfig s) s = (r, s1)" by (cases "hi_ssh x (serverConfig s) s")
  show ?thesis
    by (rule assms(2) [OF HHandshake hs])
      (use assms(1) HHandshake hs in \<open>cases r; auto simp: handleConn_step_def Let_def\<close>)
next
  case (HLookup i)
  show ?thesis
    by (rule assms(6)) (use assms(1) HLookup in \<open>auto simp: handleConn_step_def Let_def split: option.splits if_splits\<close>)
next
  case (HRegister i l)
  obtain ok m1 where r: "RegisterConn (mo_get (hi_moment x)) (mo_now (hi_moment x)) (hc_id c) i (sv_manager s) = (ok, m1)"
    by (cases "RegisterConn (mo_get (hi_moment x)) (mo_now (hi_moment x)) (hc_id c) i (sv_manager s)")
  show ?thesis
    by (rule assms(3) [OF HRegister r])
      (use assms(1) HRegister r in \<open>cases ok; auto simp: handleConn_step_def Let_def\<close>)
next
  case (HServe i l)
  show ?thesis
  proof (cases "hi_request x")
    case None
    show ?thesis by (rule assms(6)) (use assms(1) HServe None in \<open>auto simp: handleConn_step_def Let_def\<close>)
  next
    case (Some req)
    obtain rs1 fl m1 where g: "handleGlobalRequest W (hi_moment x) (hi_listen x) (hc_id c) l req (sv_manager s) = ((rs1, fl), m1)"
      by (metis prod.collapse)
    show ?thesis
      by (rule assms(4) [OF HServe Some])
        (use assms(1) HServe Some g in \<open>cases fl; auto simp: handleConn_step_def Let_def\<close>)
  qed
next
  case (HClosed i)
  show ?thesis
    by (rule assms(5) [OF HClosed]) (use assms(1) HClosed in \<open>auto simp: handleConn_step_def Let_def\<close>)
next
  case HReturned
  show ?thesis by (rule assms(6)) (use assms(1) HReturned in \<open>auto simp: handleConn_step_def Let_def\<close>)
qed

lemma handler_mgr_steps:
  assumes "handshake_ok M (hi_ssh x)" "handleConn_step W x c s = ((rs, c'), s')"
  shows "mgr_steps (mo_get (hi_moment x)) (sv_manager s) (sv_manager s')"
  using assms(2)
proof (cases rule: step_manager)
  case (handshake r s1)
  then show ?thesis using handshake_manager [OF assms(1) handshake(2)] mgr_steps_close by auto
next
  case (register i l ok m1)
  then show ?thesis using mgr_steps_register [OF register(2)] by (simp add: mgr_steps_then_close)
next
  case (request i l req)
  then show ?thesis using mgr_steps_request by simp
next
  case (closed i)
  then show ?thesis using mgr_steps_onclose by (simp add: mgr_steps_then_close)
next
  case same
  then show ?thesis using mgr_steps_close by auto
qed

text \<open>The manager has connection \<open>c\<close> for lease \<open>i\<close>.\<close>

definition registered_to :: "string \<Rightarrow> nat \<Rightarrow> Manager \<Rightarrow> bool" where
  "registered_to i c m =
     (case gm_get (m_leases m) i of
        None \<Rightarrow> False
      | Some sp \<Rightarrow> (case m_states m sp of None \<Rightarrow> False | Some st \<Rightarrow> ls_conn st = c))"

text \<open>The listener of the forward installed for lease \<open>i\<close>, if there is one.\<close>

definition listener_of :: "string \<Rightarrow> Manager \<Rightarrow> nat option" where
  "listener_of i m =
     (case gm_get (m_leases m) i of
        None \<Rightarrow> None
      | Some sp \<Rightarrow>
          (case m_states m sp of
             None \<Rightarrow> None
           | Some st \<Rightarrow>
               (case ls_forward st of None \<Rightarrow> None | Some fp \<Rightarrow> map_option f_listener (m_forwards m fp))))"

lemma OnConnClosed_leases:
  "m_leases (OnConnClosed i c m) = (if registered_to i c m then gm_del i (m_leases m) else m_leases m)"
  by (simp add: OnConnClosed_def OnConnClosed_cs_def registered_to_def split: option.splits)

lemma OnConnClosed_closes:
  assumes "fwds_ok m" "registered_to i c m" "listener_of i m = Some ln"
  shows "HListener ln \<in> set (m_closed (OnConnClosed i c m))"
  using assms
  by (auto simp: OnConnClosed_def OnConnClosed_cs_def registered_to_def listener_of_def run_task_def
      forward_close_eq close_handles_def fwds_ok_def fwd_ok_def split: option.splits)

lemma CancelForward_leases: "m_leases (CancelForward i c m) = m_leases m"
  by (simp add: CancelForward_def CancelForward_cs_def split: option.splits)

lemma StartForward_leases: "StartForward get now listen c i b p m = (r, m') \<Longrightarrow> m_leases m' = m_leases m"
  by (auto simp: StartForward_def Let_def split: option.splits if_splits sum.splits)

lemma request_leases: "m_leases (snd (handleGlobalRequest W mo listen c l req m)) = m_leases m"
  by (cases rule: request_cases [of req W mo listen c l m]) (simp_all add: CancelForward_leases StartForward_leases)

lemma RegisterConn_other:
  assumes "RegisterConn get now c i m = (ok, m')"
  shows "j \<noteq> i \<Longrightarrow> gm_get (m_leases m') j = gm_get (m_leases m) j" "\<not> ok \<Longrightarrow> m' = m"
  using assms by (auto simp: RegisterConn_def RegisterConn_cs_def Let_def gomap_simps split: option.splits prod.splits if_splits)

text \<open>The lease whose registration a handler may change at a program point.\<close>

definition handled_lease :: "hpc \<Rightarrow> string option" where
  "handled_lease pc = (case pc of HRegister i l \<Rightarrow> Some i | HClosed i \<Rightarrow> Some i | _ \<Rightarrow> None)"

lemma handler_leases:
  assumes "handshake_ok M (hi_ssh x)" "handleConn_step W x c s = ((rs, c'), s')" "handled_lease (hc_pc c) \<noteq> Some j"
  shows "gm_get (m_leases (sv_manager s')) j = gm_get (m_leases (sv_manager s)) j"
  using assms(2)
proof (cases rule: step_manager)
  case (handshake r s1)
  then show ?thesis using handshake_manager [OF assms(1) handshake(2)] by auto
next
  case (register i l ok m1)
  then show ?thesis using RegisterConn_other(1) [OF register(2), of j] assms(3) by (auto simp: handled_lease_def)
next
  case (request i l req)
  then show ?thesis by (simp add: request_leases)
next
  case (closed i)
  then show ?thesis using assms(3) by (auto simp: handled_lease_def OnConnClosed_leases gomap_simps)
qed auto

lemma handler_returns_closed:
  assumes "handleConn_step W x c s = ((rs, c'), s')" "hc_pc c \<noteq> HReturned" "hc_pc c' = HReturned"
  shows "HConn (hc_id c) \<in> set (m_closed (sv_manager s'))"
  using assms
  by (auto simp: handleConn_step_def Let_def split: hpc.splits prod.splits sum.splits option.splits if_splits flow.splits bool.splits)

lemma closed_step:
  assumes "handleConn_step W x c s = ((rs, c'), s')" "hc_pc c = HClosed i"
  shows "sv_manager s' = log_close [HConn (hc_id c)] (OnConnClosed i (hc_id c) (sv_manager s))" "hc_pc c' = HReturned"
  using assms by (auto simp: handleConn_step_def Let_def)

text \<open>
  (C16) The connection handler against the manager. Each step of a handler changes the manager by a
  sequence of the interleaved steps, taken against the store of that moment, and neither disturbs
  visitors nor leaves tasks behind, so every invariant of those steps holds in the running server.
  A handler changes no registration but that of the lease it registers, and when it ends it
  drops that one only if it is its own: a newer connection keeps the lease. The last step of a
  handler that has served leaves no registration of its connection for the lease and closes the
  listener it had opened, and every handler that returns has closed its connection.
\<close>

theorem handler_refines_manager:
  assumes "handshake_ok M (hi_ssh x)" "handleConn_step W x c s = ((rs, c'), s')"
  shows "(sys_step (mo_get (hi_moment x)))\<^sup>*\<^sup>* \<lparr>sy_m = sv_manager s, sy_vs = vs, sy_todo = ts\<rparr>
      \<lparr>sy_m = sv_manager s', sy_vs = vs, sy_todo = ts\<rparr>
    \<and> (\<forall>j. (\<nexists>l. hc_pc c = HRegister j l) \<and> \<not> (hc_pc c = HClosed j \<and> registered_to j (hc_id c) (sv_manager s)) \<longrightarrow>
        gm_get (m_leases (sv_manager s')) j = gm_get (m_leases (sv_manager s)) j)
    \<and> (\<forall>i. hc_pc c = HClosed i \<longrightarrow> hc_pc c' = HReturned \<and> \<not> registered_to i (hc_id c) (sv_manager s')
        \<and> (\<forall>ln. fwds_ok (sv_manager s) \<and> registered_to i (hc_id c) (sv_manager s) \<and> listener_of i (sv_manager s) = Some ln \<longrightarrow>
             HListener ln \<in> set (m_closed (sv_manager s'))))
    \<and> (hc_pc c \<noteq> HReturned \<and> hc_pc c' = HReturned \<longrightarrow> HConn (hc_id c) \<in> set (m_closed (sv_manager s')))"
proof (intro conjI allI impI)
  show "(sys_step (mo_get (hi_moment x)))\<^sup>*\<^sup>* \<lparr>sy_m = sv_manager s, sy_vs = vs, sy_todo = ts\<rparr>
      \<lparr>sy_m = sv_manager s', sy_vs = vs, sy_todo = ts\<rparr>"
    using handler_mgr_steps [OF assms] unfolding mgr_steps_def by blast
next
  fix j
  assume j: "(\<nexists>l. hc_pc c = HRegister j l) \<and> \<not> (hc_pc c = HClosed j \<and> registered_to j (hc_id c) (sv_manager s))"
  show "gm_get (m_leases (sv_manager s')) j = gm_get (m_leases (sv_manager s)) j"
  proof (cases "hc_pc c = HClosed j")
    case True
    then show ?thesis using j closed_step(1) [OF assms(2) True] by (simp add: OnConnClosed_leases)
  next
    case False
    then have "handled_lease (hc_pc c) \<noteq> Some j" using j by (auto simp: handled_lease_def split: hpc.splits)
    then show ?thesis by (rule handler_leases [OF assms])
  qed
next
  fix i
  assume i: "hc_pc c = HClosed i"
  note end_step = closed_step [OF assms(2) i]
  show "hc_pc c' = HReturned" by (rule end_step(2))
  have st: "m_states (OnConnClosed i (hc_id c) (sv_manager s)) = m_states (sv_manager s)"
    by (simp add: OnConnClosed_def OnConnClosed_cs_def run_task_def forward_close_eq split: option.splits)
  show "\<not> registered_to i (hc_id c) (sv_manager s')"
    by (simp add: end_step(1) registered_to_def OnConnClosed_leases st gomap_simps split: option.splits)
  fix ln
  assume "fwds_ok (sv_manager s) \<and> registered_to i (hc_id c) (sv_manager s) \<and> listener_of i (sv_manager s) = Some ln"
  then show "HListener ln \<in> set (m_closed (sv_manager s'))"
    using OnConnClosed_closes by (simp add: end_step(1))
qed (use handler_returns_closed [OF assms(2)] in blast)

definition demo_wire :: sshwire where
  "demo_wire = \<lparr>sw_Unmarshal = (\<lambda>_. Inr ([], 0)), sw_MarshalPort = (\<lambda>_. [])\<rparr>"

text \<open>A client that presents the token of the reference lease, then asks for a forward.\<close>

definition demo_input :: "string hinput" where
  "demo_input = \<lparr>hi_moment = store_moment ref_store1 1,
     hi_ssh = (\<lambda>cfg s. if gc_NoClientAuth cfg
        then gc_NoClientAuthCallback cfg (store_moment ref_store1 1) (replicate 32 CHR ''a'') s
        else (Inl ''no method offered'', s)),
     hi_listen = (\<lambda>_. Inr 3), hi_request = Some \<lparr>rq_Type = ''tcpip-forward'', rq_WantReply = True, rq_Payload = []\<rparr>\<rparr>"

lemma demo_handshake_ok: "handshake_ok {store_moment ref_store1 1} (hi_ssh demo_input)"
proof -
  have "auth_calls cfg {store_moment ref_store1 1} s s'
      \<and> (\<forall>perms. r = Inr perms \<longrightarrow> (\<exists>e \<in> {store_moment ref_store1 1}. \<exists>cb u t t'. offers cfg cb \<and> cb e u t = (Inr perms, t')))"
    if "hi_ssh demo_input cfg s = (r, s')" for cfg r and s s' :: "string Server"
  proof (cases "gc_NoClientAuth cfg")
    case True
    let ?cb = "gc_NoClientAuthCallback cfg"
    have cb: "offers cfg ?cb" "?cb (store_moment ref_store1 1) (replicate 32 CHR ''a'') s = (r, s')"
      using True that by (simp_all add: offers_def demo_input_def)
    then have "auth_calls cfg {store_moment ref_store1 1} s s'" using auth_calls.call [OF auth_calls.none _ cb] by simp
    then show ?thesis using cb by blast
  next
    case False
    then show ?thesis using that by (auto simp: demo_input_def intro: auth_calls.none)
  qed
  then show ?thesis unfolding handshake_ok_def by blast
qed

theorem handler_refines_manager_witness:
  "\<exists>s' :: string Server. (sys_step (Get ref_store1))\<^sup>*\<^sup>* \<lparr>sy_m = NewManager 1, sy_vs = [], sy_todo = []\<rparr>
     \<lparr>sy_m = sv_manager s', sy_vs = [], sy_todo = []\<rparr> \<and> gm_get (m_leases (sv_manager s')) ''a'' \<noteq> None"
proof -
  let ?c = "\<lparr>hc_id = 7, hc_pc = HRegister ''a'' ref_lease\<rparr>"
  obtain rs c' s' where run: "handleConn_step demo_wire demo_input ?c demo_server = ((rs, c'), s')"
    by (metis prod.collapse)
  have "gm_get (m_leases (sv_manager s')) ''a'' \<noteq> None"
    using run by (auto simp: handleConn_step_def demo_input_def store_moment_def demo_server_def NewManager_def RegisterConn_def
        RegisterConn_cs_def lease_live_def ref_store1_get ref_lease_def Expired_def time_Before_def Let_def run_tasks_def
        upd_state_def)
  moreover have "mo_get (hi_moment demo_input) = Get ref_store1" "sv_manager demo_server = NewManager 1"
    by (simp_all add: demo_input_def store_moment_def demo_server_def)
  ultimately show ?thesis
    using handler_refines_manager [OF demo_handshake_ok run, of "[]" "[]"] by auto
qed

section \<open>Who may open a port\<close>

lemma RegisterConn_registers:
  assumes "RegisterConn get now c i m = (True, m')"
  shows "lease_live get now i \<noteq> None"
    "\<exists>sp st. gm_get (m_leases m') i = Some sp \<and> m_states m' sp = Some st \<and> ls_conn st = c"
proof -
  obtain ts m1 where cs: "RegisterConn_cs get now c i m = ((True, ts), m1)" "m' = run_tasks ts m1"
    using assms by (auto simp: RegisterConn_def split: prod.splits)
  show live: "lease_live get now i \<noteq> None" using cs(1) by (cases "lease_live get now i") (simp_all add: RegisterConn_cs_def)
  have keep: "m_states (run_tasks us m0) = m_states m0" for us m0
    by (induction us arbitrary: m0) simp_all
  have "gm_get (m_leases m1) i = Some (m_brk m) \<and> m_states m1 (m_brk m) = Some (new_state c)"
    using cs(1) live by (auto simp: RegisterConn_cs_def Let_def upd_state_def gomap_simps split: option.splits)
  then show "\<exists>sp st. gm_get (m_leases m') i = Some sp \<and> m_states m' sp = Some st \<and> ls_conn st = c"
    by (auto simp: cs(2) keep new_state_def)
qed

lemma register_step:
  assumes "handleConn_step W x c s = ((rs, c'), s')" "hc_pc c = HRegister i l" "hc_pc c' = HServe j k"
  shows "j = i" "k = l"
    "RegisterConn (mo_get (hi_moment x)) (mo_now (hi_moment x)) (hc_id c) i (sv_manager s) = (True, sv_manager s')"
  using assms by (auto simp: handleConn_step_def Let_def split: prod.splits bool.splits)

lemma lookup_step:
  assumes "handleConn_step W x c s = ((rs, c'), s')" "hc_pc c = HLookup i" "hc_pc c' \<noteq> HReturned"
  shows "\<exists>l. hc_pc c' = HRegister i l \<and> lease_live (mo_get (hi_moment x)) (mo_now (hi_moment x)) i = Some l"
  using assms by (auto simp: handleConn_step_def Let_def lease_live_def split: option.splits if_splits)

lemma handshake_step:
  assumes "handleConn_step W x c s = ((rs, c'), s')" "hc_pc c = HHandshake" "handshake_ok M (hi_ssh x)" "hc_pc c' \<noteq> HReturned"
  shows "\<exists>e \<in> M. \<exists>u l. mo_byToken e u = Some l \<and> \<not> Expired l (mo_now e) \<and> hc_pc c' = HLookup (l_LeaseID l)"
proof -
  obtain r s1 where hs: "hi_ssh x (serverConfig s) s = (r, s1)" by (cases "hi_ssh x (serverConfig s) s")
  show ?thesis
  proof (cases r)
    case (Inl e)
    then show ?thesis using assms(1,2,4) hs by (auto simp: handleConn_step_def Let_def)
  next
    case (Inr perms)
    from handshake_token [OF assms(3) hs [unfolded Inr]] show ?thesis
      using assms(1,2) hs Inr by (fastforce simp: handleConn_step_def Let_def)
  qed
qed

lemma step_id: "handleConn_step W x c s = ((rs, c'), s') \<Longrightarrow> hc_id c' = hc_id c"
  by (auto simp: handleConn_step_def Let_def split: hpc.splits prod.splits sum.splits option.splits if_splits flow.splits bool.splits)

lemma returned_stays: "handleConn_step W x c s = ((rs, c'), s') \<Longrightarrow> hc_pc c = HReturned \<Longrightarrow> hc_pc c' = HReturned"
  by (simp add: handleConn_step_def)



lemma demo_token: "ByToken ref_store1 (replicate 32 CHR ''a'') = Some ref_lease"
  using lookup.token_law [OF store_inv_parts(2) [OF ref_store1_inv], of _ ref_lease]
  by (simp add: ref_store1_get ref_lease_def)

lemma demo_live: "\<not> Expired ref_lease 1" "l_LeaseID ref_lease = ''a''"
  by (simp_all add: ref_lease_def Expired_def time_Before_def)

lemma demo_steps:
  "handleConn_step demo_wire demo_input \<lparr>hc_id = 7, hc_pc = HHandshake\<rparr> demo_server
     = (([], \<lparr>hc_id = 7, hc_pc = HLookup ''a''\<rparr>), demo_server)"
  "handleConn_step demo_wire demo_input \<lparr>hc_id = 7, hc_pc = HLookup ''a''\<rparr> demo_server
     = (([], \<lparr>hc_id = 7, hc_pc = HRegister ''a'' ref_lease\<rparr>), demo_server\<lparr>sv_connected := 1\<rparr>)"
  by (simp_all add: handleConn_step_def demo_input_def serverConfig_def authByToken_def store_moment_def demo_token
      demo_live ref_store1_get demo_server_def)

lemma demo_register:
  "\<exists>s'. handleConn_step demo_wire demo_input \<lparr>hc_id = 7, hc_pc = HRegister ''a'' ref_lease\<rparr> (demo_server\<lparr>sv_connected := 1\<rparr>)
     = (([], \<lparr>hc_id = 7, hc_pc = HServe ''a'' ref_lease\<rparr>), s')"
  by (simp add: handleConn_step_def demo_input_def store_moment_def RegisterConn_def RegisterConn_cs_def lease_live_def
      ref_store1_get demo_live Let_def demo_server_def NewManager_def)


subsection \<open>Opening a port\<close>

lemma tasks_no_new: "m_forwards m fp = None \<Longrightarrow> m_forwards (run_tasks ts m) fp = None"
proof (induction ts arbitrary: m)
  case (Cons t ts)
  have "m_forwards (run_task t m) fp = None"
    using Cons.prems by (cases t) (auto simp: run_task_def forward_close_def log_close_def upd_forward_def split: option.splits)
  with Cons.IH show ?case by simp
qed simp

lemma no_new_forward:
  assumes "m_forwards m fp = None"
  shows "m_forwards (log_close hs m) fp = None" "m_forwards (CancelForward i c m) fp = None"
    "m_forwards (OnConnClosed i c m) fp = None" "RegisterConn get now c i m = (ok, m') \<Longrightarrow> m_forwards m' fp = None"
proof -
  show "m_forwards (log_close hs m) fp = None" using assms by (simp add: log_close_def)
  show "m_forwards (CancelForward i c m) fp = None"
    using assms by (cases rule: CancelForward_cases [of i c m]) (simp_all add: CancelForward_def tasks_no_new upd_state_def del: run_tasks_Cons)
  show "m_forwards (OnConnClosed i c m) fp = None"
    using assms by (cases rule: OnConnClosed_cases [of i c m]) (simp_all add: OnConnClosed_def tasks_no_new del: run_tasks_Cons)
  have "m_forwards (snd (RegisterConn_cs get now c i m)) fp = None"
    using assms by (auto simp: RegisterConn_cs_def Let_def upd_state_def split: option.splits)
  then show "RegisterConn get now c i m = (ok, m') \<Longrightarrow> m_forwards m' fp = None"
    by (auto simp: RegisterConn_def tasks_no_new split: prod.splits)
qed

text \<open>
  (C15) The only way to open a public port. If a step of a connection handler brings a forward
  into being, the handler was serving a \<open>tcpip-forward\<close> request; the lease it authenticated for
  was live in the store at that moment and registered to this connection, with no forward; and
  the listener is the one for the port allocated to that lease, whatever port the client asked
  for.
\<close>

theorem port_opened_only_by_owner:
  assumes "handshake_ok M (hi_ssh x)" "handleConn_step W x c s = ((rs, c'), s')"
    "m_forwards (sv_manager s) fp = None" "m_forwards (sv_manager s') fp = Some f"
  shows "\<exists>i l req cur sp st. hc_pc c = HServe i l \<and> hi_request x = Some req \<and> rq_Type req = ''tcpip-forward''
    \<and> lease_live (mo_get (hi_moment x)) (mo_now (hi_moment x)) (l_LeaseID l) = Some cur
    \<and> gm_get (m_leases (sv_manager s)) (l_LeaseID l) = Some sp \<and> m_states (sv_manager s) sp = Some st
    \<and> ls_conn st = hc_id c \<and> ls_forward st = None
    \<and> hi_listen x (l_AllocatedPort cur) = Inr (f_listener f)
    \<and> f_allowNets f = parseCIDRs (l_AllowlistCIDRs cur)"
  using assms(2)
proof (cases rule: step_manager)
  case (handshake r s1)
  then show ?thesis using handshake_manager [OF assms(1) handshake(2)] assms(3,4) by (auto simp: log_close_def)
next
  case (register i l ok m1)
  then show ?thesis using no_new_forward(4) [OF assms(3) register(2)] assms(4) by (auto simp: log_close_def split: if_splits)
next
  case (closed i)
  then show ?thesis using no_new_forward(3) [OF assms(3)] assms(4) by (auto simp: log_close_def)
next
  case same
  then show ?thesis using assms(3,4) by (auto simp: log_close_def)
next
  case (request i l req)
  show ?thesis
  proof (cases rule: request_cases [of req W "hi_moment x" "hi_listen x" "hc_id c" l "sv_manager s"])
    case (forward addr port r m1)
    have new: "m_forwards m1 fp = Some f" using forward(4) request(3) assms(4) by (auto simp: log_close_def split: if_splits)
    show ?thesis
    proof (cases rule: StartForward_cases [of "mo_get (hi_moment x)" "mo_now (hi_moment x)" "hi_listen x" "hc_id c" "l_LeaseID l" addr port "sv_manager s"])
      case (refused e)
      then show ?thesis using forward(3) new assms(3) by simp
    next
      case (started cur sp st ln g)
      then have "m_forwards m1 = (m_forwards (sv_manager s))(m_brk (sv_manager s) \<mapsto> g)"
        using forward(3) by (auto simp: upd_state_def upd_forward_def)
      then have "f = g" using new assms(3) by (auto split: if_splits)
      then show ?thesis using started request(1,2) forward(1) by auto
    qed
  next
    case cancel
    then show ?thesis using no_new_forward(2) [OF assms(3)] assms(4) request(3) by simp
  next
    case other
    then show ?thesis using assms(3,4) request(3) by simp
  qed
qed


definition demo_serving :: "string Server" where
  "demo_serving = upd_manager (sy_m (do_register (Get ref_store1) 1 7 ''a'' (sys_init 1))) demo_server"

lemma demo_forwarded:
  "case handleConn_step demo_wire demo_input \<lparr>hc_id = 7, hc_pc = HServe ''a'' ref_lease\<rparr> demo_serving of
     (o1, s') \<Rightarrow> \<exists>f. m_forwards (sv_manager s') 1 = Some f"
  by (simp add: handleConn_step_def demo_serving_def demo_input_def store_moment_def handleGlobalRequest_def demo_wire_def
      do_register_def RegisterConn_cs_def sys_init_def NewManager_def lease_live_def ref_store1_get demo_live Let_def
      StartForward_def upd_state_def upd_forward_def new_state_def upd_manager_def demo_server_def)

lemma demo_none: "m_forwards (sv_manager demo_serving) 1 = None"
  by (simp add: demo_serving_def do_register_def RegisterConn_cs_def sys_init_def NewManager_def lease_live_def
      ref_store1_get demo_live Let_def upd_state_def)

theorem port_opened_only_by_owner_witness:
  "\<exists>(f :: forward) cur. lease_live (Get ref_store1) 1 ''a'' = Some cur \<and> f_allowNets f = parseCIDRs (l_AllowlistCIDRs cur)
     \<and> f_listener f = 3"
proof -
  let ?c = "\<lparr>hc_id = 7, hc_pc = HServe ''a'' ref_lease\<rparr>"
  obtain rs c' s' where run: "handleConn_step demo_wire demo_input ?c demo_serving = ((rs, c'), s')"
    by (metis prod.collapse)
  then obtain f where f: "m_forwards (sv_manager s') 1 = Some f" using demo_forwarded by auto
  have x: "mo_get (hi_moment demo_input) = Get ref_store1" "mo_now (hi_moment demo_input) = 1"
    "\<And>p. hi_listen demo_input p = Inr 3" by (simp_all add: demo_input_def store_moment_def)
  from port_opened_only_by_owner [OF demo_handshake_ok run demo_none f] show ?thesis
    unfolding x using demo_live(2) by (auto intro!: exI [of _ f])
qed

section \<open>Keepalives\<close>

definition missed :: "ka_event \<Rightarrow> bool" where
  "missed e = (case e of KaTick a \<Rightarrow> sendKeepalive a \<noteq> None | KaDone \<Rightarrow> False)"

lemma missed_simps [simp]: "missed (KaTick a) = (sendKeepalive a \<noteq> None)" "\<not> missed KaDone"
  by (simp_all add: missed_def)

text \<open>The events before the context is cancelled.\<close>

definition alive :: "ka_event list \<Rightarrow> bool list" where
  "alive es = map missed (takeWhile (\<lambda>e. e \<noteq> KaDone) es)"

lemma alive_simps [simp]: "alive [] = []" "alive (KaDone # es) = []" "alive (KaTick a # es) = missed (KaTick a) # alive es"
  by (simp_all add: alive_def)

text \<open>Three misses in a row, or as many as complete the streak already begun.\<close>

lemma keepalive_closes:
  "0 \<le> misses \<Longrightarrow> misses < 3 \<Longrightarrow>
   keepalive_loop misses es = KaClosed \<longleftrightarrow>
     prefix (replicate (nat (3 - misses)) True) (alive es) \<or> sublist (replicate 3 True) (alive es)"
proof (induction misses es rule: keepalive_loop.induct)
  case (1 misses)
  then show ?case by (cases "nat (3 - misses)") (auto simp: numeral_eq_Suc)
next
  case (2 misses es)
  then show ?case by (cases "nat (3 - misses)") (auto simp: numeral_eq_Suc)
next
  case (3 misses a es)
  show ?case
  proof (cases "sendKeepalive a")
    case None
    have "nat (3 - misses) = Suc (nat (2 - misses))" using 3 by simp
    then show ?thesis using 3 None by (auto simp: sublist_Cons_right numeral_eq_Suc)
  next
    case (Some e)
    have n: "nat (3 - misses) = Suc (nat (3 - (misses + 1)))" using 3 by simp
    have pre: "prefix (replicate 2 True) (alive es) \<Longrightarrow> prefix (replicate (nat (3 - (misses + 1))) True) (alive es)"
    proof -
      have "nat (3 - (misses + 1)) \<le> 2" using 3(3) by simp
      then have "replicate 2 True = replicate (nat (3 - (misses + 1))) True @ replicate (2 - nat (3 - (misses + 1))) True"
        by (metis le_add_diff_inverse replicate_add)
      then show "prefix (replicate 2 True) (alive es) \<Longrightarrow> prefix (replicate (nat (3 - (misses + 1))) True) (alive es)"
        by (metis append_prefixD)
    qed
    show ?thesis
    proof (cases "misses + 1 \<ge> 3")
      case True
      then have "misses = 2" using 3 by simp
      then show ?thesis using Some by simp
    next
      case False
      have "keepalive_loop misses (KaTick a # es) = keepalive_loop (misses + 1) es" using Some False by (simp add: Let_def)
      also have "\<dots> = KaClosed \<longleftrightarrow> prefix (replicate (nat (3 - (misses + 1))) True) (alive es) \<or> sublist (replicate 3 True) (alive es)"
        using 3(1) Some False 3(3) by (simp add: Let_def)
      finally show ?thesis
        using Some n pre by (auto simp: sublist_Cons_right numeral_3_eq_3 numeral_2_eq_2)
    qed
  qed
qed


text \<open>
  (C25) Keepalives. With a positive interval the connection is closed exactly when three
  keepalives in a row fail or time out before the connection's context is cancelled, and at the
  third of them; with fewer, or with a success between them, it stays open. Without an interval
  it is never closed by keepalives.
\<close>

theorem keepalive_exact:
  "(0 < interval \<longrightarrow> (keepalive interval es = KaClosed \<longleftrightarrow> sublist [True, True, True] (alive es)))
   \<and> (interval \<le> 0 \<longrightarrow> keepalive interval es = KaReturned)"
  using keepalive_closes [of 0 es]
  by (auto simp: keepalive_def numeral_3_eq_3 dest: prefix_imp_sublist)

theorem keepalive_exact_witness:
  "keepalive 30 [KaTick TimedOut, KaTick (Replied None), KaTick TimedOut, KaTick (Replied (Some ''x'')), KaTick TimedOut] = KaClosed
   \<and> keepalive 30 [KaTick TimedOut, KaTick TimedOut, KaDone, KaTick TimedOut] \<noteq> KaClosed"
proof -
  have "sublist [True, True, True] (alive [KaTick TimedOut, KaTick (Replied None), KaTick TimedOut,
      KaTick (Replied (Some ''x'')), KaTick TimedOut])" by (simp add: sublist_Cons_right)
  moreover have "\<not> sublist [True, True, True] (alive [KaTick TimedOut, KaTick TimedOut, KaDone, KaTick TimedOut])"
    by (simp add: sublist_Cons_right)
  ultimately show ?thesis using keepalive_exact [of 30] by simp
qed

section \<open>The accept loop\<close>

text \<open>The attempts the limiter sees: the connections accepted before the loop returns.\<close>

fun attempts :: "serve_event list \<Rightarrow> (time \<times> string) list" where
  "attempts [] = []"
| "attempts (SvAccepted c a now # es) = (now, remoteIP a) # attempts es"
| "attempts (SvError isDone later # es) = (if isDone \<or> later then [] else attempts es)"

text \<open>The connections accepted, in order.\<close>

fun arrivals :: "serve_event list \<Rightarrow> nat list" where
  "arrivals [] = []"
| "arrivals (SvAccepted c a now # es) = c # arrivals es"
| "arrivals (SvError isDone later # es) = (if isDone \<or> later then [] else arrivals es)"

definition from_source :: "string \<Rightarrow> time \<Rightarrow> time \<Rightarrow> (nat \<times> netaddr \<times> time) list \<Rightarrow> int" where
  "from_source ip lo hi hs = int (length (filter (\<lambda>(c, a, t). remoteIP a = ip \<and> lo \<le> t \<and> t \<le> hi) hs))"

lemma serve_counts:
  "Serve b es s = ((hs, ds), s') \<Longrightarrow>
   from_source ip lo hi hs = accepted lo hi ip (attempts es) (allow_run (attempts es) (sv_limiter s))
   \<and> sv_authFailures s' - sv_authFailures s = int (length (attempts es)) - int (length hs)"
proof (induction b es s arbitrary: hs ds s' rule: Serve.induct)
  case (1 b s)
  then show ?case by (simp add: from_source_def accepted_def)
next
  case (2 b isDone later es s)
  then show ?case by (auto simp: from_source_def accepted_def Let_def split: if_splits prod.splits)
next
  case (3 b c a now es s)
  obtain ok lim where al: "allow now (remoteIP a) (sv_limiter s) = (ok, lim)"
    by (cases "allow now (remoteIP a) (sv_limiter s)")
  show ?case
  proof (cases ok)
    case True
    then obtain hs1 where rec: "Serve 0 es (s\<lparr>sv_limiter := lim\<rparr>) = ((hs1, ds), s')" "hs = (c, a, now) # hs1"
      using 3(3) al by (auto split: prod.splits)
    show ?thesis
      using 3(1) [OF al [symmetric] _ rec(1)] al True rec(2) by (simp add: accepted_Cons from_source_def)
  next
    case False
    then have rec: "Serve 0 es (upd_manager (log_close [HConn c] (sv_manager s))
        (s\<lparr>sv_limiter := lim, sv_authFailures := sv_authFailures s + 1\<rparr>)) = ((hs, ds), s')"
      using 3(3) al by simp
    show ?thesis
      using 3(2) [OF al [symmetric] _ rec] al False by (simp add: accepted_Cons upd_manager_def)
  qed
qed

lemma serve_delays:
  "Serve b es s = ((hs, ds), s') \<Longrightarrow> b = 0 \<or> 5 * Millisecond \<le> b \<and> b \<le> Second \<Longrightarrow>
   list_all (\<lambda>d. 5 * Millisecond \<le> d \<and> d \<le> Second) ds"
proof (induction b es s arbitrary: hs ds s' rule: Serve.induct)
  case (2 b isDone later es s)
  have nb: "5 * Millisecond \<le> next_backoff b \<and> next_backoff b \<le> Second"
    using 2(3) by (intro next_backoff_range) (auto simp: Millisecond_def)
  show ?case
  proof (cases "isDone \<or> later")
    case True
    then show ?thesis using 2(2) nb by (auto simp: Let_def split: if_splits)
  next
    case False
    then obtain ds1 where rec: "Serve (next_backoff b) es s = ((hs, ds1), s')" "ds = next_backoff b # ds1"
      using 2(2) by (auto simp: Let_def split: prod.splits)
    then show ?thesis using 2(1) [OF _ refl _ rec(1)] False nb by simp
  qed
next
  case (3 b c a now es s)
  then show ?case by (auto split: prod.splits bool.splits)
qed simp

text \<open>Of the connections accepted, those not handed over are closed, and nothing else is.\<close>

lemma serve_closes:
  "Serve b es s = ((hs, ds), s') \<Longrightarrow>
   \<exists>rs. mset rs + mset (map fst hs) = mset (arrivals es) \<and> sv_manager s' = log_close (map HConn rs) (sv_manager s)
     \<and> sv_authFailures s' = sv_authFailures s + int (length rs)"
proof (induction b es s arbitrary: hs ds s' rule: Serve.induct)
  case (1 b s)
  then show ?case by (simp add: log_close_def)
next
  case (2 b isDone later es s)
  show ?case
  proof (cases "isDone \<or> later")
    case True
    then show ?thesis using 2(2) by (auto simp: Let_def log_close_def split: if_splits)
  next
    case False
    then obtain ds1 where "Serve (next_backoff b) es s = ((hs, ds1), s')" using 2(2) by (auto simp: Let_def split: prod.splits)
    then show ?thesis using 2(1) [OF _ refl] False by simp
  qed
next
  case (3 b c a now es s)
  obtain ok lim where al: "allow now (remoteIP a) (sv_limiter s) = (ok, lim)"
    by (cases "allow now (remoteIP a) (sv_limiter s)")
  show ?case
  proof (cases ok)
    case True
    then obtain hs1 where rec: "Serve 0 es (s\<lparr>sv_limiter := lim\<rparr>) = ((hs1, ds), s')" "hs = (c, a, now) # hs1"
      using 3(3) al by (auto split: prod.splits)
    show ?thesis using 3(1) [OF al [symmetric] _ rec(1)] True rec(2) by simp
  next
    case False
    then have rec: "Serve 0 es (upd_manager (log_close [HConn c] (sv_manager s))
        (s\<lparr>sv_limiter := lim, sv_authFailures := sv_authFailures s + 1\<rparr>)) = ((hs, ds), s')"
      using 3(3) al by simp
    then obtain rs where rs: "mset rs + mset (map fst hs) = mset (arrivals es)"
      "sv_manager s' = log_close (map HConn rs) (log_close [HConn c] (sv_manager s))"
      "sv_authFailures s' = sv_authFailures s + 1 + int (length rs)"
      using 3(2) [OF al [symmetric] _ rec] False by (auto simp: upd_manager_def)
    then show ?thesis by (intro exI [of _ "c # rs"]) (simp add: log_close_def)
  qed
qed

text \<open>
  (C24) The front door. Starting from a fresh limiter, whatever connections and errors arrive
  (in the order of the clock), at most \<open>2 * max - 1\<close> connections of one source address
  reach a handler in any interval as long as the window; every other connection accepted is closed and
  counted as a failure, and the loop closes nothing else; after accept errors the loop pauses
  between 5 milliseconds and one second.
\<close>

theorem serve_bounded:
  assumes "sv_limiter s = newAuthLimiter mx window" "1 \<le> mx" "0 \<le> window" "window < 2 ^ 63 - 1"
    "sorted (map fst (attempts es))" "Serve 0 es s = ((hs, ds), s')"
  shows "from_source ip T (T + window) hs \<le> 2 * mx - 1
    \<and> (\<exists>rs. mset rs + mset (map fst hs) = mset (arrivals es)
        \<and> m_closed (sv_manager s') = m_closed (sv_manager s) @ map HConn rs
        \<and> sv_authFailures s' = sv_authFailures s + int (length rs))
    \<and> list_all (\<lambda>d. 5 * Millisecond \<le> d \<and> d \<le> Second) ds"
  using serve_counts [OF assms(6), of ip T "T + window"] serve_delays [OF assms(6)] serve_closes [OF assms(6)]
    rate_bound [OF assms(2-5), of T ip] assms(1) by (auto simp: log_close_def)

theorem serve_bounded_witness:
  "case Serve 0 [SvAccepted 1 (OtherAddr ''x'') 0, SvError False False, SvAccepted 2 (OtherAddr ''x'') 5] demo_server of
     ((hs, ds), s') \<Rightarrow> from_source ''x'' 0 60 hs \<le> 1 \<and> map fst hs = [1] \<and> m_closed (sv_manager s') = [HConn 2]"
proof -
  let ?es = "[SvAccepted 1 (OtherAddr ''x'') 0, SvError False False, SvAccepted 2 (OtherAddr ''x'') 5]"
  obtain hs ds s' where run: "Serve 0 ?es demo_server = ((hs, ds), s')" by (metis prod.collapse)
  have hyps: "sv_limiter demo_server = newAuthLimiter 1 60" "sorted (map fst (attempts ?es))"
    "m_closed (sv_manager demo_server) = []"
    by (simp_all add: demo_server_def NewManager_def)
  have ip: "remoteIP (OtherAddr ''x'') = ''x''" by code_simp
  have hs: "map fst hs = [1]"
    using run by (auto simp: ip demo_server_def allow_def maybeCleanup_def newAuthLimiter_def time_Sub_def
        authCleanupInterval_def Second_def authHardCap_def Let_def upd_manager_def)
  note sb = serve_bounded [OF hyps(1) _ _ _ hyps(2) run, of "''x''" 0]
  then obtain rs where rs: "mset rs + mset [1] = mset [1, 2]" "m_closed (sv_manager s') = map HConn rs"
    using hs hyps(3) by auto
  have "mset rs = {#2#}" using rs(1) by simp
  then have "rs = [2]" by (simp add: mset_single_iff)
  then show ?thesis using sb run hs rs(2) by simp
qed

section \<open>The host key\<close>

text \<open>A sequence of starts of the server, with what the system answers in each.\<close>

fun starts ::
  "('priv, 'key) keyio list \<Rightarrow> string \<Rightarrow> (string \<rightharpoonup> string) \<Rightarrow> (string, 'key) result list \<times> (string \<rightharpoonup> string)" where
  "starts [] path fs = ([], fs)"
| "starts (K # Ks) path fs =
     (case loadOrCreateHostKey K path fs of (r, fs1) \<Rightarrow> (case starts Ks path fs1 of (rs, fs2) \<Rightarrow> (r # rs, fs2)))"

text \<open>A start that succeeded has left a file that decodes to its key.\<close>

lemma started_key:
  assumes "loadOrCreateHostKey K path fs = (Inr key, fs')"
  shows "\<exists>content. fs' path = Some content \<and> ki_parse K content = Inr key"
  using assms by (auto simp: loadOrCreateHostKey_def Let_def split: option.splits sum.splits if_splits)

lemma readable_start:
  assumes "fs path = Some content" "\<not> ki_readFails K" "ki_parse K content = Inr key"
  shows "loadOrCreateHostKey K path fs = (Inr key, fs)"
  using assms by (simp add: loadOrCreateHostKey_def)

text \<open>
  (C26) The host key is stable. When the server has started once, every one of the following
  starts has the same key, whatever key it would generate, as long as none of them fails to
  read the file (one that does replaces the key, see below); no file changes in between. The
  first start itself keeps a key file it can read, and no start touches another file.
\<close>

theorem host_key_stable:
  assumes "loadOrCreateHostKey K path fs = (Inr key, fs')"
    "\<forall>K' \<in> set Ks. \<not> ki_readFails K' \<and> ki_parse K' = ki_parse K"
  shows "starts Ks path fs' = (replicate (length Ks) (Inr key), fs')
    \<and> (\<not> ki_readFails K \<and> fs path \<noteq> None \<longrightarrow> fs' = fs) \<and> (\<forall>p. p \<noteq> path \<longrightarrow> fs' p = fs p)"
proof -
  obtain content where c: "fs' path = Some content" "ki_parse K content = Inr key" using started_key [OF assms(1)] by blast
  have "loadOrCreateHostKey K' path fs' = (Inr key, fs')" if "K' \<in> set Ks" for K'
    using c assms(2) that by (intro readable_start [of fs' path content]) auto
  then have "starts Ks path fs' = (replicate (length Ks) (Inr key), fs')" by (induction Ks) simp_all
  moreover have "(\<not> ki_readFails K \<and> fs path \<noteq> None \<longrightarrow> fs' = fs) \<and> (\<forall>p. p \<noteq> path \<longrightarrow> fs' p = fs p)"
    using assms(1) by (auto simp: loadOrCreateHostKey_def Let_def split: option.splits sum.splits if_splits)
  ultimately show ?thesis by blast
qed

definition demo_keyio :: "string \<Rightarrow> (string, string) keyio" where
  "demo_keyio priv = \<lparr>ki_readFails = False, ki_parse = Inr, ki_generate = Inr priv, ki_pkcs8 = Inr,
     ki_pem = (\<lambda>d. ''PEM'' @ d), ki_writeErr = None\<rparr>"

theorem host_key_stable_witness:
  "loadOrCreateHostKey (demo_keyio ''1'') ''k'' Map.empty = (Inr ''PEM1'', [''k'' \<mapsto> ''PEM1''])
   \<and> starts [demo_keyio ''2'', demo_keyio ''3''] ''k'' [''k'' \<mapsto> ''PEM1''] = ([Inr ''PEM1'', Inr ''PEM1''], [''k'' \<mapsto> ''PEM1''])"
proof -
  have run: "loadOrCreateHostKey (demo_keyio ''1'') ''k'' Map.empty = (Inr ''PEM1'', [''k'' \<mapsto> ''PEM1''])"
    by (simp add: loadOrCreateHostKey_def demo_keyio_def Let_def)
  have "\<forall>K' \<in> set [demo_keyio ''2'', demo_keyio ''3'']. \<not> ki_readFails K' \<and> ki_parse K' = ki_parse (demo_keyio ''1'')"
    by (simp add: demo_keyio_def)
  from host_key_stable [OF run this] run show ?thesis by simp
qed

text \<open>
  The comment promises a key that is generated on the first run only. Any failure to read the
  file counts as a first run: a key that is there but cannot be read once is replaced.
\<close>

lemma unreadable_key_replaced:
  "loadOrCreateHostKey ((demo_keyio ''2'')\<lparr>ki_readFails := True\<rparr>) ''k'' [''k'' \<mapsto> ''PEM1''] = (Inr ''PEM2'', [''k'' \<mapsto> ''PEM2''])"
  by (simp add: loadOrCreateHostKey_def demo_keyio_def Let_def)

end
