(* ===== verification/Connections.thy ===== *)
theory Connections
  imports Sshd_Server
begin

text \<open>
  All SSH connections of a running server together (\<open>src/internal/tunnel/sshd/server.go\<close> with
  \<open>forward.go\<close>): the accept loop starts handlers, any of them takes its next step, and
  teardowns, visitors and the work left after a released lock go on between them. Shown here is
  what the comment in \<open>handleConn\<close> promises: a lease has one live connection.
\<close>

section \<open>Handlers that release the lock\<close>

text \<open>
  A step of a handler up to the point where the manager's lock is released, with the work that
  follows: \<open>RegisterConn\<close> closes the displaced connection, \<open>CancelForward\<close> and
  \<open>OnConnClosed\<close> close a forward, and the last statement closes the connection itself.
\<close>

definition handleConn_cs ::
  "sshwire \<Rightarrow> 'key hinput \<Rightarrow> hconn \<Rightarrow> 'key Server \<Rightarrow> (hconn \<times> task list) \<times> 'key Server" where
  "handleConn_cs W x c s =
     (let goto = (\<lambda>pc. c\<lparr>hc_pc := pc\<rparr>); mo = hi_moment x;
          step = (case handleConn_step W x c s of ((rs, c'), s') \<Rightarrow> ((c', []), s')) in
      case hc_pc c of
        HRegister leaseID l \<Rightarrow>
          (case RegisterConn_cs (mo_get mo) (mo_now mo) (hc_id c) leaseID (sv_manager s) of
             ((False, ts), m') \<Rightarrow>
               ((goto HReturned, ts @ [CloseConn (hc_id c)]), upd_manager m' (s\<lparr>sv_connected := sv_connected s - 1\<rparr>))
           | ((True, ts), m') \<Rightarrow> ((goto (HServe leaseID l), ts), upd_manager m' s))
      | HServe leaseID l \<Rightarrow>
          (case hi_request x of
             None \<Rightarrow> step
           | Some req \<Rightarrow>
               if rq_Type req = ''cancel-tcpip-forward''
               then (case CancelForward_cs (l_LeaseID l) (hc_id c) (sv_manager s) of (ts, m') \<Rightarrow> ((c, ts), upd_manager m' s))
               else step)
      | HClosed leaseID \<Rightarrow>
          (case OnConnClosed_cs leaseID (hc_id c) (sv_manager s) of
             (ts, m') \<Rightarrow>
               ((goto HReturned, ts @ [CloseConn (hc_id c)]), upd_manager m' (s\<lparr>sv_connected := sv_connected s - 1\<rparr>)))
      | _ \<Rightarrow> step)"

lemma run_tasks_append: "run_tasks (ts @ us) m = run_tasks us (run_tasks ts m)"
  by (simp add: run_tasks_def)

lemma run_task_CloseConn [simp]: "run_task (CloseConn c) m = log_close [HConn c] m"
  by (simp add: run_task_def)

lemma upd_manager_twice [simp]:
  "upd_manager m (upd_manager m' s) = upd_manager m s" "upd_manager (sv_manager s) s = s"
  "upd_manager m (s\<lparr>sv_connected := n\<rparr>) = (upd_manager m s)\<lparr>sv_connected := n\<rparr>"
  "sv_connected (upd_manager m s) = sv_connected s"
  by (simp_all add: upd_manager_def)

text \<open>Run to its end at once, this is the step of the handler.\<close>

lemma handleConn_cs_step:
  assumes "handleConn_cs W x c s = ((c', ts), s1)"
  shows "\<exists>rs. handleConn_step W x c s = ((rs, c'), upd_manager (run_tasks ts (sv_manager s1)) s1)"
proof (cases "hc_pc c")
  case (HRegister i l)
  then show ?thesis using assms
    by (auto simp: handleConn_cs_def handleConn_step_def RegisterConn_def run_tasks_append Let_def split: prod.splits bool.splits)
next
  case (HServe i l)
  then show ?thesis using assms
    by (auto simp: handleConn_cs_def handleConn_step_def handleGlobalRequest_def CancelForward_def Let_def
        split: prod.splits option.splits if_splits)
next
  case (HClosed i)
  then show ?thesis using assms
    by (auto simp: handleConn_cs_def handleConn_step_def OnConnClosed_def run_tasks_append Let_def split: prod.splits)
qed (use assms in \<open>auto simp: handleConn_cs_def Let_def split: prod.splits\<close>)

section \<open>The running server\<close>

record 'key conns =
  cn_server :: "'key Server"
  cn_handlers :: "hconn list"
  cn_vs :: "visitor list"
  cn_todo :: "task list"

abbreviation cn_m :: "'key conns \<Rightarrow> Manager" where "cn_m s \<equiv> sv_manager (cn_server s)"

text \<open>
  The steps. An accepted connection is a new handle; what the accept loop hands on gets a
  handler. \<open>get\<close> is what the lease store answers at the time of the step; \<open>hangup\<close> is a
  connection closed by its peer or by the keepalives.
\<close>

inductive conn_step :: "sshwire \<Rightarrow> (string \<Rightarrow> Lease option) \<Rightarrow> 'key conns \<Rightarrow> 'key conns \<Rightarrow> bool" for W get where
  accept: "c \<notin> hc_id ` set (cn_handlers s) \<Longrightarrow> HConn c \<notin> set (m_closed (cn_m s)) \<Longrightarrow> CloseConn c \<notin> set (cn_todo s) \<Longrightarrow>
     Serve 0 [SvAccepted c a now] (cn_server s) = ((acc, ds), srv) \<Longrightarrow>
     conn_step W get s (s\<lparr>cn_server := srv,
       cn_handlers := cn_handlers s @ map (\<lambda>(c, a, now). \<lparr>hc_id = c, hc_pc = HHandshake\<rparr>) acc\<rparr>)"
| handler: "k < length (cn_handlers s) \<Longrightarrow> handshake_ok M (hi_ssh x) \<Longrightarrow> mo_get (hi_moment x) = get \<Longrightarrow>
     handleConn_cs W x (cn_handlers s ! k) (cn_server s) = ((c', ts), srv) \<Longrightarrow>
     conn_step W get s (s\<lparr>cn_server := srv, cn_handlers := (cn_handlers s)[k := c'], cn_todo := cn_todo s @ ts\<rparr>)"
| hangup: "conn_step W get s (s\<lparr>cn_server := upd_manager (log_close [HConn c] (cn_m s)) (cn_server s)\<rparr>)"
| teardown: "Teardown_cs i (cn_m s) = (ts, m') \<Longrightarrow>
     conn_step W get s (s\<lparr>cn_server := upd_manager m' (cn_server s), cn_todo := cn_todo s @ ts\<rparr>)"
| tail: "k < length (cn_todo s) \<Longrightarrow>
     conn_step W get s (s\<lparr>cn_server := upd_manager (run_task (cn_todo s ! k) (cn_m s)) (cn_server s),
       cn_todo := take k (cn_todo s) @ drop (Suc k) (cn_todo s)\<rparr>)"
| spawn: "m_states (cn_m s) sp \<noteq> None \<Longrightarrow> m_forwards (cn_m s) fp \<noteq> None \<Longrightarrow> vc \<notin> v_conn ` set (cn_vs s) \<Longrightarrow>
     conn_step W get s (s\<lparr>cn_vs := cn_vs s @ [new_visitor sp fp vc a]\<rparr>)"
| visit: "k < length (cn_vs s) \<Longrightarrow> visitor_step env (cn_vs s ! k) (cn_m s) = (v', m') \<Longrightarrow>
     conn_step W get s (s\<lparr>cn_server := upd_manager m' (cn_server s), cn_vs := (cn_vs s)[k := v']\<rparr>)"

inductive_cases conn_step_cases: "conn_step W get s s'"

definition conns_init :: "'key Server \<Rightarrow> 'key conns" where
  "conns_init srv = \<lparr>cn_server = srv, cn_handlers = [], cn_vs = [], cn_todo = []\<rparr>"

text \<open>Runs from a server as \<open>New\<close> returns it: an empty manager and a gauge at zero.\<close>

inductive conn_reach :: "sshwire \<Rightarrow> int \<Rightarrow> 'key conns \<Rightarrow> bool" for W maxVisitors where
  init: "sv_manager srv = NewManager maxVisitors \<Longrightarrow> sv_connected srv = 0 \<Longrightarrow> conn_reach W maxVisitors (conns_init srv)"
| step: "conn_reach W maxVisitors s \<Longrightarrow> conn_step W get s s' \<Longrightarrow> conn_reach W maxVisitors s'"

section \<open>The manager inside it\<close>

definition cn_sys :: "'key conns \<Rightarrow> sys" where
  "cn_sys s = \<lparr>sy_m = cn_m s, sy_vs = cn_vs s, sy_todo = cn_todo s\<rparr>"

lemma cn_sys_sel [simp]: "sy_m (cn_sys s) = cn_m s" "sy_vs (cn_sys s) = cn_vs s" "sy_todo (cn_sys s) = cn_todo s"
  by (simp_all add: cn_sys_def)

lemma sys_reach_steps: "(sys_step get)\<^sup>*\<^sup>* s s' \<Longrightarrow> sys_reach n s \<Longrightarrow> sys_reach n s'"
  by (induction rule: rtranclp_induct) (auto intro: sys_reach.step)

text \<open>The ways a handler moves: with a registration, with its end, with a cancellation, or with none of them.\<close>

definition plain_step :: "'key hinput \<Rightarrow> hconn \<Rightarrow> bool" where
  "plain_step x c \<longleftrightarrow> (case hc_pc c of HRegister _ _ \<Rightarrow> False | HClosed _ \<Rightarrow> False
     | HServe _ _ \<Rightarrow> (\<forall>req. hi_request x = Some req \<longrightarrow> rq_Type req \<noteq> ''cancel-tcpip-forward'') | _ \<Rightarrow> True)"

lemma handleConn_cs_cases [consumes 1, case_names register closed cancel plain]:
  assumes "handleConn_cs W x c s = ((c', ts), s')"
    "\<And>i l ok us m'. hc_pc c = HRegister i l \<Longrightarrow>
       RegisterConn_cs (mo_get (hi_moment x)) (mo_now (hi_moment x)) (hc_id c) i (sv_manager s) = ((ok, us), m') \<Longrightarrow>
       c' = c\<lparr>hc_pc := if ok then HServe i l else HReturned\<rparr> \<Longrightarrow> ts = (if ok then us else us @ [CloseConn (hc_id c)]) \<Longrightarrow>
       s' = upd_manager m' (if ok then s else s\<lparr>sv_connected := sv_connected s - 1\<rparr>) \<Longrightarrow> P"
    "\<And>i us m'. hc_pc c = HClosed i \<Longrightarrow> OnConnClosed_cs i (hc_id c) (sv_manager s) = (us, m') \<Longrightarrow>
       c' = c\<lparr>hc_pc := HReturned\<rparr> \<Longrightarrow> ts = us @ [CloseConn (hc_id c)] \<Longrightarrow>
       s' = upd_manager m' (s\<lparr>sv_connected := sv_connected s - 1\<rparr>) \<Longrightarrow> P"
    "\<And>i l m'. hc_pc c = HServe i l \<Longrightarrow> CancelForward_cs (l_LeaseID l) (hc_id c) (sv_manager s) = (ts, m') \<Longrightarrow>
       c' = c \<Longrightarrow> s' = upd_manager m' s \<Longrightarrow> P"
    "\<And>rs. plain_step x c \<Longrightarrow> handleConn_step W x c s = ((rs, c'), s') \<Longrightarrow> ts = [] \<Longrightarrow> P"
  shows P
proof (cases "hc_pc c")
  case (HRegister i l)
  obtain ok us m' where r: "RegisterConn_cs (mo_get (hi_moment x)) (mo_now (hi_moment x)) (hc_id c) i (sv_manager s) = ((ok, us), m')"
    by (metis prod.collapse)
  show ?thesis
    by (rule assms(2) [OF HRegister r]) (use assms(1) HRegister r in \<open>cases ok; auto simp: handleConn_cs_def Let_def\<close>)+
next
  case (HClosed i)
  obtain us m' where r: "OnConnClosed_cs i (hc_id c) (sv_manager s) = (us, m')" by fastforce
  show ?thesis
    by (rule assms(3) [OF HClosed r]) (use assms(1) HClosed r in \<open>auto simp: handleConn_cs_def Let_def\<close>)
next
  case (HServe i l)
  show ?thesis
  proof (cases "plain_step x c")
    case True
    then have "\<exists>rs. handleConn_step W x c s = ((rs, c'), s') \<and> ts = []" using assms(1) HServe
      by (auto simp: handleConn_cs_def plain_step_def Let_def split: option.splits prod.splits)
    then show ?thesis using assms(5) True by blast
  next
    case False
    obtain us m' where r: "CancelForward_cs (l_LeaseID l) (hc_id c) (sv_manager s) = (us, m')" by fastforce
    have "ts = us" "c' = c" "s' = upd_manager m' s"
      using False assms(1) HServe r by (auto simp: handleConn_cs_def plain_step_def Let_def)
    then show ?thesis using assms(4) [OF HServe] r by simp
  qed
qed (use assms(1,5) in \<open>auto simp: handleConn_cs_def plain_step_def Let_def split: prod.splits\<close>)

abbreviation sys_of :: "Manager \<Rightarrow> visitor list \<Rightarrow> task list \<Rightarrow> sys" where
  "sys_of m vs ts \<equiv> \<lparr>sy_m = m, sy_vs = vs, sy_todo = ts\<rparr>"

lemma sys_steps_mgr: "mgr_steps get m m' \<Longrightarrow> (sys_step get)\<^sup>*\<^sup>* (sys_of m vs ts) (sys_of m' vs ts)"
  unfolding mgr_steps_def by blast

lemma handler_sys:
  assumes "handshake_ok M (hi_ssh x)" "handleConn_cs W x c s = ((c', ts), s')"
  shows "(sys_step (mo_get (hi_moment x)))\<^sup>*\<^sup>* (sys_of (sv_manager s) vs todo) (sys_of (sv_manager s') vs (todo @ ts))"
proof -
  let ?G = "mo_get (hi_moment x)"
  have later: "sys_step ?G (sys_of m vs us) (sys_of m vs (us @ [CloseConn d]))" for m us d
    using sys_step.hangup [of ?G "sys_of m vs us" d] by simp
  from assms(2) show ?thesis
  proof (cases rule: handleConn_cs_cases)
    case (register i l ok us m')
    have "sys_step ?G (sys_of (sv_manager s) vs todo) (sys_of m' vs (todo @ us))"
      using sys_step.register [of ?G _ _ _ "sys_of (sv_manager s) vs todo"] register(2) by fastforce
    then show ?thesis using register(4,5) later [of m' "todo @ us" "hc_id c"] by (cases ok) auto
  next
    case (closed i us m')
    have "sys_step ?G (sys_of (sv_manager s) vs todo) (sys_of m' vs (todo @ us))"
      using sys_step.onclose [of _ _ "sys_of (sv_manager s) vs todo"] closed(2) by fastforce
    then show ?thesis using closed(4,5) later [of m' "todo @ us" "hc_id c"] by auto
  next
    case (cancel i l m')
    then show ?thesis using sys_step.cancel [of _ _ "sys_of (sv_manager s) vs todo"] by fastforce
  next
    case (plain rs)
    then show ?thesis using sys_steps_mgr [OF handler_mgr_steps [OF assms(1) plain(2)]] by simp
  qed
qed

text \<open>
  Whatever the connections do, the manager inside takes steps of the interleaved machine, so
  all that is shown of that machine holds in the running server.
\<close>

lemma conn_step_sys:
  assumes "conn_step W get s s'"
  shows "(sys_step get)\<^sup>*\<^sup>* (cn_sys s) (cn_sys s')"
  using assms
proof cases
  case (accept c a now acc ds srv)
  have "mgr_steps get (cn_m s) (sv_manager srv)"
    using accept(5) mgr_steps_close by (auto split: prod.splits bool.splits)
  from sys_steps_mgr [OF this] show ?thesis using accept(1) by (simp add: cn_sys_def)
next
  case (handler k M x c' ts srv)
  then show ?thesis using handler_sys [OF handler(3,5)] by (simp add: cn_sys_def)
next
  case (hangup c)
  then show ?thesis using sys_steps_mgr [OF mgr_steps_close] by (simp add: cn_sys_def)
next
  case (teardown i ts m')
  then show ?thesis using sys_step.teardown [of i "cn_sys s" ts m' get] by (auto simp: cn_sys_def)
next
  case (tail k)
  then show ?thesis using sys_step.tail [of k "cn_sys s" get] by (auto simp: cn_sys_def)
next
  case (spawn sp fp vc a)
  then show ?thesis using sys_step.spawn [of "cn_sys s" sp fp vc get a] by (auto simp: cn_sys_def)
next
  case (visit k env v' m')
  then show ?thesis using sys_step.visit [of k "cn_sys s" env v' m' get] by (auto simp: cn_sys_def)
qed

section \<open>Who is registered\<close>

text \<open>The connection the manager has for a lease.\<close>

definition reg :: "Manager \<Rightarrow> string \<Rightarrow> nat option" where
  "reg m i = Option.bind (gm_get (m_leases m) i) (\<lambda>sp. map_option ls_conn (m_states m sp))"

text \<open>Connections that are closed, or that somebody is about to close.\<close>

definition closing :: "Manager \<Rightarrow> task list \<Rightarrow> nat \<Rightarrow> bool" where
  "closing m ts c \<longleftrightarrow> HConn c \<in> set (m_closed m) \<or> CloseConn c \<in> set ts"

text \<open>What a step of the manager may do to them: keep a registration, or give it up by closing its connection.\<close>

definition regs_kept :: "Manager \<Rightarrow> task list \<Rightarrow> Manager \<Rightarrow> task list \<Rightarrow> bool" where
  "regs_kept m ts m' ts' \<longleftrightarrow> (\<forall>c. closing m ts c \<longrightarrow> closing m' ts' c)
     \<and> (\<forall>i c. reg m' i = Some c \<longrightarrow> reg m i = Some c)
     \<and> (\<forall>i c. reg m i = Some c \<longrightarrow> reg m' i = Some c \<or> closing m' ts' c)"

definition same_regs :: "Manager \<Rightarrow> Manager \<Rightarrow> bool" where
  "same_regs m m' \<longleftrightarrow> reg m' = reg m \<and> set (m_closed m) \<subseteq> set (m_closed m')"

lemma same_regs_refl [simp]: "same_regs m m" by (simp add: same_regs_def)

lemma same_regs_trans: "same_regs m m' \<Longrightarrow> same_regs m' m'' \<Longrightarrow> same_regs m m''"
  by (auto simp: same_regs_def)

lemma same_regs_kept: "same_regs m m' \<Longrightarrow> set ts \<subseteq> set ts' \<Longrightarrow> regs_kept m ts m' ts'"
  by (auto simp: regs_kept_def same_regs_def closing_def)

lemma same_regs_close [simp]: "same_regs m (log_close hs m)"
  by (simp add: same_regs_def fun_eq_iff reg_def)

lemma same_regs_forward_close: "same_regs m (forward_close fp m)"
  by (auto simp: forward_close_eq same_regs_def fun_eq_iff reg_def split: option.splits)

lemma same_regs_task: "same_regs m (run_task t m)"
  by (cases t) (auto simp: run_task_def same_regs_forward_close split: option.splits)

lemma same_regsI:
  assumes "m_leases m' = m_leases m" "\<And>sp. map_option ls_conn (m_states m' sp) = map_option ls_conn (m_states m sp)"
    "set (m_closed m) \<subseteq> set (m_closed m')"
  shows "same_regs m m'"
  using assms by (simp add: same_regs_def fun_eq_iff reg_def)

lemma same_regs_start:
  assumes "StartForward get now listen c i b p m = (r, m')"
  shows "same_regs m m'"
proof (cases rule: StartForward_cases [of get now listen c i b p m])
  case (refused e)
  then show ?thesis using assms by simp
next
  case (started l sp st ln f)
  then show ?thesis using assms by (intro same_regsI) auto
qed

lemma same_regs_cancel:
  assumes "CancelForward_cs i c m = (ts, m')"
  shows "same_regs m m'"
  using assms by (cases rule: CancelForward_cases [of i c m]) (auto intro!: same_regsI)

lemma same_regs_request:
  assumes "rq_Type req \<noteq> ''cancel-tcpip-forward''"
  shows "same_regs m (snd (handleGlobalRequest W mo listen c l req m))"
proof (cases rule: request_cases [of req W mo listen c l m])
  case (forward addr port r m1)
  then show ?thesis using same_regs_start [OF forward(3)] by (auto intro: same_regs_trans)
qed (use assms in simp_all)

lemma visitor_step_conn:
  assumes "visitor_step env v m = (v', m')"
  shows "map_option ls_conn (m_states m' sp) = map_option ls_conn (m_states m sp)" "set (m_closed m) \<subseteq> set (m_closed m')"
proof -
  have "map_option ls_conn (m_states m' sp) = map_option ls_conn (m_states m sp) \<and> set (m_closed m) \<subseteq> set (m_closed m')"
    using assms
    by (cases "v_pc v")
      (auto simp: visitor_step_def handleVisitor_step_def trackVisitor_def setVisitorChannel_def untrackVisitor_def
        run_deferred_def add_in_def add_out_def split: option.splits if_splits sum.splits list.splits deferred.splits)
  then show "map_option ls_conn (m_states m' sp) = map_option ls_conn (m_states m sp)" "set (m_closed m) \<subseteq> set (m_closed m')"
    by simp_all
qed

lemma same_regs_visit:
  assumes "visitor_step env v m = (v', m')"
  shows "same_regs m m'"
  by (rule same_regsI [OF step_keeps_forward(1) [OF assms] visitor_step_conn [OF assms]])

lemma reg_deleted: "reg (m\<lparr>m_leases := gm_del i (m_leases m)\<rparr>) = (reg m)(i := None)"
  by (auto simp: fun_eq_iff reg_def gomap_simps)

lemma teardown_regs:
  assumes "Teardown_cs i m = (ts, m')"
  shows "reg m' = (reg m)(i := None)" "m_closed m' = m_closed m" "reg m i = Some c \<Longrightarrow> CloseConn c \<in> set ts"
proof -
  have "m' = m\<lparr>m_leases := gm_del i (m_leases m)\<rparr>" using assms by (auto simp: Teardown_cs_def Let_def split: option.splits)
  then show "reg m' = (reg m)(i := None)" "m_closed m' = m_closed m" using reg_deleted by simp_all
  show "CloseConn c \<in> set ts" if "reg m i = Some c"
    using assms that by (auto simp: Teardown_cs_def reg_def Let_def bind_eq_Some_conv split: option.splits)
qed

lemma onclose_regs:
  assumes "OnConnClosed_cs i c m = (ts, m')"
  shows "reg m' = (if reg m i = Some c then (reg m)(i := None) else reg m)" "m_closed m' = m_closed m"
proof -
  have "reg m' = (if reg m i = Some c then (reg m)(i := None) else reg m) \<and> m_closed m' = m_closed m"
  proof (cases rule: OnConnClosed_cases [of i c m])
    case nothing
    note none = this
    then have "m' = m" using assms by simp
    moreover have "reg m i \<noteq> Some c"
    proof
      assume "reg m i = Some c"
      then obtain sp st where "gm_get (m_leases m) i = Some sp" "m_states m sp = Some st" "ls_conn st = c"
        by (auto simp: reg_def bind_eq_Some_conv)
      then show False using none by (simp add: OnConnClosed_cs_def)
    qed
    ultimately show ?thesis by simp
  next
    case (removed sp st)
    then show ?thesis using assms reg_deleted [of i m] by (auto simp: reg_def)
  qed
  then show "reg m' = (if reg m i = Some c then (reg m)(i := None) else reg m)" "m_closed m' = m_closed m" by simp_all
qed

lemma register_regs:
  assumes "RegisterConn_cs get now c i m = ((ok, ts), m')" "heap_ok m"
    "\<And>j sp. gm_get (m_leases m) j = Some sp \<Longrightarrow> m_states m sp \<noteq> None"
  shows "reg m' = (if ok then (reg m)(i \<mapsto> c) else reg m)" "m_closed m' = m_closed m"
    "ok \<Longrightarrow> reg m i = Some d \<Longrightarrow> d \<noteq> c \<Longrightarrow> CloseConn d \<in> set ts"
proof -
  show "CloseConn d \<in> set ts" if "ok" "reg m i = Some d" "d \<noteq> c"
    using assms(1) that by (auto simp: RegisterConn_cs_def reg_def Let_def bind_eq_Some_conv split: option.splits)
  have "reg m' = (if ok then (reg m)(i \<mapsto> c) else reg m) \<and> m_closed m' = m_closed m"
  proof (cases "lease_live get now i")
    case None
    then show ?thesis using assms(1) by (simp add: RegisterConn_cs_def)
  next
    case (Some l)
    then have m': "ok" "m' = (upd_state (m_brk m) (new_state c) m)
        \<lparr>m_leases := gm_put i (m_brk m) (m_leases m), m_brk := Suc (m_brk m)\<rparr>"
      using assms(1) by (auto simp: RegisterConn_cs_def Let_def split: option.splits)
    have "sp \<noteq> m_brk m" if "gm_get (m_leases m) j = Some sp" for j sp
      using assms(3) [OF that] heap_ok_fresh(1) [OF assms(2)] by auto
    then have "reg m' j = ((reg m)(i \<mapsto> c)) j" for j
      by (cases "gm_get (m_leases m) j") (auto simp: m' reg_def gomap_simps new_state_def)
    then show ?thesis by (simp add: m' fun_eq_iff)
  qed
  then show "reg m' = (if ok then (reg m)(i \<mapsto> c) else reg m)" "m_closed m' = m_closed m" by simp_all
qed

section \<open>The invariant\<close>

text \<open>The lease a handler serves, from its registration to its return, and whether the gauge counts it.\<close>

fun lease_of :: "hpc \<Rightarrow> string option" where
  "lease_of (HServe i l) = Some i"
| "lease_of (HClosed i) = Some i"
| "lease_of _ = None"

fun counted :: "hpc \<Rightarrow> bool" where
  "counted (HRegister i l) = True"
| "counted (HServe i l) = True"
| "counted (HClosed i) = True"
| "counted _ = False"

definition gauge :: "hconn list \<Rightarrow> int" where
  "gauge hs = (\<Sum>h \<leftarrow> hs. of_bool (counted (hc_pc h)))"

definition conns_ok :: "'key Server \<Rightarrow> hconn list \<Rightarrow> task list \<Rightarrow> bool" where
  "conns_ok srv hs ts \<longleftrightarrow> distinct (map hc_id hs)
     \<and> (\<forall>i c. reg (sv_manager srv) i = Some c \<longrightarrow> (\<exists>h \<in> set hs. hc_id h = c \<and> lease_of (hc_pc h) = Some i))
     \<and> (\<forall>h \<in> set hs. \<forall>i. lease_of (hc_pc h) = Some i \<longrightarrow>
          reg (sv_manager srv) i = Some (hc_id h) \<or> closing (sv_manager srv) ts (hc_id h))
     \<and> sv_connected srv = gauge hs
     \<and> (\<forall>h \<in> set hs. hc_pc h = HReturned \<longrightarrow> closing (sv_manager srv) ts (hc_id h))"

lemma conns_okD:
  assumes "conns_ok srv hs ts"
  shows "distinct (map hc_id hs)"
    "reg (sv_manager srv) i = Some c \<Longrightarrow> \<exists>h \<in> set hs. hc_id h = c \<and> lease_of (hc_pc h) = Some i"
    "h \<in> set hs \<Longrightarrow> lease_of (hc_pc h) = Some i \<Longrightarrow>
       reg (sv_manager srv) i = Some (hc_id h) \<or> closing (sv_manager srv) ts (hc_id h)"
    "sv_connected srv = gauge hs"
    "h \<in> set hs \<Longrightarrow> hc_pc h = HReturned \<Longrightarrow> closing (sv_manager srv) ts (hc_id h)"
  using assms unfolding conns_ok_def by blast+

text \<open>The registered connection of a lease is that of the handler with its handle.\<close>

lemma conns_ok_own:
  assumes "conns_ok srv hs ts" "h \<in> set hs" "reg (sv_manager srv) i = Some (hc_id h)"
  shows "lease_of (hc_pc h) = Some i"
proof -
  obtain h' where "h' \<in> set hs" "hc_id h' = hc_id h" "lease_of (hc_pc h') = Some i"
    using conns_okD(2) [OF assms(1,3)] by blast
  then show ?thesis using conns_okD(1) [OF assms(1)] assms(2) by (metis distinct_map inj_onD)
qed

lemma conns_ok_manager:
  assumes "conns_ok srv hs ts" "regs_kept (sv_manager srv) ts m' ts'"
  shows "conns_ok (upd_manager m' srv) hs ts'"
  using assms unfolding conns_ok_def regs_kept_def by (auto, blast+)

lemma gauge_update:
  assumes "k < length hs"
  shows "gauge (hs[k := h]) = gauge hs + of_bool (counted (hc_pc h)) - of_bool (counted (hc_pc (hs ! k)))"
  using assms by (induction hs arbitrary: k) (auto simp: gauge_def nth_Cons split: nat.splits)

text \<open>One handler moves.\<close>

lemma conns_ok_handler:
  assumes ok: "conns_ok srv hs ts" and k: "k < length hs" and same: "hc_id c' = hc_id (hs ! k)"
    and close: "\<And>d. closing (sv_manager srv) ts d \<Longrightarrow> closing (sv_manager srv') ts' d"
    and regs: "\<And>i d. reg (sv_manager srv') i = Some d \<Longrightarrow>
        (if d = hc_id c' then lease_of (hc_pc c') = Some i else reg (sv_manager srv) i = Some d)"
    and others: "\<And>i d. reg (sv_manager srv) i = Some d \<Longrightarrow> d \<noteq> hc_id c' \<Longrightarrow>
        reg (sv_manager srv') i = Some d \<or> closing (sv_manager srv') ts' d"
    and own: "\<And>i. lease_of (hc_pc c') = Some i \<Longrightarrow>
        reg (sv_manager srv') i = Some (hc_id c') \<or> closing (sv_manager srv') ts' (hc_id c')"
    and ret: "hc_pc c' = HReturned \<Longrightarrow> closing (sv_manager srv') ts' (hc_id c')"
    and conn: "sv_connected srv' = sv_connected srv + of_bool (counted (hc_pc c')) - of_bool (counted (hc_pc (hs ! k)))"
  shows "conns_ok srv' (hs[k := c']) ts'"
proof -
  have ids: "map hc_id (hs[k := c']) = map hc_id hs" using k same by (metis list_update_id map_update nth_map)
  have dist: "distinct (map hc_id (hs[k := c']))" using ids conns_okD(1) [OF ok] by simp
  have new: "c' \<in> set (hs[k := c'])" using k by (rule set_update_memI)
  have rest: "h \<in> set hs" if "h \<in> set (hs[k := c'])" "hc_id h \<noteq> hc_id c'" for h
    using that set_update_subset_insert [of hs k c'] by auto
  have back1: "h \<in> set (hs[k := c'])" if "h \<in> set hs" "hc_id h \<noteq> hc_id c'" for h
    using that same by (metis in_set_conv_nth length_list_update nth_list_update_neq)
  have is_new: "h = c'" if "h \<in> set (hs[k := c'])" "hc_id h = hc_id c'" for h
    using that new dist by (metis distinct_map inj_onD)
  have "\<exists>h \<in> set (hs[k := c']). hc_id h = d \<and> lease_of (hc_pc h) = Some i" if "reg (sv_manager srv') i = Some d" for i d
    using regs [OF that] new back1 conns_okD(2) [OF ok, of i d] by (cases "d = hc_id c'") auto
  moreover have "reg (sv_manager srv') i = Some (hc_id h) \<or> closing (sv_manager srv') ts' (hc_id h)"
    if "h \<in> set (hs[k := c'])" "lease_of (hc_pc h) = Some i" for h i
  proof (cases "hc_id h = hc_id c'")
    case True
    then show ?thesis using is_new [OF that(1)] own that(2) by simp
  next
    case False
    then show ?thesis using conns_okD(3) [OF ok rest [OF that(1) False] that(2)] others close by blast
  qed
  moreover have "closing (sv_manager srv') ts' (hc_id h)" if "h \<in> set (hs[k := c'])" "hc_pc h = HReturned" for h
    using that is_new [OF that(1)] rest [OF that(1)] ret close conns_okD(5) [OF ok] by (cases "hc_id h = hc_id c'") auto
  moreover have "sv_connected srv' = gauge (hs[k := c'])"
    using conn conns_okD(4) [OF ok] gauge_update [OF k] by simp
  ultimately show ?thesis unfolding conns_ok_def using dist by blast
qed

lemma plain_step_facts:
  assumes "plain_step x c" "handshake_ok M (hi_ssh x)" "handleConn_step W x c s = ((rs, c'), s')"
  shows "same_regs (sv_manager s) (sv_manager s') \<and> lease_of (hc_pc c') = lease_of (hc_pc c)
    \<and> (hc_pc c' = HReturned \<longrightarrow> hc_pc c = HReturned \<or> HConn (hc_id c) \<in> set (m_closed (sv_manager s')))
    \<and> sv_connected s' = sv_connected s + of_bool (counted (hc_pc c')) - of_bool (counted (hc_pc c))"
proof (cases "hc_pc c")
  case HHandshake
  obtain r s1 where hs: "hi_ssh x (serverConfig s) s = (r, s1)" by (cases "hi_ssh x (serverConfig s) s")
  show ?thesis
    using assms(3) HHandshake hs handshake_manager [OF assms(2) hs] handshake_keeps(2) [OF assms(2) hs]
    by (cases r) (auto simp: handleConn_step_def Let_def)
next
  case (HLookup i)
  then show ?thesis using assms(3) by (auto simp: handleConn_step_def Let_def split: option.splits if_splits)
next
  case (HServe i l)
  show ?thesis
  proof (cases "hi_request x")
    case None
    then show ?thesis using assms(3) HServe by (auto simp: handleConn_step_def Let_def)
  next
    case (Some req)
    then have "rq_Type req \<noteq> ''cancel-tcpip-forward''" using assms(1) HServe by (simp add: plain_step_def)
    from same_regs_request [OF this, of "sv_manager s" W "hi_moment x" "hi_listen x" "hc_id c" l] show ?thesis
      using assms(3) HServe Some by (auto simp: handleConn_step_def Let_def split: prod.splits flow.splits)
  qed
qed (use assms in \<open>auto simp: plain_step_def handleConn_step_def\<close>)

lemma conns_ok_step_handler:
  assumes ok: "conns_ok srv hs ts" and k: "k < length hs" and hand: "handshake_ok M (hi_ssh x)"
    and step: "handleConn_cs W x (hs ! k) srv = ((c', us), srv')"
    and heap: "heap_ok (sv_manager srv)" "\<And>j sp. gm_get (m_leases (sv_manager srv)) j = Some sp \<Longrightarrow> m_states (sv_manager srv) sp \<noteq> None"
  shows "conns_ok srv' (hs[k := c']) (ts @ us)"
proof -
  have mem: "hs ! k \<in> set hs" using k by simp
  note mine = conns_ok_own [OF ok mem]
  from step show ?thesis
  proof (cases rule: handleConn_cs_cases)
    case (register i l okr vs m')
    note r = register_regs [OF register(2) heap]
    have no: "reg (sv_manager srv) j \<noteq> Some (hc_id (hs ! k))" for j using mine register(1) by auto
    show ?thesis
      by (rule conns_ok_handler [OF ok k]; insert register r no; cases okr; auto simp: closing_def split: if_splits)
  next
    case (closed i vs m')
    note r = onclose_regs [OF closed(2)]
    have "j = i" if "reg (sv_manager srv) j = Some (hc_id (hs ! k))" for j using mine [OF that] closed(1) by simp
    then have gone: "reg m' j \<noteq> Some (hc_id (hs ! k))" for j using r(1) by (metis fun_upd_apply option.distinct(1))
    have same: "reg m' j = Some d \<longleftrightarrow> reg (sv_manager srv) j = Some d" if "d \<noteq> hc_id (hs ! k)" for j d using r(1) that by auto
    show ?thesis
      by (rule conns_ok_handler [OF ok k]) (use closed gone same r(2) in \<open>auto simp: closing_def\<close>)
  next
    case (cancel i l m')
    note r = same_regs_cancel [OF cancel(2)]
    show ?thesis
      by (rule conns_ok_handler [OF ok k]; insert cancel r mine conns_okD(3) [OF ok mem]; auto simp: closing_def same_regs_def)
  next
    case (plain rs)
    note p = plain_step_facts [OF plain(1) hand plain(2)] and id = step_id [OF plain(2)]
    show ?thesis
      by (rule conns_ok_handler [OF ok k id]; insert plain(3) p id mine conns_okD(3,5) [OF ok mem]; auto simp: closing_def same_regs_def)
  qed
qed

lemma conns_ok_accept:
  assumes "conns_ok srv hs ts" "c \<notin> hc_id ` set hs" "Serve 0 [SvAccepted c a now] srv = ((acc, ds), srv')"
  shows "conns_ok srv' (hs @ map (\<lambda>(c, a, now). \<lparr>hc_id = c, hc_pc = HHandshake\<rparr>) acc) ts"
proof -
  have s: "same_regs (sv_manager srv) (sv_manager srv')" "sv_connected srv' = sv_connected srv" "acc = [] \<or> acc = [(c, a, now)]"
    using assms(3) by (auto split: prod.splits bool.splits)
  have "gauge (hs @ map (\<lambda>(c, a, now). \<lparr>hc_id = c, hc_pc = HHandshake\<rparr>) acc) = gauge hs" using s(3) by (auto simp: gauge_def)
  then show ?thesis using assms(1,2) s unfolding conns_ok_def same_regs_def closing_def by fastforce
qed

lemma reach_leak: "sys_reach n s \<Longrightarrow> leak_free s"
proof (induction rule: sys_reach.induct)
  case init
  show ?case by (rule leak_init)
next
  case (step s get s')
  then show ?case using leak_step reach_inv [OF step(1)] by (auto simp: vis_inv_def)
qed

lemma conns_ok_step:
  assumes "conns_ok (cn_server s) (cn_handlers s) (cn_todo s)" "sys_reach n (cn_sys s)" "conn_step W get s s'"
  shows "conns_ok (cn_server s') (cn_handlers s') (cn_todo s')"
  using assms(3)
proof cases
  case (accept c a now acc ds srv)
  then show ?thesis using conns_ok_accept [OF assms(1) accept(2,5)] by simp
next
  case (handler k M x c' ts srv)
  have "heap_ok (cn_m s)" using reach_inv [OF assms(2)] by (simp add: vis_inv_def)
  then show ?thesis
    using conns_ok_step_handler [OF assms(1) handler(2,3,5)] leak_freeD(1) [OF reach_leak [OF assms(2)]] handler(1) by simp
next
  case (hangup c)
  then show ?thesis using conns_ok_manager [OF assms(1) same_regs_kept [OF same_regs_close]] by simp
next
  case (teardown i ts m')
  note r = teardown_regs [OF teardown(2)]
  have "regs_kept (cn_m s) (cn_todo s) m' (cn_todo s @ ts)"
    using r unfolding regs_kept_def closing_def by (auto split: if_splits)
  then show ?thesis using teardown(1) conns_ok_manager [OF assms(1)] by simp
next
  case (tail k)
  let ?m = "run_task (cn_todo s ! k) (cn_m s)" and ?ts = "take k (cn_todo s) @ drop (Suc k) (cn_todo s)"
  note r = same_regs_task [of "cn_m s" "cn_todo s ! k"]
  have "closing ?m ?ts c" if "closing (cn_m s) (cn_todo s) c" for c
  proof (cases "cn_todo s ! k = CloseConn c")
    case True
    then show ?thesis by (simp add: closing_def)
  next
    case False
    then show ?thesis using that r todo_rest [OF tail(2), of "CloseConn c"] by (auto simp: closing_def same_regs_def)
  qed
  then have "regs_kept (cn_m s) (cn_todo s) ?m ?ts" using r by (simp add: regs_kept_def same_regs_def)
  then show ?thesis using tail(1) conns_ok_manager [OF assms(1)] by simp
next
  case (spawn sp fp vc a)
  then show ?thesis using assms(1) by simp
next
  case (visit k env v' m')
  then show ?thesis using conns_ok_manager [OF assms(1) same_regs_kept [OF same_regs_visit [OF visit(3)]]] by simp
qed

lemma conn_reach_inv:
  "conn_reach W n s \<Longrightarrow> conns_ok (cn_server s) (cn_handlers s) (cn_todo s) \<and> sys_reach n (cn_sys s)"
proof (induction rule: conn_reach.induct)
  case (init srv)
  then have "cn_sys (conns_init srv) = sys_init n" by (simp add: cn_sys_def conns_init_def sys_init_def)
  then show ?case using init sys_reach.init
    by (auto simp: conns_ok_def conns_init_def gauge_def reg_def NewManager_def)
next
  case (step s get s')
  then show ?case using conns_ok_step sys_reach_steps [OF conn_step_sys] by blast
qed

section \<open>One live connection per lease\<close>

lemma gauge_length: "gauge hs = int (length (filter (\<lambda>h. counted (hc_pc h)) hs))"
  by (induction hs) (simp_all add: gauge_def)

lemma filter_single:
  assumes "distinct (map f xs)" "\<And>x y. x \<in> set xs \<Longrightarrow> y \<in> set xs \<Longrightarrow> P x \<Longrightarrow> P y \<Longrightarrow> f x = f y"
  shows "length (filter P xs) \<le> 1"
  using assms
proof (induction xs)
  case (Cons x xs)
  have "filter P xs = []" if "P x" using Cons.prems that by (auto simp: filter_empty_conv image_iff)
  then show ?case using Cons by auto
qed simp

text \<open>
  (C9) One connection per lease. Whatever connections clients open with a token, and however
  their handlers interleave with teardowns, visitors and unfinished closes, at most one
  connection serves a lease without being closed or about to be closed, and it is the one the
  manager has for the lease. A registration always has a running handler; a handler that
  returned has closed its connection or is about to; the gauge of connected clients is exact;
  and once all handlers have returned, no lease is registered any more. The manager stays within
  the interleaved machine.
\<close>

theorem one_connection_per_lease:
  assumes "conn_reach W maxVisitors s"
  shows "length (filter (\<lambda>h. lease_of (hc_pc h) = Some i \<and> \<not> closing (cn_m s) (cn_todo s) (hc_id h)) (cn_handlers s)) \<le> 1
    \<and> (\<forall>h \<in> set (cn_handlers s). lease_of (hc_pc h) = Some i \<and> \<not> closing (cn_m s) (cn_todo s) (hc_id h) \<longrightarrow>
         reg (cn_m s) i = Some (hc_id h))
    \<and> (\<forall>c. reg (cn_m s) i = Some c \<longrightarrow> (\<exists>h \<in> set (cn_handlers s). hc_id h = c \<and> lease_of (hc_pc h) = Some i))
    \<and> (\<forall>h \<in> set (cn_handlers s). hc_pc h = HReturned \<longrightarrow> closing (cn_m s) (cn_todo s) (hc_id h))
    \<and> sv_connected (cn_server s) = int (length (filter (\<lambda>h. counted (hc_pc h)) (cn_handlers s)))
    \<and> ((\<forall>h \<in> set (cn_handlers s). hc_pc h = HReturned) \<longrightarrow> gm_get (m_leases (cn_m s)) i = None)
    \<and> sys_reach maxVisitors (cn_sys s)"
proof -
  have ok: "conns_ok (cn_server s) (cn_handlers s) (cn_todo s)" and sys: "sys_reach maxVisitors (cn_sys s)"
    using conn_reach_inv [OF assms] by blast+
  have one: "reg (cn_m s) i = Some (hc_id h)"
    if "h \<in> set (cn_handlers s)" "lease_of (hc_pc h) = Some i" "\<not> closing (cn_m s) (cn_todo s) (hc_id h)" for h
    using conns_okD(3) [OF ok that(1,2)] that(3) by blast
  have "gm_get (m_leases (cn_m s)) i = None" if "\<forall>h \<in> set (cn_handlers s). hc_pc h = HReturned"
  proof (rule ccontr)
    assume "gm_get (m_leases (cn_m s)) i \<noteq> None"
    then obtain c where "reg (cn_m s) i = Some c"
      using leak_freeD(1) [OF reach_leak [OF sys], of i] by (auto simp: reg_def)
    from conns_okD(2) [OF ok this] show False using that by auto
  qed
  moreover have "length (filter (\<lambda>h. lease_of (hc_pc h) = Some i \<and> \<not> closing (cn_m s) (cn_todo s) (hc_id h)) (cn_handlers s)) \<le> 1"
    by (rule filter_single [OF conns_okD(1) [OF ok]]) (use one in \<open>metis option.inject\<close>)
  moreover have "sv_connected (cn_server s) = int (length (filter (\<lambda>h. counted (hc_pc h)) (cn_handlers s)))"
    using conns_okD(4) [OF ok] by (simp only: gauge_length)
  ultimately show ?thesis using one conns_okD(2,5) [OF ok] sys by blast
qed

text \<open>The client of the reference lease connects from two addresses; the second connection displaces the first.\<close>

definition do_accept :: "nat \<Rightarrow> netaddr \<Rightarrow> time \<Rightarrow> 'key conns \<Rightarrow> 'key conns" where
  "do_accept c a now s = (case Serve 0 [SvAccepted c a now] (cn_server s) of ((acc, ds), srv) \<Rightarrow>
     s\<lparr>cn_server := srv, cn_handlers := cn_handlers s @ map (\<lambda>(c, a, now). \<lparr>hc_id = c, hc_pc = HHandshake\<rparr>) acc\<rparr>)"

definition do_handler :: "sshwire \<Rightarrow> 'key hinput \<Rightarrow> nat \<Rightarrow> 'key conns \<Rightarrow> 'key conns" where
  "do_handler W x k s = (case handleConn_cs W x (cn_handlers s ! k) (cn_server s) of ((c', ts), srv) \<Rightarrow>
     s\<lparr>cn_server := srv, cn_handlers := (cn_handlers s)[k := c'], cn_todo := cn_todo s @ ts\<rparr>)"

lemma do_accept_step:
  assumes "c \<notin> hc_id ` set (cn_handlers s)" "\<not> closing (cn_m s) (cn_todo s) c"
  shows "conn_step W get s (do_accept c a now s)"
proof -
  obtain acc ds srv where run: "Serve 0 [SvAccepted c a now] (cn_server s) = ((acc, ds), srv)" by (metis prod.collapse)
  show ?thesis using conn_step.accept [OF assms(1) _ _ run] assms(2) unfolding do_accept_def run prod.case closing_def by blast
qed

lemma do_handler_step:
  assumes "k < length (cn_handlers s)" "handshake_ok M (hi_ssh x)"
  shows "conn_step W (mo_get (hi_moment x)) s (do_handler W x k s)"
proof -
  obtain c' ts srv where run: "handleConn_cs W x (cn_handlers s ! k) (cn_server s) = ((c', ts), srv)" by (metis prod.collapse)
  show ?thesis using conn_step.handler [OF assms refl run] by (simp only: do_handler_def run prod.case)
qed

definition demo_lim1 :: authLimiter where "demo_lim1 = snd (allow 1 ''p'' (newAuthLimiter 1 60))"
definition demo_lim2 :: authLimiter where "demo_lim2 = snd (allow 1 ''q'' demo_lim1)"

lemma demo_allow: "allow 1 ''p'' (newAuthLimiter 1 60) = (True, demo_lim1)" "allow 1 ''q'' demo_lim1 = (True, demo_lim2)"
proof -
  have cap: "length xs < authHardCap" if "length xs < 2" for xs :: "(string \<times> windowCounter) list" using that by (simp add: authHardCap_def)
  have early: "maybeCleanup 1 a = a" if "al_lastCleanup a = 0" for a
    using that by (simp add: maybeCleanup_def authCleanupInterval_def time_Sub_def Second_def)
  have fresh: "allow 1 ip a = (True, snd (allow 1 ip a))"
    if "al_lastCleanup a = 0" "length (al_seen a) < 2" "gm_get (al_seen a) ip = None" for ip a
    using early [OF that(1)] cap [OF that(2)] that(3) by (simp add: allow_def)
  show "allow 1 ''p'' (newAuthLimiter 1 60) = (True, demo_lim1)"
    unfolding demo_lim1_def by (rule fresh) (simp_all add: newAuthLimiter_def)
  have lim1: "demo_lim1 = (newAuthLimiter 1 60)\<lparr>al_seen := [(''p'', \<lparr>wc_count = 1, wc_start = 1\<rparr>)]\<rparr>"
    using early [of "newAuthLimiter 1 60"] cap [of "[]"] by (simp add: demo_lim1_def allow_def newAuthLimiter_def)
  show "allow 1 ''q'' demo_lim1 = (True, demo_lim2)"
    unfolding demo_lim2_def by (rule fresh) (simp_all add: lim1 newAuthLimiter_def)
qed

lemma demo_input_steps:
  "handleConn_cs demo_wire demo_input \<lparr>hc_id = c, hc_pc = HHandshake\<rparr> s = ((\<lparr>hc_id = c, hc_pc = HLookup ''a''\<rparr>, []), s)"
  "handleConn_cs demo_wire demo_input \<lparr>hc_id = c, hc_pc = HLookup ''a''\<rparr> s
     = ((\<lparr>hc_id = c, hc_pc = HRegister ''a'' ref_lease\<rparr>, []), s\<lparr>sv_connected := sv_connected s + 1\<rparr>)"
  "handleConn_cs demo_wire demo_input \<lparr>hc_id = c, hc_pc = HRegister ''a'' ref_lease\<rparr> s
     = (case RegisterConn_cs (Get ref_store1) 1 c ''a'' (sv_manager s) of ((ok, ts), m') \<Rightarrow>
         if ok then ((\<lparr>hc_id = c, hc_pc = HServe ''a'' ref_lease\<rparr>, ts), upd_manager m' s)
         else ((\<lparr>hc_id = c, hc_pc = HReturned\<rparr>, ts @ [CloseConn c]), upd_manager m' (s\<lparr>sv_connected := sv_connected s - 1\<rparr>)))"
  by (simp_all add: handleConn_cs_def handleConn_step_def demo_input_def serverConfig_def authByToken_def store_moment_def
      demo_token demo_live ref_store1_get Let_def split: prod.splits bool.splits)

definition demo_joined :: "nat \<Rightarrow> nat \<Rightarrow> string conns \<Rightarrow> string conns" where
  "demo_joined k n = (do_handler demo_wire demo_input k ^^ n)"

definition demo_two :: "string conns" where
  "demo_two = demo_joined 1 3 (do_accept 8 (OtherAddr ''q'') 1 (demo_joined 0 3 (do_accept 7 (OtherAddr ''p'') 1 (conns_init demo_server))))"

lemma demo_reg_live: "lease_live (Get ref_store1) 1 ''a'' = Some ref_lease"
  by (simp add: lease_live_def ref_store1_get demo_live)

lemma demo_addr: "remoteIP (OtherAddr ''p'') = ''p''" "remoteIP (OtherAddr ''q'') = ''q''"
  by (code_simp)+

lemma demo_one_eq:
  "demo_joined 0 3 (do_accept 7 (OtherAddr ''p'') 1 (conns_init demo_server)) =
     \<lparr>cn_server = demo_server\<lparr>sv_limiter := demo_lim1, sv_connected := 1,
        sv_manager := (NewManager 1)\<lparr>m_leases := [(''a'', 0)], m_states := [0 \<mapsto> new_state 7], m_brk := 1\<rparr>\<rparr>,
      cn_handlers = [\<lparr>hc_id = 7, hc_pc = HServe ''a'' ref_lease\<rparr>], cn_vs = [], cn_todo = []\<rparr>"
  by (simp add: demo_joined_def eval_nat_numeral do_accept_def do_handler_def conns_init_def demo_server_def demo_addr demo_allow
      demo_input_steps demo_reg_live RegisterConn_cs_def Let_def NewManager_def upd_manager_def upd_state_def)

lemma demo_two_eq:
  "demo_two =
     \<lparr>cn_server = demo_server\<lparr>sv_limiter := demo_lim2, sv_connected := 2,
        sv_manager := (NewManager 1)\<lparr>m_leases := [(''a'', 1)], m_states := [0 \<mapsto> new_state 7, 1 \<mapsto> new_state 8], m_brk := 2\<rparr>\<rparr>,
      cn_handlers = [\<lparr>hc_id = 7, hc_pc = HServe ''a'' ref_lease\<rparr>, \<lparr>hc_id = 8, hc_pc = HServe ''a'' ref_lease\<rparr>],
      cn_vs = [], cn_todo = [CloseForwardOf 0, CloseConn 7]\<rparr>"
  unfolding demo_two_def demo_one_eq
  by (simp add: demo_joined_def eval_nat_numeral do_accept_def do_handler_def demo_server_def demo_addr demo_allow
      demo_input_steps demo_reg_live RegisterConn_cs_def Let_def NewManager_def upd_manager_def upd_state_def new_state_def)

lemma demo_joined_steps:
  assumes "k < length (cn_handlers s)"
  shows "(conn_step demo_wire (Get ref_store1))\<^sup>*\<^sup>* s (demo_joined k j s)"
proof -
  have get: "mo_get (hi_moment demo_input) = Get ref_store1" by (simp add: demo_input_def store_moment_def)
  have "(conn_step demo_wire (Get ref_store1))\<^sup>*\<^sup>* s (demo_joined k j s) \<and> length (cn_handlers (demo_joined k j s)) = length (cn_handlers s)"
  proof (induction j)
    case (Suc j)
    then have "conn_step demo_wire (Get ref_store1) (demo_joined k j s) (do_handler demo_wire demo_input k (demo_joined k j s))"
      using do_handler_step [OF _ demo_handshake_ok, of k "demo_joined k j s" demo_wire] assms by (simp only: get)
    then have "(conn_step demo_wire (Get ref_store1))\<^sup>*\<^sup>* s (do_handler demo_wire demo_input k (demo_joined k j s))"
      using Suc by (auto intro: rtranclp.rtrancl_into_rtrancl)
    with Suc show ?case by (simp add: demo_joined_def do_handler_def split: prod.splits)
  qed (simp add: demo_joined_def)
  then show ?thesis ..
qed

lemma demo_two_steps: "(conn_step demo_wire (Get ref_store1))\<^sup>*\<^sup>* (conns_init demo_server) demo_two"
proof -
  let ?R = "conn_step demo_wire (Get ref_store1)" and ?a = "do_accept 7 (OtherAddr ''p'') 1 (conns_init demo_server)"
  let ?b = "do_accept 8 (OtherAddr ''q'') 1 (demo_joined 0 3 ?a)"
  have 1: "?R (conns_init demo_server) ?a"
    by (rule do_accept_step) (simp_all add: conns_init_def closing_def demo_server_def NewManager_def)
  have 2: "?R\<^sup>*\<^sup>* ?a (demo_joined 0 3 ?a)"
    by (rule demo_joined_steps) (simp add: do_accept_def conns_init_def demo_server_def demo_addr demo_allow)
  have 3: "?R (demo_joined 0 3 ?a) ?b"
    by (rule do_accept_step) (simp_all add: demo_one_eq closing_def NewManager_def)
  have "1 < length (cn_handlers ?b)" unfolding demo_one_eq by (simp add: do_accept_def demo_addr demo_allow)
  then have 4: "?R\<^sup>*\<^sup>* ?b demo_two" unfolding demo_two_def by (rule demo_joined_steps)
  from 2 3 4 have "?R\<^sup>*\<^sup>* ?a demo_two" by (meson converse_rtranclp_into_rtranclp rtranclp_trans)
  with 1 show ?thesis by (rule converse_rtranclp_into_rtranclp)
qed

lemma demo_server_new: "sv_manager demo_server = NewManager 1" "sv_connected demo_server = 0"
  by (simp_all add: demo_server_def)

lemma demo_two_reach: "conn_reach demo_wire 1 demo_two"
  using demo_two_steps
proof (induction rule: rtranclp_induct)
  case base
  show ?case by (rule conn_reach.init [OF demo_server_new])
next
  case (step y z)
  then show ?case by (auto intro: conn_reach.step)
qed

theorem one_connection_per_lease_witness:
  "map hc_id (filter (\<lambda>h. lease_of (hc_pc h) = Some ''a'') (cn_handlers demo_two)) = [7, 8]
   \<and> length (filter (\<lambda>h. lease_of (hc_pc h) = Some ''a'' \<and> \<not> closing (cn_m demo_two) (cn_todo demo_two) (hc_id h)) (cn_handlers demo_two)) \<le> 1
   \<and> reg (cn_m demo_two) ''a'' = Some 8 \<and> sv_connected (cn_server demo_two) = 2"
proof -
  note one = one_connection_per_lease [OF demo_two_reach, of "''a''"]
  let ?h = "\<lparr>hc_id = 8, hc_pc = HServe ''a'' ref_lease\<rparr>"
  have "?h \<in> set (cn_handlers demo_two)" "lease_of (hc_pc ?h) = Some ''a''" "\<not> closing (cn_m demo_two) (cn_todo demo_two) (hc_id ?h)"
    by (simp_all add: demo_two_eq closing_def NewManager_def)
  with one have "reg (cn_m demo_two) ''a'' = Some (hc_id ?h)" by blast
  moreover have "sv_connected (cn_server demo_two) = 2"
    "map hc_id (filter (\<lambda>h. lease_of (hc_pc h) = Some ''a'') (cn_handlers demo_two)) = [7, 8]"
    by (simp_all add: demo_two_eq)
  ultimately show ?thesis using one by simp
qed

end
