(* ===== verification/Running.thy ===== *)
theory Running
  imports Connections
begin

text \<open>
  The running tunnel daemon: the lease store with the API calls and sweeps that change it, the
  teardowns the coordinator still owes, and all SSH connections with their handlers
  (\<open>src/internal/tunnel/coordinator.go\<close>, \<open>lease/store.go\<close>, \<open>sshd/server.go\<close>,
  \<open>sshd/forward.go\<close> together). Both the life of the leases and the connections are seen through
  projections, so their invariants carry over; what follows is that a lease that is gone is cut off.
\<close>

section \<open>Steps\<close>

record ('key, 'db) running =
  ru_store :: "'db Store"
  ru_conns :: "'key conns"
  ru_down :: "string list"

text \<open>
  The steps of the store and the coordinator, as in \<open>life_step\<close>, and those of the connections
  against the store as it is.
\<close>

inductive running_step :: "'db bolt \<Rightarrow> codec \<Rightarrow> sshwire \<Rightarrow> ('key, 'db) running \<Rightarrow> ('key, 'db) running \<Rightarrow> bool" for B J W where
  create: "params_wire p \<Longrightarrow> token_fresh rnd (ru_store s) \<Longrightarrow> Create B J probe rnd now p (ru_store s) = (r, st') \<Longrightarrow>
     running_step B J W s (s\<lparr>ru_store := st'\<rparr>)"
| extend: "Extend B J i d (ru_store s) = (r, st') \<Longrightarrow> running_step B J W s (s\<lparr>ru_store := st'\<rparr>)"
| revoke: "Revoke B i (ru_store s) = (e, st') \<Longrightarrow>
     running_step B J W s (s\<lparr>ru_store := st', ru_down := (if e = None then i # ru_down s else ru_down s)\<rparr>)"
| expire: "MarkExpiredIfBefore B i cutoff (ru_store s) = ((wasExpired, removed, err), st') \<Longrightarrow>
     running_step B J W s (s\<lparr>ru_store := st', ru_down := (if wasExpired then i # ru_down s else ru_down s)\<rparr>)"
| pull: "i \<in> set (ru_down s) \<Longrightarrow> Teardown_cs i (cn_m (ru_conns s)) = (ts, m') \<Longrightarrow>
     running_step B J W s (s\<lparr>ru_conns := (ru_conns s)\<lparr>cn_server := upd_manager m' (cn_server (ru_conns s)),
       cn_todo := cn_todo (ru_conns s) @ ts\<rparr>, ru_down := remove1 i (ru_down s)\<rparr>)"
| serve: "conn_step W (Get (ru_store s)) (ru_conns s) c' \<Longrightarrow> running_step B J W s (s\<lparr>ru_conns := c'\<rparr>)"

inductive_cases running_step_cases: "running_step B J W s s'"

inductive running_reach :: "'db bolt \<Rightarrow> codec \<Rightarrow> sshwire \<Rightarrow> int \<Rightarrow> ('key, 'db) running \<Rightarrow> bool" for B J W maxVisitors where
  boot: "store_inv B J st \<Longrightarrow> sv_manager srv = NewManager maxVisitors \<Longrightarrow> sv_connected srv = 0 \<Longrightarrow>
     running_reach B J W maxVisitors \<lparr>ru_store = st, ru_conns = conns_init srv, ru_down = []\<rparr>"
| step: "running_reach B J W maxVisitors s \<Longrightarrow> running_step B J W s s' \<Longrightarrow> running_reach B J W maxVisitors s'"

text \<open>A server as \<open>New\<close> returns it, on a consistent store.\<close>

lemma running_New:
  "store_inv B J st \<Longrightarrow> New K cfg fs = (Inr srv, fs') \<Longrightarrow>
   running_reach B J W (sc_MaxVisitorConnsPerLease cfg) \<lparr>ru_store = st, ru_conns = conns_init srv, ru_down = []\<rparr>"
  by (rule running_reach.boot) (auto simp: New_def split: prod.splits sum.splits)

section \<open>The two views\<close>

definition ru_life :: "('key, 'db) running \<Rightarrow> 'db life" where
  "ru_life s = \<lparr>li_store = ru_store s, li_sys = cn_sys (ru_conns s), li_down = ru_down s\<rparr>"

lemma life_serves:
  assumes "(sys_step (Get st))\<^sup>*\<^sup>* y y'" "life_reach B J \<lparr>li_store = st, li_sys = y, li_down = d\<rparr>"
  shows "life_reach B J \<lparr>li_store = st, li_sys = y', li_down = d\<rparr>"
  using assms
proof (induction rule: rtranclp_induct)
  case (step y' z)
  then show ?case
    using life_reach.step [OF _ life_step.serve [of "\<lparr>li_store = st, li_sys = y', li_down = d\<rparr>" z]] by simp
qed

lemma running_life:
  assumes "running_step B J W s s'" "life_reach B J (ru_life s)"
  shows "life_reach B J (ru_life s')"
  using assms(1)
proof cases
  case (create p rnd probe now r st')
  then show ?thesis
    using life_reach.step [OF assms(2) life_step.create [of p rnd "ru_life s" B J probe now r st']] by (simp add: ru_life_def)
next
  case (extend i d r st')
  then show ?thesis
    using life_reach.step [OF assms(2) life_step.extend [of B J i d "ru_life s" r st']] by (simp add: ru_life_def)
next
  case (revoke i e st')
  then show ?thesis
    using life_reach.step [OF assms(2) life_step.revoke [of B i "ru_life s" e st']] by (cases e) (simp_all add: ru_life_def)
next
  case (expire i cutoff wasExpired removed err st')
  then show ?thesis
    using life_reach.step [OF assms(2) life_step.expire [of B i cutoff "ru_life s" wasExpired removed err st']]
    by (cases wasExpired) (simp_all add: ru_life_def)
next
  case (pull i ts m')
  then show ?thesis
    using life_reach.step [OF assms(2) life_step.pull [of i "ru_life s" ts m']] by (simp add: ru_life_def cn_sys_def)
next
  case (serve c')
  then show ?thesis using life_serves [OF conn_step_sys [OF serve(2)]] assms(2) by (simp add: ru_life_def)
qed

lemma running_conns:
  assumes "running_step B J W s s'" "conn_reach W n (ru_conns s)"
  shows "conn_reach W n (ru_conns s')"
  using assms(1)
proof cases
  case (pull i ts m')
  then show ?thesis
    using conn_reach.step [OF assms(2) conn_step.teardown [of i "ru_conns s" ts m' W "Get (ru_store s)"]] by simp
next
  case (serve c')
  then show ?thesis using conn_reach.step [OF assms(2) serve(2)] by simp
qed (use assms(2) in simp_all)

lemma running_views: "running_reach B J W n s \<Longrightarrow> life_reach B J (ru_life s) \<and> conn_reach W n (ru_conns s)"
proof (induction rule: running_reach.induct)
  case (boot st srv)
  have "cn_sys (conns_init srv) = sys_init n" using boot(2) by (simp add: cn_sys_def conns_init_def sys_init_def)
  then show ?case using life_reach.boot [OF boot(1)] conn_reach.init [OF boot(2,3)] by (simp add: ru_life_def)
next
  case (step s s')
  then show ?case using running_life running_conns by blast
qed

section \<open>A lease that is gone is cut off\<close>

text \<open>
  (C8) A lease that is gone is cut off. Under every interleaving of API calls, sweeps, SSH
  connections and visitors: once a lease has left the store and the teardown the coordinator
  owes it has begun, the manager does not know it; every connection that served it is closed or
  about to be closed; an open listener is that of another lease or its close is pending; nobody
  can register, start a forward or authenticate for it any more.
\<close>

theorem gone_lease_cut_off:
  assumes "running_reach B J W maxVisitors s" "bolt_ok B" "codec_ok J" "Get (ru_store s) i = None" "i \<notin> set (ru_down s)"
  shows "gm_get (m_leases (cn_m (ru_conns s))) i = None
    \<and> (\<forall>h \<in> set (cn_handlers (ru_conns s)). lease_of (hc_pc h) = Some i \<longrightarrow>
         closing (cn_m (ru_conns s)) (cn_todo (ru_conns s)) (hc_id h))
    \<and> (\<forall>fp f. m_forwards (cn_m (ru_conns s)) fp = Some f \<and> \<not> f_closeOnce f \<longrightarrow>
         close_pending (cn_m (ru_conns s)) (cn_todo (ru_conns s)) fp
         \<or> (\<exists>j sp st. j \<noteq> i \<and> gm_get (m_leases (cn_m (ru_conns s))) j = Some sp \<and> m_states (cn_m (ru_conns s)) sp = Some st
              \<and> ls_forward st = Some fp))
    \<and> (\<forall>now c. RegisterConn (Get (ru_store s)) now c i (cn_m (ru_conns s)) = (False, cn_m (ru_conns s)))
    \<and> (\<forall>now listen c b p. StartForward (Get (ru_store s)) now listen c i b p (cn_m (ru_conns s)) = (Inl ErrLeaseGone, cn_m (ru_conns s)))
    \<and> (\<forall>t now srv. fst (authByToken (store_moment (ru_store s) now) t (srv :: 'key Server)) \<noteq> Inr [(''lease_id'', i)])"
proof -
  let ?m = "cn_m (ru_conns s)"
  note inv = life_invD [OF life_reach_inv [OF conjunct1 [OF running_views [OF assms(1)]] assms(2,3)]]
  have ok: "conns_ok (cn_server (ru_conns s)) (cn_handlers (ru_conns s)) (cn_todo (ru_conns s))"
    using conn_reach_inv running_views [OF assms(1)] by blast
  have gone: "gm_get (m_leases ?m) i = None" using inv(4) [of i] assms(4,5) by (cases "gm_get (m_leases ?m) i") (auto simp: ru_life_def)
  have "reg ?m i = None" by (simp add: reg_def gone)
  then have "closing ?m (cn_todo (ru_conns s)) (hc_id h)" if "h \<in> set (cn_handlers (ru_conns s))" "lease_of (hc_pc h) = Some i" for h
    using conns_okD(3) [OF ok that] by simp
  moreover have "close_pending ?m (cn_todo (ru_conns s)) fp
      \<or> (\<exists>j sp st. j \<noteq> i \<and> gm_get (m_leases ?m) j = Some sp \<and> m_states ?m sp = Some st \<and> ls_forward st = Some fp)"
    if "m_forwards ?m fp = Some f" "\<not> f_closeOnce f" for fp f
  proof -
    have "owner ?m fp \<or> close_pending ?m (cn_todo (ru_conns s)) fp"
      using leak_freeD(2) [OF inv(3)] that by (simp add: ru_life_def)
    then show ?thesis unfolding owner_def using gone by (metis option.distinct(1))
  qed
  moreover have dead: "lease_live (Get (ru_store s)) now i = None" for now using assms(4) by (simp add: lease_live_def)
  moreover have "fst (authByToken (store_moment (ru_store s) now) t (srv :: 'key Server)) \<noteq> Inr [(''lease_id'', i)]" for t now srv
  proof -
    have idx: "idx_inv (ru_store s)" using store_inv_parts(2) [OF inv(1)] by (simp add: ru_life_def)
    have "l_LeaseID l \<noteq> i" if "ByToken (ru_store s) t = Some l" for l
      using lookup.token_get [OF idx that] assms(4) by auto
    then show ?thesis by (auto simp: authByToken_def store_moment_def split: option.splits)
  qed
  ultimately show ?thesis
    using gone by (simp add: RegisterConn_def RegisterConn_cs_def StartForward_def)
qed

text \<open>The two connections of the reference lease; then the lease is revoked and its teardown begins.\<close>

lemma running_serves:
  assumes "(conn_step W (Get (ru_store s)))\<^sup>*\<^sup>* (ru_conns s) c'" "running_reach B J W n s"
  shows "running_reach B J W n (s\<lparr>ru_conns := c'\<rparr>)"
  using assms(1)
proof (induction rule: rtranclp_induct)
  case base
  then show ?case using assms(2) by simp
next
  case (step y z)
  then have "running_step B J W (s\<lparr>ru_conns := y\<rparr>) (s\<lparr>ru_conns := y\<rparr>\<lparr>ru_conns := z\<rparr>)" by (intro running_step.serve) simp
  with step(3) have "running_reach B J W n (s\<lparr>ru_conns := y\<rparr>\<lparr>ru_conns := z\<rparr>)" by (rule running_reach.step)
  then show ?case by simp
qed

definition demo_revoked :: "(string, memdb) running" where
  "demo_revoked = \<lparr>ru_store = snd (Revoke mem_bolt ''a'' ref_store1),
     ru_conns = demo_two\<lparr>cn_server := upd_manager (snd (Teardown_cs ''a'' (cn_m demo_two))) (cn_server demo_two),
       cn_todo := cn_todo demo_two @ fst (Teardown_cs ''a'' (cn_m demo_two))\<rparr>, ru_down = []\<rparr>"

lemma demo_revoked_reach: "running_reach mem_bolt ref_codec demo_wire 1 demo_revoked"
proof -
  let ?R = "running_reach mem_bolt ref_codec demo_wire 1"
  let ?s0 = "\<lparr>ru_store = ref_store1, ru_conns = conns_init demo_server, ru_down = []\<rparr>"
  have "?R ?s0" by (rule running_reach.boot [OF ref_store1_inv demo_server_new])
  then have 1: "?R \<lparr>ru_store = ref_store1, ru_conns = demo_two, ru_down = []\<rparr>"
    using running_serves [of demo_wire ?s0 demo_two] demo_two_steps by simp
  obtain st where rev: "Revoke mem_bolt ''a'' ref_store1 = (None, st)"
    using ref_remove by (cases "Revoke mem_bolt ''a'' ref_store1") (simp add: Revoke_def)
  have 2: "?R \<lparr>ru_store = st, ru_conns = demo_two, ru_down = [''a'']\<rparr>"
    using running_reach.step [OF 1 running_step.revoke [where i = "''a''" and e = None and st' = st]] rev by simp
  have "Teardown_cs ''a'' (cn_m demo_two) = (fst (Teardown_cs ''a'' (cn_m demo_two)), snd (Teardown_cs ''a'' (cn_m demo_two)))" by simp
  then show ?thesis
    using running_reach.step [OF 2 running_step.pull [where i = "''a''"]] rev by (simp add: demo_revoked_def)
qed

theorem gone_lease_cut_off_witness:
  "map hc_id (cn_handlers (ru_conns demo_revoked)) = [7, 8]
   \<and> closing (cn_m (ru_conns demo_revoked)) (cn_todo (ru_conns demo_revoked)) 7
   \<and> closing (cn_m (ru_conns demo_revoked)) (cn_todo (ru_conns demo_revoked)) 8
   \<and> gm_get (m_leases (cn_m (ru_conns demo_revoked))) ''a'' = None"
proof -
  obtain st where rev: "remove mem_bolt ''a'' ref_store1 = (None, st)"
    using ref_remove by (cases "remove mem_bolt ''a'' ref_store1") simp
  have gone: "Get (ru_store demo_revoked) ''a'' = None"
    using remove_ok(3) [OF ref_store1_inv mem_bolt_ok rev] rev by (simp add: demo_revoked_def Revoke_def)
  have "''a'' \<notin> set (ru_down demo_revoked)" by (simp add: demo_revoked_def)
  note cut = gone_lease_cut_off [OF demo_revoked_reach mem_bolt_ok ref_codec_ok gone this]
  have hs: "cn_handlers (ru_conns demo_revoked) =
      [\<lparr>hc_id = 7, hc_pc = HServe ''a'' ref_lease\<rparr>, \<lparr>hc_id = 8, hc_pc = HServe ''a'' ref_lease\<rparr>]"
    by (simp add: demo_revoked_def demo_two_eq)
  have "\<forall>h \<in> set (cn_handlers (ru_conns demo_revoked)). lease_of (hc_pc h) = Some ''a'' \<longrightarrow>
      closing (cn_m (ru_conns demo_revoked)) (cn_todo (ru_conns demo_revoked)) (hc_id h)" using cut by blast
  then show ?thesis using conjunct1 [OF cut] by (simp add: hs)
qed

end
