(* ===== verification/Http.thy ===== *)
theory Http
  imports Go_Strings
begin

text \<open>
  What both services use of \<open>net/http\<close>, \<open>io\<close> and \<open>encoding/json\<close>: response writers, the
  request router, bounded reads of a body and the end of a JSON document. A response body is
  kept as the value that is encoded.
\<close>

section \<open>Responses\<close>

datatype 'b body = JSON 'b | Plain string

record 'b response =
  rp_status :: "int option"
  rp_header :: "(string, string) gomap"
  rp_body :: "'b body list"

definition new_response :: "'b response" where
  "new_response = \<lparr>rp_status = None, rp_header = [], rp_body = []\<rparr>"

text \<open>\<open>http.ResponseWriter\<close>: the first status counts, a write without one means 200.\<close>

definition rw_WriteHeader :: "int \<Rightarrow> 'b response \<Rightarrow> 'b response" where
  "rw_WriteHeader code w = (if rp_status w = None then w\<lparr>rp_status := Some code\<rparr> else w)"

definition rw_Write :: "'b body \<Rightarrow> 'b response \<Rightarrow> 'b response" where
  "rw_Write b w = (rw_WriteHeader 200 w)\<lparr>rp_body := rp_body w @ [b]\<rparr>"

definition rw_SetHeader :: "string \<Rightarrow> string \<Rightarrow> 'b response \<Rightarrow> 'b response" where
  "rw_SetHeader k v w = w\<lparr>rp_header := gm_put k v (rp_header w)\<rparr>"

definition http_Error :: "string \<Rightarrow> int \<Rightarrow> 'b response \<Rightarrow> 'b response" where
  "http_Error msg code w =
     rw_Write (Plain (msg @ [CHR 0x0A]))
       (rw_WriteHeader code (rw_SetHeader ''X-Content-Type-Options'' ''nosniff''
         (rw_SetHeader ''Content-Type'' ''text/plain; charset=utf-8'' w)))"

lemma response_simps [simp]:
  "rp_status (rw_WriteHeader code w) = Some (case rp_status w of None \<Rightarrow> code | Some c \<Rightarrow> c)"
  "rp_body (rw_WriteHeader code w) = rp_body w"
  "rp_status (rw_Write b w) = Some (case rp_status w of None \<Rightarrow> 200 | Some c \<Rightarrow> c)"
  "rp_body (rw_Write b w) = rp_body w @ [b]"
  "rp_status (rw_SetHeader k v w) = rp_status w" "rp_body (rw_SetHeader k v w) = rp_body w"
  "rp_status new_response = None" "rp_body new_response = []"
  by (auto simp: rw_WriteHeader_def rw_Write_def rw_SetHeader_def new_response_def split: option.splits)

lemma http_Error_simps [simp]:
  "rp_status (http_Error msg code w) = Some (case rp_status w of None \<Rightarrow> code | Some c \<Rightarrow> c)"
  "rp_body (http_Error msg code w) = rp_body w @ [Plain (msg @ [CHR 0x0A])]"
  by (simp_all add: http_Error_def)

section \<open>Requests\<close>

text \<open>
  The path is the list of its unescaped segments; the body is what can be read of it, and the
  error the stream ends with, if any.
\<close>

type_synonym stream = "string \<times> string option"

record http_request =
  hq_Method :: string
  hq_Path :: "string list"
  hq_Authorization :: string
  hq_Body :: stream

text \<open>\<open>io.ReadAll(io.LimitReader(r, n))\<close>.\<close>

definition read_limited :: "int \<Rightarrow> stream \<Rightarrow> (string, string) result" where
  "read_limited n r =
     (if n \<le> int (length (fst r)) then Inr (take (nat n) (fst r))
      else case snd r of None \<Rightarrow> Inr (fst r) | Some e \<Rightarrow> Inl e)"

text \<open>The blanks of JSON: a decoder that finds nothing else reports \<open>io.EOF\<close>.\<close>

definition json_blank :: "string \<Rightarrow> bool" where
  "json_blank s \<longleftrightarrow> list_all (\<lambda>c. c \<in> {CHR '' '', CHR 0x09, CHR 0x0A, CHR 0x0D}) s"

section \<open>The router\<close>

datatype seg = Lit string | Wild

fun match_path :: "seg list \<Rightarrow> string list \<Rightarrow> string list option" where
  "match_path [] [] = Some []"
| "match_path (Lit a # ps) (s # ss) = (if a = s then match_path ps ss else None)"
| "match_path (Wild # ps) (s # ss) = (if s = [] then None else map_option (\<lambda>vs. s # vs) (match_path ps ss))"
| "match_path _ _ = None"

text \<open>A pattern for GET also serves HEAD; a path that is only known for other methods gives 405.\<close>

definition match_method :: "string \<Rightarrow> string \<Rightarrow> bool" where
  "match_method p m \<longleftrightarrow> p = m \<or> p = ''GET'' \<and> m = ''HEAD''"

datatype 'h route = Found 'h "string list" | MethodNotAllowed | PathNotFound

fun mux :: "((string \<times> seg list) \<times> 'h) list \<Rightarrow> string \<Rightarrow> string list \<Rightarrow> 'h route" where
  "mux [] m path = PathNotFound"
| "mux (((pm, ps), h) # rs) m path =
     (case match_path ps path of
        None \<Rightarrow> mux rs m path
      | Some vs \<Rightarrow>
          if match_method pm m then Found h vs
          else (case mux rs m path of PathNotFound \<Rightarrow> MethodNotAllowed | r \<Rightarrow> r))"

section \<open>Bearer tokens\<close>

text \<open>The check both middlewares make of the \<open>Authorization\<close> header.\<close>

definition bearer_ok :: "unicode \<Rightarrow> string \<Rightarrow> string \<Rightarrow> bool" where
  "bearer_ok U token auth \<longleftrightarrow> (\<exists>t. auth = ''Bearer '' @ t \<and> TrimSpace U t = token)"

lemma prefixed_iff: "(\<exists>t. s = p @ t \<and> P t) \<longleftrightarrow> HasPrefix s p \<and> P (TrimPrefix s p)"
  by (auto simp: HasPrefix_iff)

lemma bearer_ok_iff:
  "bearer_ok U token auth \<longleftrightarrow> HasPrefix auth ''Bearer '' \<and> TrimSpace U (TrimPrefix auth ''Bearer '') = token"
  unfolding bearer_ok_def by (rule prefixed_iff)

section \<open>A guarded front\<close>

text \<open>
  The contract of both services: a request that is not authorized leaves what matters of the state
  as it was, and what matters only depends on what matters. Then requests of strangers, mixed in
  anywhere, make no difference.
\<close>

definition serve_all :: "(http_request \<Rightarrow> 's \<Rightarrow> 's) \<Rightarrow> http_request list \<Rightarrow> 's \<Rightarrow> 's" where
  "serve_all step rs s = foldl (\<lambda>s r. step r s) s rs"

locale guarded_front =
  fixes step :: "http_request \<Rightarrow> 's \<Rightarrow> 's" and auth :: "http_request \<Rightarrow> bool" and view :: "'s \<Rightarrow> 'v"
  assumes refused: "\<not> auth r \<Longrightarrow> view (step r s) = view s"
    and depends: "view s = view t \<Longrightarrow> view (step r s) = view (step r t)"
begin

lemma same_view: "view s = view t \<Longrightarrow> view (serve_all step rs s) = view (serve_all step (filter auth rs) t)"
proof (induction rs arbitrary: s t)
  case (Cons r rs)
  show ?case
  proof (cases "auth r")
    case True
    then show ?thesis using Cons.IH [OF depends [OF Cons.prems]] by (simp add: serve_all_def)
  next
    case False
    have "view (step r s) = view t" using refused [OF False] Cons.prems by simp
    then show ?thesis using Cons.IH False by (simp add: serve_all_def)
  qed
qed (simp add: serve_all_def)

lemma strangers_invisible: "view (serve_all step rs s) = view (serve_all step (filter auth rs) s)"
  by (rule same_view) simp

end

end
