(* ===== verification/Control.thy ===== *)
theory Control
  imports Coordinator Http
begin

text \<open>
  The control API of the tunnel daemon (\<open>src/internal/tunnel/control/api.go\<close> and
  \<open>middleware.go\<close>): the bearer check, the handlers and the router over the lease service. The
  service is an interface of the code: a record of operations here, with the coordinator as its
  implementation. The JSON decoder is a parameter: it returns the value and what follows it.
\<close>

section \<open>Model\<close>

record 's Service =
  svc_CreateLease :: "CreateLeaseRequest \<Rightarrow> 's \<Rightarrow> (lease_error, LeaseResponse) result \<times> 's"
  svc_ExtendLease :: "string \<Rightarrow> ExtendLeaseRequest \<Rightarrow> 's \<Rightarrow> (lease_error, LeaseResponse) result \<times> 's"
  svc_RevokeLease :: "string \<Rightarrow> 's \<Rightarrow> lease_error option \<times> 's"
  svc_GetLease :: "string \<Rightarrow> 's \<Rightarrow> LeaseResponse option"
  svc_ListLeases :: "'s \<Rightarrow> LeaseResponse list"
  svc_Health :: "'s \<Rightarrow> HealthResponse"

definition coordinator_service :: "Config \<Rightarrow> 'db ext \<Rightarrow> 'db Coordinator Service" where
  "coordinator_service cfg x =
     \<lparr>svc_CreateLease = CreateLease cfg x, svc_ExtendLease = ExtendLease cfg x, svc_RevokeLease = RevokeLease x,
      svc_GetLease = GetLease cfg, svc_ListLeases = ListLeases cfg x, svc_Health = Health\<rparr>"

datatype ctl_body = BLease LeaseResponse | BList ListLeasesResponse | BHealth HealthResponse | BError ErrorResponse

text \<open>\<open>ap_records\<close> is the sequence of \<open>ControlRequests\<close> increments, \<open>(op, code)\<close>.\<close>

record 's API =
  ap_svc :: 's
  ap_records :: "(string \<times> string) list"

record decoder =
  dec_create :: "string \<Rightarrow> (string, CreateLeaseRequest \<times> string) result"
  dec_extend :: "string \<Rightarrow> (string, ExtendLeaseRequest \<times> string) result"

subsection \<open>Responses\<close>

record statusRecorder =
  sr_writer :: "ctl_body response"
  sr_status :: int
  sr_wroteHeader :: bool

definition sr_WriteHeader :: "int \<Rightarrow> statusRecorder \<Rightarrow> statusRecorder" where
  "sr_WriteHeader code s =
     (let s1 = (if \<not> sr_wroteHeader s then s\<lparr>sr_status := code, sr_wroteHeader := True\<rparr> else s)
      in s1\<lparr>sr_writer := rw_WriteHeader code (sr_writer s1)\<rparr>)"

definition sr_Write :: "ctl_body body \<Rightarrow> statusRecorder \<Rightarrow> statusRecorder" where
  "sr_Write b s =
     (let s1 = (if \<not> sr_wroteHeader s then s\<lparr>sr_wroteHeader := True\<rparr> else s)
      in s1\<lparr>sr_writer := rw_Write b (sr_writer s1)\<rparr>)"

definition writeJSON :: "int \<Rightarrow> ctl_body \<Rightarrow> statusRecorder \<Rightarrow> statusRecorder" where
  "writeJSON status b w =
     sr_Write (JSON b) (sr_WriteHeader status
       (w\<lparr>sr_writer := rw_SetHeader ''Content-Type'' ''application/json'' (sr_writer w)\<rparr>))"

definition writeError :: "int \<Rightarrow> string \<Rightarrow> statusRecorder \<Rightarrow> statusRecorder" where
  "writeError status msg w = writeJSON status (BError \<lparr>xr_Error = msg\<rparr>) w"

subsection \<open>Bodies\<close>

definition maxControlBodyBytes :: int where "maxControlBodyBytes = 16 * 2 ^ 10"

definition decodeJSON :: "(string \<Rightarrow> (string, 'a \<times> string) result) \<Rightarrow> stream \<Rightarrow> (string, 'a) result" where
  "decodeJSON dec r =
     (case read_limited (maxControlBodyBytes + 1) r of
        Inl e \<Rightarrow> Inl e
      | Inr bytes \<Rightarrow>
          if int (length bytes) > maxControlBodyBytes then Inl ''request body too large''
          else (case dec bytes of
                  Inl e \<Rightarrow> Inl e
                | Inr (out, rest) \<Rightarrow>
                    if json_blank rest then Inr out
                    else Inl ''unexpected trailing data after JSON object''))"

text \<open>The text of an error of the lease store.\<close>

fun lease_error_text :: "unicode \<Rightarrow> lease_error \<Rightarrow> string" where
  "lease_error_text U ErrNotFound = ''lease not found''"
| "lease_error_text U ErrPortsExhausted = ''no free data ports''"
| "lease_error_text U (ErrInvalidCIDR c) = ''invalid allowlist CIDR: '' @ u_quote U c"
| "lease_error_text U (ErrOther e) = e"

subsection \<open>Handlers\<close>

definition handleCreate :: "unicode \<Rightarrow> 's Service \<Rightarrow> decoder \<Rightarrow> stream \<Rightarrow> statusRecorder \<Rightarrow> 's \<Rightarrow> statusRecorder \<times> 's" where
  "handleCreate U S D bdy w s =
     (case decodeJSON (dec_create D) bdy of
        Inl e \<Rightarrow> (writeError 400 e w, s)
      | Inr req \<Rightarrow>
          if cr_LeaseID req = [] then (writeError 400 ''lease_id is required'' w, s)
          else if cr_DurationSeconds req \<le> 0 then (writeError 400 ''duration_seconds must be positive'' w, s)
          else (case svc_CreateLease S req s of
                  (Inl err, s') \<Rightarrow>
                    (case err of
                       ErrPortsExhausted \<Rightarrow> (writeError 503 ''no free tunnel ports'' w, s')
                     | ErrInvalidCIDR c \<Rightarrow> (writeError 400 (lease_error_text U err) w, s')
                     | _ \<Rightarrow> (writeError 500 ''create failed'' w, s'))
                | (Inr resp, s') \<Rightarrow> (writeJSON 200 (BLease resp) w, s')))"

definition handleExtend :: "'s Service \<Rightarrow> decoder \<Rightarrow> string \<Rightarrow> stream \<Rightarrow> statusRecorder \<Rightarrow> 's \<Rightarrow> statusRecorder \<times> 's" where
  "handleExtend S D i bdy w s =
     (case decodeJSON (dec_extend D) bdy of
        Inl e \<Rightarrow> (writeError 400 e w, s)
      | Inr req \<Rightarrow>
          if er_DurationSeconds req \<le> 0 then (writeError 400 ''duration_seconds must be positive'' w, s)
          else (case svc_ExtendLease S i req s of
                  (Inl err, s') \<Rightarrow>
                    if err = ErrNotFound then (writeError 404 ''lease not found'' w, s')
                    else (writeError 500 ''extend failed'' w, s')
                | (Inr resp, s') \<Rightarrow> (writeJSON 200 (BLease resp) w, s')))"

definition handleRevoke :: "'s Service \<Rightarrow> string \<Rightarrow> statusRecorder \<Rightarrow> 's \<Rightarrow> statusRecorder \<times> 's" where
  "handleRevoke S i w s =
     (case svc_RevokeLease S i s of
        (Some err, s') \<Rightarrow>
          if err = ErrNotFound then (writeError 404 ''lease not found'' w, s')
          else (writeError 500 ''revoke failed'' w, s')
      | (None, s') \<Rightarrow> (sr_WriteHeader 204 w, s'))"

definition handleGet :: "'s Service \<Rightarrow> string \<Rightarrow> statusRecorder \<Rightarrow> 's \<Rightarrow> statusRecorder \<times> 's" where
  "handleGet S i w s =
     (case svc_GetLease S i s of
        None \<Rightarrow> (writeError 404 ''lease not found'' w, s)
      | Some resp \<Rightarrow> (writeJSON 200 (BLease resp) w, s))"

definition handleList :: "'s Service \<Rightarrow> statusRecorder \<Rightarrow> 's \<Rightarrow> statusRecorder \<times> 's" where
  "handleList S w s = (writeJSON 200 (BList \<lparr>ll_Leases = svc_ListLeases S s\<rparr>) w, s)"

definition handleHealth :: "'s Service \<Rightarrow> statusRecorder \<Rightarrow> 's \<Rightarrow> statusRecorder \<times> 's" where
  "handleHealth S w s = (writeJSON 200 (BHealth (svc_Health S s)) w, s)"

subsection \<open>Middleware and router\<close>

definition record_op :: "string \<Rightarrow> int \<Rightarrow> 's API \<Rightarrow> 's API" where
  "record_op op code a = a\<lparr>ap_records := ap_records a @ [(op, Itoa code)]\<rparr>"

definition withAuth ::
  "unicode \<Rightarrow> string \<Rightarrow> string \<Rightarrow> (statusRecorder \<Rightarrow> 's \<Rightarrow> statusRecorder \<times> 's) \<Rightarrow> string \<Rightarrow> ctl_body response \<Rightarrow> 's API
   \<Rightarrow> ctl_body response \<times> 's API" where
  "withAuth U token op next auth w a =
     (let rec = \<lparr>sr_writer = w, sr_status = 200, sr_wroteHeader = False\<rparr>; prefix = ''Bearer '' in
      if \<not> HasPrefix auth prefix then
        (let rec = writeError 401 ''unauthorized'' rec in (sr_writer rec, record_op op (sr_status rec) a))
      else (let given = TrimSpace U (TrimPrefix auth prefix) in
        if given \<noteq> token then
          (let rec = writeError 401 ''unauthorized'' rec in (sr_writer rec, record_op op (sr_status rec) a))
        else (case next rec (ap_svc a) of (rec, s') \<Rightarrow> (sr_writer rec, record_op op (sr_status rec) (a\<lparr>ap_svc := s'\<rparr>)))))"

datatype ctl_op = OpCreate | OpList | OpGet | OpExtend | OpRevoke | OpHealth

definition control_routes :: "((string \<times> seg list) \<times> ctl_op) list" where
  "control_routes =
     [((''POST'', [Lit ''v1'', Lit ''leases'']), OpCreate),
      ((''GET'', [Lit ''v1'', Lit ''leases'']), OpList),
      ((''GET'', [Lit ''v1'', Lit ''leases'', Wild]), OpGet),
      ((''POST'', [Lit ''v1'', Lit ''leases'', Wild, Lit ''extend'']), OpExtend),
      ((''DELETE'', [Lit ''v1'', Lit ''leases'', Wild]), OpRevoke),
      ((''GET'', [Lit ''v1'', Lit ''health'']), OpHealth)]"

text \<open>The operation's label and handler; \<open>vs\<close> are the path values.\<close>

definition control_handler ::
  "unicode \<Rightarrow> 's Service \<Rightarrow> decoder \<Rightarrow> ctl_op \<Rightarrow> string list \<Rightarrow> stream
   \<Rightarrow> string \<times> (statusRecorder \<Rightarrow> 's \<Rightarrow> statusRecorder \<times> 's)" where
  "control_handler U S D oper vs bdy =
     (let i = (case vs of [] \<Rightarrow> [] | v # _ \<Rightarrow> v) in
      case oper of
        OpCreate \<Rightarrow> (''create'', handleCreate U S D bdy)
      | OpList \<Rightarrow> (''list'', handleList S)
      | OpGet \<Rightarrow> (''get'', handleGet S i)
      | OpExtend \<Rightarrow> (''extend'', handleExtend S D i bdy)
      | OpRevoke \<Rightarrow> (''revoke'', handleRevoke S i)
      | OpHealth \<Rightarrow> (''health'', handleHealth S))"

definition Router ::
  "unicode \<Rightarrow> string \<Rightarrow> 's Service \<Rightarrow> decoder \<Rightarrow> http_request \<Rightarrow> 's API \<Rightarrow> ctl_body response \<times> 's API" where
  "Router U token S D r a =
     (case mux control_routes (hq_Method r) (hq_Path r) of
        PathNotFound \<Rightarrow> (http_Error ''404 page not found'' 404 new_response, a)
      | MethodNotAllowed \<Rightarrow> (http_Error ''Method Not Allowed'' 405 new_response, a)
      | Found oper vs \<Rightarrow>
          (case control_handler U S D oper vs (hq_Body r) of
             (label, next) \<Rightarrow> withAuth U token label next (hq_Authorization r) new_response a))"


section \<open>The recorded status\<close>

text \<open>The recorder agrees with the writer it wraps.\<close>

definition recorder_ok :: "statusRecorder \<Rightarrow> bool" where
  "recorder_ok s \<longleftrightarrow> rp_status (sr_writer s) = (if sr_wroteHeader s then Some (sr_status s) else None)
     \<and> (sr_wroteHeader s \<or> sr_status s = 200)"

lemma recorder_WriteHeader:
  "recorder_ok s \<Longrightarrow> recorder_ok (sr_WriteHeader c s) \<and> sr_wroteHeader (sr_WriteHeader c s)"
  by (simp add: recorder_ok_def sr_WriteHeader_def Let_def)

lemma recorder_Write: "recorder_ok s \<Longrightarrow> recorder_ok (sr_Write b s) \<and> sr_wroteHeader (sr_Write b s)"
  by (auto simp: recorder_ok_def sr_Write_def Let_def split: if_splits)

lemma recorder_writeJSON:
  assumes "recorder_ok w"
  shows "recorder_ok (writeJSON c b w) \<and> sr_wroteHeader (writeJSON c b w)"
proof -
  have "recorder_ok (w\<lparr>sr_writer := rw_SetHeader k v (sr_writer w)\<rparr>)" for k v
    using assms by (simp add: recorder_ok_def)
  then show ?thesis unfolding writeJSON_def using recorder_WriteHeader recorder_Write by blast
qed

lemmas recorder_writeError = recorder_writeJSON [of _ _ "BError \<lparr>xr_Error = _\<rparr>", folded writeError_def]

lemma recorder_handler:
  assumes "recorder_ok w" "snd (control_handler U S D oper vs bdy) w s = (w', s')"
  shows "recorder_ok w' \<and> sr_wroteHeader w'"
  using assms(2) recorder_writeJSON [OF assms(1)] recorder_WriteHeader [OF assms(1)]
  by (auto simp: control_handler_def handleCreate_def handleList_def handleGet_def handleExtend_def handleRevoke_def
      handleHealth_def writeError_def Let_def
      split: ctl_op.splits sum.splits option.splits prod.splits if_splits lease_error.splits)

definition fresh_recorder :: statusRecorder where
  "fresh_recorder = \<lparr>sr_writer = new_response, sr_status = 200, sr_wroteHeader = False\<rparr>"

lemma fresh_ok: "recorder_ok fresh_recorder"
  by (simp add: fresh_recorder_def recorder_ok_def)

text \<open>What is written to a fresh response.\<close>

lemma fresh_write [simp]:
  "rp_status (sr_writer (writeJSON c b fresh_recorder)) = Some c" "rp_body (sr_writer (writeJSON c b fresh_recorder)) = [JSON b]"
  "rp_status (sr_writer (writeError c m fresh_recorder)) = Some c"
  "rp_body (sr_writer (writeError c m fresh_recorder)) = [JSON (BError \<lparr>xr_Error = m\<rparr>)]"
  "rp_status (sr_writer (sr_WriteHeader c fresh_recorder)) = Some c" "rp_body (sr_writer (sr_WriteHeader c fresh_recorder)) = []"
  "sr_status (writeJSON c b fresh_recorder) = c" "sr_status (writeError c m fresh_recorder) = c"
  "sr_status (sr_WriteHeader c fresh_recorder) = c"
  by (simp_all add: fresh_recorder_def writeError_def writeJSON_def sr_WriteHeader_def sr_Write_def)

lemma withAuth_eq:
  "withAuth U token op next auth new_response a =
     (if bearer_ok U token auth
      then (case next fresh_recorder (ap_svc a) of (w, s') \<Rightarrow> (sr_writer w, record_op op (sr_status w) (a\<lparr>ap_svc := s'\<rparr>)))
      else (sr_writer (writeError 401 ''unauthorized'' fresh_recorder), record_op op 401 a))"
  unfolding withAuth_def bearer_ok_iff Let_def fresh_recorder_def [symmetric]
  by (simp split: prod.splits)

lemma route_ops:
  "mux control_routes ''POST'' [''v1'', ''leases''] = Found OpCreate []"
  "i \<noteq> [] \<Longrightarrow> mux control_routes ''GET'' [''v1'', ''leases'', i] = Found OpGet [i]"
  "i \<noteq> [] \<Longrightarrow> mux control_routes ''DELETE'' [''v1'', ''leases'', i] = Found OpRevoke [i]"
  by (simp_all add: control_routes_def match_method_def)

section \<open>Authorization\<close>

definition no_lease_data :: "ctl_body response \<Rightarrow> bool" where
  "no_lease_data w \<longleftrightarrow> list_all (\<lambda>b. case b of JSON (BError _) \<Rightarrow> True | Plain _ \<Rightarrow> True | _ \<Rightarrow> False) (rp_body w)"

lemma Router_cases:
  obtains (unrouted) w where "\<And>a. Router U token S D r a = (w, a)" "no_lease_data w" "rp_status w = Some 404 \<or> rp_status w = Some 405"
      "\<nexists>oper vs. mux control_routes (hq_Method r) (hq_Path r) = Found oper vs"
  | (routed) oper vs label h where "mux control_routes (hq_Method r) (hq_Path r) = Found oper vs"
      "control_handler U S D oper vs (hq_Body r) = (label, h)"
      "\<And>a. Router U token S D r a = withAuth U token label h (hq_Authorization r) new_response a"
proof (cases "mux control_routes (hq_Method r) (hq_Path r)")
  case (Found oper vs)
  then show ?thesis
    by (cases "control_handler U S D oper vs (hq_Body r)") (use routed [OF Found] in \<open>simp add: Router_def\<close>)
next
  case MethodNotAllowed
  show ?thesis
    by (rule unrouted [of "http_Error ''Method Not Allowed'' 405 new_response"]) (simp_all add: Router_def MethodNotAllowed no_lease_data_def)
next
  case PathNotFound
  show ?thesis
    by (rule unrouted [of "http_Error ''404 page not found'' 404 new_response"]) (simp_all add: Router_def PathNotFound no_lease_data_def)
qed

interpretation control_front: guarded_front "\<lambda>r a. snd (Router U token S D r a)" "\<lambda>r. bearer_ok U token (hq_Authorization r)" ap_svc
  for U token D and S :: "'s Service"
proof unfold_locales
  fix r :: http_request and a :: "'s API"
  assume "\<not> bearer_ok U token (hq_Authorization r)"
  then show "ap_svc (snd (Router U token S D r a)) = ap_svc a"
    by (cases rule: Router_cases [of U token S D r]) (simp_all add: withAuth_eq record_op_def)
next
  fix r :: http_request and a b :: "'s API"
  assume "ap_svc a = ap_svc b"
  then show "ap_svc (snd (Router U token S D r a)) = ap_svc (snd (Router U token S D r b))"
    by (cases rule: Router_cases [of U token S D r]) (simp_all add: withAuth_eq record_op_def split: prod.splits)
qed

text \<open>The response to a request without the token depends on nothing but where it is routed.\<close>

lemma Router_stranger:
  "\<not> bearer_ok U token (hq_Authorization r) \<Longrightarrow>
   fst (Router U token S D r a) =
     (case mux control_routes (hq_Method r) (hq_Path r) of
        PathNotFound \<Rightarrow> http_Error ''404 page not found'' 404 new_response
      | MethodNotAllowed \<Rightarrow> http_Error ''Method Not Allowed'' 405 new_response
      | Found oper vs \<Rightarrow> sr_writer (writeError 401 ''unauthorized'' fresh_recorder))"
  by (simp add: Router_def withAuth_eq split: prod.splits route.splits)

lemma Router_counts:
  assumes "Router U token S D r a = (w, a')" "mux control_routes (hq_Method r) (hq_Path r) = Found oper vs"
  shows "\<exists>code. rp_status w = Some code
    \<and> ap_records a' = ap_records a @ [(fst (control_handler U S D oper vs (hq_Body r)), Itoa code)]"
proof -
  obtain label h where h: "control_handler U S D oper vs (hq_Body r) = (label, h)"
    by (cases "control_handler U S D oper vs (hq_Body r)")
  have run: "withAuth U token label h (hq_Authorization r) new_response a = (w, a')"
    using assms h by (simp add: Router_def)
  obtain w1 s1 where next1: "h fresh_recorder (ap_svc a) = (w1, s1)" by (cases "h fresh_recorder (ap_svc a)")
  have "recorder_ok w1 \<and> sr_wroteHeader w1"
    using recorder_handler [OF fresh_ok, of U S D oper vs "hq_Body r"] h next1 by simp
  then have "rp_status (sr_writer w1) = Some (sr_status w1)" by (simp add: recorder_ok_def)
  then show ?thesis using run next1 h by (auto simp: withAuth_eq record_op_def split: if_splits)
qed

text \<open>
  (C20) Nothing without the token. A request whose \<open>Authorization\<close> header is not the bearer
  token changes no lease and learns none, whatever the method, path and body are: it is answered
  401 when an operation has its path and method, 404 or 405 when the path or the method has none,
  and the whole response is the same for every state of the service, every service behind the
  router and every body. Every routed request is counted once, under its operation and with the
  status that was sent. In any sequence of requests those without the token make no difference
  to the service.
\<close>

theorem control_auth_required:
  assumes "Router U token S D r a = (w, a')"
  shows "(\<not> bearer_ok U token (hq_Authorization r) \<longrightarrow>
       ap_svc a' = ap_svc a \<and> no_lease_data w
       \<and> rp_status w = Some (case mux control_routes (hq_Method r) (hq_Path r) of
             PathNotFound \<Rightarrow> 404 | MethodNotAllowed \<Rightarrow> 405 | Found oper vs \<Rightarrow> 401)
       \<and> (\<forall>(S' :: 't Service) D' bdy b. fst (Router U token S' D' (r\<lparr>hq_Body := bdy\<rparr>) b) = w))
    \<and> (\<forall>oper vs. mux control_routes (hq_Method r) (hq_Path r) = Found oper vs \<longrightarrow>
       (\<exists>code. rp_status w = Some code
          \<and> ap_records a' = ap_records a @ [(fst (control_handler U S D oper vs (hq_Body r)), Itoa code)]))
    \<and> ap_svc (serve_all (\<lambda>r a. snd (Router U token S D r a)) rs a)
      = ap_svc (serve_all (\<lambda>r a. snd (Router U token S D r a)) (filter (\<lambda>r. bearer_ok U token (hq_Authorization r)) rs) a)"
proof (intro conjI impI allI)
  assume out: "\<not> bearer_ok U token (hq_Authorization r)"
  note w = Router_stranger [OF out, of S D a, unfolded assms fst_conv]
  show "ap_svc a' = ap_svc a" using control_front.refused [OF out, of S D a] assms by simp
  show "no_lease_data w" by (simp add: w no_lease_data_def split: route.splits)
  show "rp_status w = Some (case mux control_routes (hq_Method r) (hq_Path r) of
      PathNotFound \<Rightarrow> 404 | MethodNotAllowed \<Rightarrow> 405 | Found oper vs \<Rightarrow> 401)"
    by (simp add: w split: route.splits)
  show "fst (Router U token S' D' (r\<lparr>hq_Body := bdy\<rparr>) b) = w" for S' :: "'t Service" and D' bdy b
    using Router_stranger [of U token "r\<lparr>hq_Body := bdy\<rparr>" S' D' b] out w by simp
qed (use Router_counts [OF assms] control_front.strangers_invisible in blast)+

definition demo_decoder :: decoder where
  "demo_decoder = \<lparr>dec_create = (\<lambda>s. Inr (demo_request, [])), dec_extend = (\<lambda>s. Inr (\<lparr>er_DurationSeconds = 3600\<rparr>, s))\<rparr>"

definition demo_http :: "string \<Rightarrow> string list \<Rightarrow> string \<Rightarrow> http_request" where
  "demo_http m path auth = \<lparr>hq_Method = m, hq_Path = path, hq_Authorization = auth, hq_Body = ([], None)\<rparr>"

lemma demo_bearer: "bearer_ok plain_unicode ''t'' ''Bearer t''" "\<not> bearer_ok plain_unicode ''t'' ''Basic t''"
  by (simp_all add: bearer_ok_iff HasPrefix_def TrimPrefix_def TrimSpace_def ascii_space_def is_ascii_def)

theorem control_auth_required_witness:
  "case Router plain_unicode ''t'' (coordinator_service (demo_config 2592000) demo_ext) demo_decoder
       (demo_http ''POST'' [''v1'', ''leases''] ''Basic t'') \<lparr>ap_svc = demo_coord, ap_records = []\<rparr> of
     (w, a') \<Rightarrow> ap_svc a' = demo_coord \<and> no_lease_data w \<and> rp_status w = Some 401"
proof -
  let ?r = "demo_http ''POST'' [''v1'', ''leases''] ''Basic t''"
  let ?a = "\<lparr>ap_svc = demo_coord, ap_records = []\<rparr>"
  obtain w a' where run: "Router plain_unicode ''t'' (coordinator_service (demo_config 2592000) demo_ext) demo_decoder ?r ?a = (w, a')"
    by (cases "Router plain_unicode ''t'' (coordinator_service (demo_config 2592000) demo_ext) demo_decoder ?r ?a")
  have "\<not> bearer_ok plain_unicode ''t'' (hq_Authorization ?r)" using demo_bearer(2) by (simp add: demo_http_def)
  moreover have "\<exists>oper vs. mux control_routes (hq_Method ?r) (hq_Path ?r) = Found oper vs"
    by (simp add: demo_http_def route_ops)
  ultimately show ?thesis using control_auth_required [OF run, of "[]"] run by auto
qed

section \<open>Bodies\<close>

text \<open>A body that is complete, within the limit, and one value with nothing after it.\<close>

definition one_value :: "(string \<Rightarrow> (string, 'a \<times> string) result) \<Rightarrow> stream \<Rightarrow> 'a \<Rightarrow> bool" where
  "one_value dec r v \<longleftrightarrow> length (fst r) \<le> 16384 \<and> snd r = None \<and> (\<exists>rest. dec (fst r) = Inr (v, rest) \<and> json_blank rest)"

lemma decodeJSON_iff: "decodeJSON dec r = Inr v \<longleftrightarrow> one_value dec r v"
proof (cases "length (fst r) \<le> 16384")
  case True
  then have "read_limited (maxControlBodyBytes + 1) r = (case snd r of None \<Rightarrow> Inr (fst r) | Some e \<Rightarrow> Inl e)"
    by (simp add: read_limited_def maxControlBodyBytes_def)
  then show ?thesis using True
    by (auto simp: decodeJSON_def one_value_def maxControlBodyBytes_def split: option.splits sum.splits if_splits)
next
  case False
  then have "read_limited (maxControlBodyBytes + 1) r = Inr (take 16385 (fst r))"
    by (simp add: read_limited_def maxControlBodyBytes_def)
  then show ?thesis using False by (simp add: decodeJSON_def one_value_def maxControlBodyBytes_def)
qed

definition create_status :: "(lease_error, LeaseResponse) result \<Rightarrow> int" where
  "create_status r =
     (case r of Inr _ \<Rightarrow> 200
      | Inl e \<Rightarrow> (case e of ErrPortsExhausted \<Rightarrow> 503 | ErrInvalidCIDR _ \<Rightarrow> 400 | _ \<Rightarrow> 500))"

definition extend_status :: "(lease_error, LeaseResponse) result \<Rightarrow> int" where
  "extend_status r = (case r of Inr _ \<Rightarrow> 200 | Inl e \<Rightarrow> if e = ErrNotFound then 404 else 500)"

lemma decoded:
  "decodeJSON dec r = Inl e \<Longrightarrow> \<not> one_value dec r v" "decodeJSON dec r = Inr u \<Longrightarrow> one_value dec r v \<longleftrightarrow> v = u"
  by (auto simp: decodeJSON_iff [symmetric])

lemma handleCreate_exact:
  assumes "handleCreate U S D bdy fresh_recorder s = (w1, s1)"
  shows "if \<exists>req. one_value (dec_create D) bdy req \<and> cr_LeaseID req \<noteq> [] \<and> 0 < cr_DurationSeconds req
       then \<exists>req. one_value (dec_create D) bdy req \<and> s1 = snd (svc_CreateLease S req s)
              \<and> rp_status (sr_writer w1) = Some (create_status (fst (svc_CreateLease S req s)))
       else s1 = s \<and> rp_status (sr_writer w1) = Some 400"
proof (cases "decodeJSON (dec_create D) bdy")
  case (Inl e)
  then show ?thesis using assms decoded(1) [OF Inl] by (auto simp: handleCreate_def)
next
  case (Inr req)
  show ?thesis
  proof (cases "cr_LeaseID req \<noteq> [] \<and> 0 < cr_DurationSeconds req")
    case True
    obtain r t where c: "svc_CreateLease S req s = (r, t)" by (cases "svc_CreateLease S req s")
    have "s1 = t \<and> rp_status (sr_writer w1) = Some (create_status r)"
      using assms Inr True c by (auto simp: handleCreate_def create_status_def split: sum.splits lease_error.splits)
    then show ?thesis unfolding decoded(2) [OF Inr] using True c by auto
  next
    case False
    then show ?thesis unfolding decoded(2) [OF Inr] using assms Inr by (auto simp: handleCreate_def split: if_splits)
  qed
qed

lemma handleExtend_exact:
  assumes "handleExtend S D i bdy fresh_recorder s = (w2, s2)"
  shows "if \<exists>req. one_value (dec_extend D) bdy req \<and> 0 < er_DurationSeconds req
       then \<exists>req. one_value (dec_extend D) bdy req \<and> s2 = snd (svc_ExtendLease S i req s)
              \<and> rp_status (sr_writer w2) = Some (extend_status (fst (svc_ExtendLease S i req s)))
       else s2 = s \<and> rp_status (sr_writer w2) = Some 400"
proof (cases "decodeJSON (dec_extend D) bdy")
  case (Inl e)
  then show ?thesis using assms decoded(1) [OF Inl] by (auto simp: handleExtend_def)
next
  case (Inr req)
  obtain r t where c: "svc_ExtendLease S i req s = (r, t)" by (cases "svc_ExtendLease S i req s")
  show ?thesis unfolding decoded(2) [OF Inr] using assms Inr c
    by (auto simp: handleExtend_def extend_status_def split: sum.splits if_splits)
qed

text \<open>
  (C22) What reaches the service. A create or extend request calls the service exactly when its
  body is at most 16 KiB, complete, and one JSON value with nothing but blanks after it, that
  names a lease (create) and a positive duration; then the status follows from the outcome.
  Anything else is answered 400 and leaves the service as it was.
\<close>

theorem control_body_exact:
  assumes "handleCreate U S D bdy fresh_recorder s = (w1, s1)" "handleExtend S D i bdy fresh_recorder s = (w2, s2)"
  shows "(if \<exists>req. one_value (dec_create D) bdy req \<and> cr_LeaseID req \<noteq> [] \<and> 0 < cr_DurationSeconds req
       then \<exists>req. one_value (dec_create D) bdy req \<and> s1 = snd (svc_CreateLease S req s)
              \<and> rp_status (sr_writer w1) = Some (create_status (fst (svc_CreateLease S req s)))
       else s1 = s \<and> rp_status (sr_writer w1) = Some 400)
    \<and> (if \<exists>req. one_value (dec_extend D) bdy req \<and> 0 < er_DurationSeconds req
       then \<exists>req. one_value (dec_extend D) bdy req \<and> s2 = snd (svc_ExtendLease S i req s)
              \<and> rp_status (sr_writer w2) = Some (extend_status (fst (svc_ExtendLease S i req s)))
       else s2 = s \<and> rp_status (sr_writer w2) = Some 400)"
  using handleCreate_exact [OF assms(1)] handleExtend_exact [OF assms(2)] by (rule conjI)

theorem control_body_exact_witness:
  "case handleExtend (coordinator_service (demo_config 2592000) demo_ext) demo_decoder ''a'' (''x'', None) fresh_recorder demo_coord of
     (w, s') \<Rightarrow> s' = demo_coord \<and> rp_status (sr_writer w) = Some 400"
proof -
  let ?S = "coordinator_service (demo_config 2592000) demo_ext"
  obtain w1 s1 where 1: "handleCreate plain_unicode ?S demo_decoder (''x'', None) fresh_recorder demo_coord = (w1, s1)"
    by (cases "handleCreate plain_unicode ?S demo_decoder (''x'', None) fresh_recorder demo_coord")
  obtain w2 s2 where 2: "handleExtend ?S demo_decoder ''a'' (''x'', None) fresh_recorder demo_coord = (w2, s2)"
    by (cases "handleExtend ?S demo_decoder ''a'' (''x'', None) fresh_recorder demo_coord")
  have "\<not> one_value (dec_extend demo_decoder) (''x'', None) req" for req
    by (simp add: one_value_def demo_decoder_def json_blank_def)
  then show ?thesis using control_body_exact [OF 1 2] 2 by simp
qed


section \<open>The service contract\<close>

text \<open>
  What the API relies on: a created lease is found with its port and expiry, a revoked one is
  gone, revoking reports an unknown lease exactly when there is none, and a lookup never shows
  the token. \<open>pre\<close> is what a create may assume of its request and of the randomness.
\<close>

locale lease_service =
  fixes inv :: "'s \<Rightarrow> bool" and pre :: "CreateLeaseRequest \<Rightarrow> 's \<Rightarrow> bool" and S :: "'s Service"
  assumes create_law: "inv s \<Longrightarrow> pre req s \<Longrightarrow> svc_CreateLease S req s = (Inr r, s') \<Longrightarrow>
      inv s' \<and> (\<exists>g. svc_GetLease S (cr_LeaseID req) s' = Some g \<and> lr_Port g = lr_Port r \<and> lr_ExpiresAt g = lr_ExpiresAt r)"
    and revoke_law: "inv s \<Longrightarrow> svc_RevokeLease S i s = (None, s') \<Longrightarrow> inv s' \<and> svc_GetLease S i s' = None"
    and revoke_known: "inv s \<Longrightarrow> svc_RevokeLease S i s = (e, s') \<Longrightarrow> e = Some ErrNotFound \<longleftrightarrow> svc_GetLease S i s = None"
    and get_hides: "svc_GetLease S i s = Some g \<Longrightarrow> lr_Token g = []"
begin

lemma created_found:
  assumes "inv s" "handleCreate U S D bdy fresh_recorder s = (w, s')" "rp_status (sr_writer w) = Some 200"
    "\<And>req. one_value (dec_create D) bdy req \<Longrightarrow> pre req s"
  shows "\<exists>req r g. one_value (dec_create D) bdy req \<and> rp_body (sr_writer w) = [JSON (BLease r)] \<and> inv s'
    \<and> handleGet S (cr_LeaseID req) fresh_recorder s' = (writeJSON 200 (BLease g) fresh_recorder, s')
    \<and> lr_Port g = lr_Port r \<and> lr_ExpiresAt g = lr_ExpiresAt r \<and> lr_Token g = []"
proof -
  obtain req r where req: "one_value (dec_create D) bdy req" "svc_CreateLease S req s = (Inr r, s')"
    "w = writeJSON 200 (BLease r) fresh_recorder"
  proof (cases "decodeJSON (dec_create D) bdy")
    case (Inr req)
    show thesis
      by (rule that [of req "projr (fst (svc_CreateLease S req s))"])
        (use assms(2,3) Inr in \<open>auto simp: decodeJSON_iff [symmetric] handleCreate_def
           split: if_splits prod.splits sum.splits lease_error.splits\<close>)
  qed (use assms(2,3) in \<open>auto simp: handleCreate_def\<close>)
  from create_law [OF assms(1) assms(4) [OF req(1)] req(2)] obtain g where
    "inv s'" "svc_GetLease S (cr_LeaseID req) s' = Some g" "lr_Port g = lr_Port r" "lr_ExpiresAt g = lr_ExpiresAt r" by blast
  with get_hides [OF this(2)] req show ?thesis by (auto simp: handleGet_def intro!: exI [of _ req])
qed

lemma revoked_gone:
  assumes "inv s" "handleRevoke S i fresh_recorder s = (w, s')"
  shows "rp_status (sr_writer w) = Some 204 \<or> rp_status (sr_writer w) = Some 404 \<or> rp_status (sr_writer w) = Some 500"
    "rp_status (sr_writer w) = Some 404 \<longleftrightarrow> svc_GetLease S i s = None"
    "rp_status (sr_writer w) = Some 204 \<Longrightarrow> inv s' \<and> rp_status (sr_writer (fst (handleGet S i fresh_recorder s'))) = Some 404"
proof -
  obtain e t where r: "svc_RevokeLease S i s = (e, t)" by (cases "svc_RevokeLease S i s")
  show "rp_status (sr_writer w) = Some 204 \<or> rp_status (sr_writer w) = Some 404 \<or> rp_status (sr_writer w) = Some 500"
    "rp_status (sr_writer w) = Some 404 \<longleftrightarrow> svc_GetLease S i s = None"
    "rp_status (sr_writer w) = Some 204 \<Longrightarrow> inv s' \<and> rp_status (sr_writer (fst (handleGet S i fresh_recorder s'))) = Some 404"
    using assms(2) r revoke_known [OF assms(1) r] revoke_law [OF assms(1), of i t]
    by (auto simp: handleRevoke_def handleGet_def split: option.splits if_splits)
qed

end

text \<open>The coordinator keeps the contract.\<close>

definition coord_inv :: "'db ext \<Rightarrow> 'db Coordinator \<Rightarrow> bool" where
  "coord_inv x c \<longleftrightarrow> bolt_ok (x_bolt x) \<and> codec_ok (x_codec x) \<and> store_inv (x_bolt x) (x_codec x) (co_store c)"

definition create_pre :: "'db ext \<Rightarrow> CreateLeaseRequest \<Rightarrow> 'db Coordinator \<Rightarrow> bool" where
  "create_pre x req c \<longleftrightarrow> utf8_valid (cr_LeaseID req) \<and> list_all utf8_valid (cr_AllowlistCIDRs req)
     \<and> token_fresh (x_rnd x) (co_store c)"

lemma coord_create:
  assumes "coord_inv x c" "create_pre x req c" "CreateLease cfg x req c = (Inr r, c')"
  shows "coord_inv x c' \<and> (\<exists>g. GetLease cfg (cr_LeaseID req) c' = Some g \<and> lr_Port g = lr_Port r \<and> lr_ExpiresAt g = lr_ExpiresAt r)"
proof -
  define p where "p = \<lparr>cp_LeaseID = cr_LeaseID req, cp_Duration = clampDuration cfg (cr_DurationSeconds req),
    cp_AllowlistCIDRs = cr_AllowlistCIDRs req\<rparr>"
  have wire: "params_wire p" using assms(2) by (simp add: params_wire_def p_def create_pre_def)
  obtain l where run: "Create (x_bolt x) (x_codec x) (x_probe x) (x_rnd x) (x_now x) p (co_store c) = (Inr l, co_store c')"
    and r: "r = toResponse cfg (co_manager c) l True"
    using assms(3) by (auto simp: CreateLease_def p_def Let_def split: prod.splits sum.splits)
  have "token_fresh (x_rnd x) (co_store c)" using assms(2) by (simp add: create_pre_def)
  note cr = create_result [OF _ _ _ wire this run]
  have "store_inv (x_bolt x) (x_codec x) (co_store c')" "Get (co_store c') (cr_LeaseID req) = Some l"
    using cr(1,2) assms(1) by (simp_all add: coord_inv_def p_def)
  then show ?thesis using assms(1) by (simp add: coord_inv_def GetLease_def r)
qed

lemma coord_revoke:
  assumes "coord_inv x c" "RevokeLease x i c = (e, c')"
  shows "e = Some ErrNotFound \<longleftrightarrow> GetLease cfg i c = None" "e = None \<Longrightarrow> coord_inv x c' \<and> GetLease cfg i c' = None"
proof -
  obtain r s' where rem: "remove (x_bolt x) i (co_store c) = (r, s')" by (cases "remove (x_bolt x) i (co_store c)")
  have inv: "store_inv (x_bolt x) (x_codec x) (co_store c)" "bolt_ok (x_bolt x)" using assms(1) by (simp_all add: coord_inv_def)
  note idx = store_inv_parts(2) [OF inv(1)]
  have c': "e = r" "co_store c' = s'"
    using assms(2) rem by (auto simp: RevokeLease_def Revoke_def split: option.splits)
  have "r = Some ErrNotFound \<longleftrightarrow> Get (co_store c) i = None"
    using idx by (cases rule: remove_cases [of "co_store c" i "x_bolt x"]) (use rem in auto)
  then show "e = Some ErrNotFound \<longleftrightarrow> GetLease cfg i c = None" by (simp add: c' GetLease_def split: option.splits)
  show "coord_inv x c' \<and> GetLease cfg i c' = None" if "e = None"
    using remove_ok(2,3) [OF inv, of i s'] rem that assms(1) by (simp add: c' coord_inv_def GetLease_def)
qed

interpretation service: lease_service "coord_inv x" "create_pre x" "coordinator_service cfg x" for x :: "'db ext" and cfg
proof unfold_locales
  fix c c' :: "'db Coordinator" and req r
  assume "coord_inv x c" "create_pre x req c" "svc_CreateLease (coordinator_service cfg x) req c = (Inr r, c')"
  then show "coord_inv x c' \<and> (\<exists>g. svc_GetLease (coordinator_service cfg x) (cr_LeaseID req) c' = Some g
      \<and> lr_Port g = lr_Port r \<and> lr_ExpiresAt g = lr_ExpiresAt r)"
    using coord_create by (simp add: coordinator_service_def)
next
  fix c c' :: "'db Coordinator" and i
  assume "coord_inv x c" "svc_RevokeLease (coordinator_service cfg x) i c = (None, c')"
  then show "coord_inv x c' \<and> svc_GetLease (coordinator_service cfg x) i c' = None"
    using coord_revoke(2) [OF _ _ refl] by (simp add: coordinator_service_def)
next
  fix c c' :: "'db Coordinator" and i e
  assume "coord_inv x c" "svc_RevokeLease (coordinator_service cfg x) i c = (e, c')"
  then show "e = Some ErrNotFound \<longleftrightarrow> svc_GetLease (coordinator_service cfg x) i c = None"
    using coord_revoke(1) by (simp add: coordinator_service_def)
next
  fix c :: "'db Coordinator" and i g
  assume "svc_GetLease (coordinator_service cfg x) i c = Some g"
  then show "lr_Token g = []" by (auto simp: coordinator_service_def GetLease_def split: option.splits)
qed


section \<open>Leases over the API\<close>

text \<open>An authorized request, and how the router runs it.\<close>

definition authorized :: "unicode \<Rightarrow> string \<Rightarrow> string \<Rightarrow> string list \<Rightarrow> http_request \<Rightarrow> bool" where
  "authorized U token m path r \<longleftrightarrow> hq_Method r = m \<and> hq_Path r = path \<and> bearer_ok U token (hq_Authorization r)"

lemma Router_authorized:
  assumes "authorized U token m path r" "mux control_routes m path = Found oper vs"
    "snd (control_handler U S D oper vs (hq_Body r)) fresh_recorder (ap_svc a) = (w, s')"
  shows "\<exists>a'. Router U token S D r a = (sr_writer w, a') \<and> ap_svc a' = s'"
  using assms
  by (cases "control_handler U S D oper vs (hq_Body r)")
    (simp add: authorized_def Router_def withAuth_eq record_op_def)

text \<open>
  (C21) A lease over the API. When a create is answered 200, a get of that lease is answered
  200 with the same port and expiry and without the token. A delete is answered 404 exactly when
  the lease is unknown; when it is answered 204, a get is answered 404 from then on.
\<close>

theorem control_lifecycle:
  assumes inv: "coord_inv x (ap_svc a)"
    and post: "authorized U token ''POST'' [''v1'', ''leases''] rp" "one_value (dec_create D) (hq_Body rp) req"
      "create_pre x req (ap_svc a)" "Router U token (coordinator_service cfg x) D rp a = (wp, ap)" "rp_status wp = Some 200"
    and fetch: "authorized U token ''GET'' [''v1'', ''leases'', cr_LeaseID req] rg" "cr_LeaseID req \<noteq> []"
    and del: "authorized U token ''DELETE'' [''v1'', ''leases'', i] rd" "i \<noteq> []"
      "Router U token (coordinator_service cfg x) D rd a = (wd, ad)"
  shows "(\<exists>r g. rp_body wp = [JSON (BLease r)]
      \<and> rp_status (fst (Router U token (coordinator_service cfg x) D rg ap)) = Some 200
      \<and> rp_body (fst (Router U token (coordinator_service cfg x) D rg ap)) = [JSON (BLease g)]
      \<and> lr_Port g = lr_Port r \<and> lr_ExpiresAt g = lr_ExpiresAt r \<and> lr_Token g = [])
    \<and> (rp_status wd = Some 404 \<longleftrightarrow> GetLease cfg i (ap_svc a) = None)
    \<and> (rp_status wd = Some 204 \<longrightarrow> GetLease cfg i (ap_svc ad) = None)"
proof -
  let ?S = "coordinator_service cfg x"
  obtain w s' where hc: "handleCreate U ?S D (hq_Body rp) fresh_recorder (ap_svc a) = (w, s')"
    by (cases "handleCreate U ?S D (hq_Body rp) fresh_recorder (ap_svc a)")
  then have "wp = sr_writer w \<and> ap_svc ap = s'"
    using Router_authorized [OF post(1) route_ops(1), of ?S D a w s'] post(4) by (auto simp: control_handler_def)
  note wp = conjunct1 [OF this] conjunct2 [OF this]
  have only: "one_value (dec_create D) (hq_Body rp) q \<Longrightarrow> q = req" for q using post(2) by (auto simp: one_value_def)
  have "rp_status (sr_writer w) = Some 200" using wp(1) post(5) by simp
  then obtain q r g where cf: "one_value (dec_create D) (hq_Body rp) q" "rp_body wp = [JSON (BLease r)]"
    "handleGet ?S (cr_LeaseID q) fresh_recorder s' = (writeJSON 200 (BLease g) fresh_recorder, s')"
    "lr_Port g = lr_Port r" "lr_ExpiresAt g = lr_ExpiresAt r" "lr_Token g = []"
    using service.created_found [OF inv hc] only post(3) unfolding wp(1) by blast
  have "handleGet ?S (cr_LeaseID req) fresh_recorder s' = (writeJSON 200 (BLease g) fresh_recorder, s')"
    using cf(3) only [OF cf(1)] by simp
  then have "snd (control_handler U ?S D OpGet [cr_LeaseID req] (hq_Body rg)) fresh_recorder (ap_svc ap)
      = (writeJSON 200 (BLease g) fresh_recorder, s')" by (simp add: control_handler_def wp(2))
  from Router_authorized [OF fetch(1) route_ops(2) [OF fetch(2)] this]
  have "fst (Router U token ?S D rg ap) = sr_writer (writeJSON 200 (BLease g) fresh_recorder)" by auto
  then have get: "rp_status (fst (Router U token ?S D rg ap)) = Some 200"
    "rp_body (fst (Router U token ?S D rg ap)) = [JSON (BLease g)]" by simp_all
  obtain v t where hr: "handleRevoke ?S i fresh_recorder (ap_svc a) = (v, t)"
    by (cases "handleRevoke ?S i fresh_recorder (ap_svc a)")
  then have wd: "wd = sr_writer v" "ap_svc ad = t"
    using Router_authorized [OF del(1) route_ops(3) [OF del(2)], of ?S D a v t] del(3) by (auto simp: control_handler_def)
  note gone = service.revoked_gone [OF inv hr]
  have "svc_GetLease ?S = GetLease cfg" by (simp add: coordinator_service_def)
  moreover have "rp_status wd = Some 204 \<longrightarrow> GetLease cfg i t = None"
    using gone(3) unfolding wd by (auto simp: handleGet_def coordinator_service_def split: option.splits)
  ultimately show ?thesis using cf(2,4-6) get gone(2) wd by auto
qed


definition demo_api :: "memdb Coordinator API" where
  "demo_api = \<lparr>ap_svc = demo_coord, ap_records = []\<rparr>"

lemma demo_coord_inv: "coord_inv demo_ext demo_coord" "create_pre demo_ext demo_request demo_coord"
  using ref_store_inv mem_bolt_ok ref_codec_ok ref_params_ok(2)
  by (simp_all add: coord_inv_def create_pre_def demo_coord_def NewCoordinator_def demo_request_def)

lemma demo_authorized: "authorized plain_unicode ''t'' m path (demo_http m path ''Bearer t'')"
  using demo_bearer(1) by (simp add: authorized_def demo_http_def)

lemma demo_one_value: "one_value (dec_create demo_decoder) (hq_Body (demo_http m path auth)) demo_request"
  by (simp add: one_value_def demo_decoder_def demo_http_def json_blank_def)

lemma demo_posted:
  "rp_status (fst (Router plain_unicode ''t'' (coordinator_service (demo_config 2592000) demo_ext) demo_decoder
     (demo_http ''POST'' [''v1'', ''leases''] ''Bearer t'') demo_api)) = Some 200"
proof -
  let ?S = "coordinator_service (demo_config 2592000) demo_ext" and ?p = "demo_http ''POST'' [''v1'', ''leases''] ''Bearer t''"
  obtain r c' where cr: "CreateLease (demo_config 2592000) demo_ext demo_request demo_coord = (Inr r, c')"
    using demo_create by blast
  have dec: "decodeJSON (dec_create demo_decoder) ([], None) = Inr demo_request"
    using demo_one_value [of "[]" "[]" "[]"] by (simp add: decodeJSON_iff demo_http_def)
  have "snd (control_handler plain_unicode ?S demo_decoder OpCreate [] (hq_Body ?p)) fresh_recorder (ap_svc demo_api)
      = (writeJSON 200 (BLease r) fresh_recorder, c')"
    using cr by (simp add: control_handler_def handleCreate_def demo_http_def dec coordinator_service_def demo_api_def)
      (simp add: demo_request_def)
  from Router_authorized [OF demo_authorized route_ops(1) this] show ?thesis by auto
qed

theorem control_lifecycle_witness:
  "rp_status (fst (Router plain_unicode ''t'' (coordinator_service (demo_config 2592000) demo_ext) demo_decoder
        (demo_http ''GET'' [''v1'', ''leases'', ''a''] ''Bearer t'')
        (snd (Router plain_unicode ''t'' (coordinator_service (demo_config 2592000) demo_ext) demo_decoder
           (demo_http ''POST'' [''v1'', ''leases''] ''Bearer t'') demo_api)))) = Some 200"
proof -
  let ?S = "coordinator_service (demo_config 2592000) demo_ext"
  let ?p = "demo_http ''POST'' [''v1'', ''leases''] ''Bearer t''" and ?g = "demo_http ''GET'' [''v1'', ''leases'', ''a''] ''Bearer t''"
  let ?d = "demo_http ''DELETE'' [''v1'', ''leases'', ''a''] ''Bearer t''"
  obtain wp ap where post: "Router plain_unicode ''t'' ?S demo_decoder ?p demo_api = (wp, ap)"
    by (cases "Router plain_unicode ''t'' ?S demo_decoder ?p demo_api")
  obtain wd ad where del: "Router plain_unicode ''t'' ?S demo_decoder ?d demo_api = (wd, ad)"
    by (cases "Router plain_unicode ''t'' ?S demo_decoder ?d demo_api")
  have ok: "rp_status wp = Some 200" using demo_posted post by simp
  have a: "ap_svc demo_api = demo_coord" "cr_LeaseID demo_request = ''a''" by (simp_all add: demo_api_def demo_request_def)
  note cl = control_lifecycle [of demo_ext demo_api plain_unicode "''t''" ?p demo_decoder demo_request "demo_config 2592000" wp ap ?g "''a''" ?d wd ad,
      unfolded a, OF demo_coord_inv(1) demo_authorized demo_one_value demo_coord_inv(2) post ok demo_authorized _ demo_authorized _ del]
  then show ?thesis using post by auto
qed

end
