(* ===== verification/Policy.thy ===== *)
theory Policy
  imports Contract Go_Net
begin

text \<open>
  The egress policy of the sidecar (\<open>src/internal/policy\<close>): request and response headers,
  the address classes each proxy mode may reach, URL validation, host validation and the
  redirect check. \<open>url.Parse\<close> is the parameter \<open>P\<close>, name resolution the parameter
  \<open>resolver\<close>; both range over all functions, so nothing below depends on their answers.
\<close>

section \<open>Model\<close>

text \<open>An error that wraps \<open>ErrPolicyDenied\<close>, or any other error.\<close>

datatype policy_error = ErrPolicyDenied string | PlainError string

fun policy_error_text :: "policy_error \<Rightarrow> string" where
  "policy_error_text (ErrPolicyDenied m) = ''policy denied: '' @ m"
| "policy_error_text (PlainError m) = m"

text \<open>What the program reads of a \<open>*url.URL\<close>.\<close>

record url =
  url_Scheme :: string
  url_Hostname :: string
  url_User :: "string option"
  url_Host :: string
  url_String :: string

subsection \<open>Headers\<close>

definition requestHeaderAllowlist :: "string list" where
  "requestHeaderAllowlist =
     [''accept'', ''accept-language'', ''cache-control'', ''content-type'',
      ''if-modified-since'', ''if-none-match'', ''user-agent'']"

definition responseHeaderDenylist :: "string list" where
  "responseHeaderDenylist =
     [''authorization'', ''cookie'', ''proxy-authorization'', ''set-cookie'',
      ''x-api-key'', ''x-payment'', ''payment-signature'']"

definition SanitizeRequestHeaders :: "unicode \<Rightarrow> (string, string) gomap \<Rightarrow> (string, string) gomap" where
  "SanitizeRequestHeaders U input =
     foldl (\<lambda>out (key, value).
       if ToLower U (TrimSpace U key) \<in> set requestHeaderAllowlist then gm_put key value out else out) [] input"

definition AllowResponseHeader :: "unicode \<Rightarrow> string \<Rightarrow> bool" where
  "AllowResponseHeader U key \<longleftrightarrow> ToLower U (TrimSpace U key) \<notin> set responseHeaderDenylist"

subsection \<open>Addresses\<close>

text \<open>\<open>netip.MustParsePrefix("200::/7")\<close>.\<close>

definition yggdrasilPrefix :: "byte list \<times> nat" where
  "yggdrasilPrefix = (0x02 # replicate 15 0, 7)"

definition IsPublicIP :: "addr \<Rightarrow> bool" where
  "IsPublicIP a \<longleftrightarrow> addr_IsValid a \<and> IsGlobalUnicast a \<and> \<not> IsPrivate a \<and> \<not> IsLoopback a
     \<and> \<not> IsLinkLocalUnicast a \<and> \<not> IsMulticast a \<and> \<not> IsUnspecified a"

definition IsYggdrasilIP :: "addr \<Rightarrow> bool" where
  "IsYggdrasilIP a \<longleftrightarrow> addr_IsValid a \<and> prefix_Contains yggdrasilPrefix a"

definition IPAllowedForMode :: "addr \<Rightarrow> string \<Rightarrow> bool" where
  "IPAllowedForMode a mode =
     (if mode = ''direct'' \<or> mode = ''tor'' then IsPublicIP a \<and> \<not> IsYggdrasilIP a
      else if mode = ''yggdrasil'' then IsYggdrasilIP a
      else False)"

subsection \<open>Methods, URLs and hosts\<close>

definition AllowedMethods :: "string list" where
  "AllowedMethods = [''GET'', ''HEAD'', ''POST'']"

definition NormalizeMethod :: "unicode \<Rightarrow> string \<Rightarrow> (policy_error, string) result" where
  "NormalizeMethod U method0 =
     (let m1 = ToUpper U (TrimSpace U method0); m2 = (if m1 = [] then ''GET'' else m1) in
      if m2 \<notin> set AllowedMethods then Inl (PlainError (''unsupported HTTP method: '' @ m2)) else Inr m2)"

definition MaxURLLength :: nat where "MaxURLLength = 2048"

definition ParseAndValidateURL ::
  "unicode \<Rightarrow> (string \<Rightarrow> (string, url) result) \<Rightarrow> string \<Rightarrow> string \<Rightarrow> (policy_error, url) result" where
  "ParseAndValidateURL U P raw mode =
     (if length raw > MaxURLLength then Inl (PlainError (''URL exceeds '' @ Itoa (int MaxURLLength) @ '' byte limit''))
      else case P raw of
        Inl e \<Rightarrow> Inl (PlainError (''invalid URL: '' @ e))
      | Inr parsed \<Rightarrow>
          if url_Scheme parsed \<noteq> ''http'' \<and> url_Scheme parsed \<noteq> ''https'' then Inl (PlainError ''unsupported URL scheme'')
          else if url_Hostname parsed = [] then Inl (PlainError ''invalid URL: host is required'')
          else if url_User parsed \<noteq> None then Inl (PlainError ''URL userinfo is not allowed'')
          else let host = ToLower U (TrimSuffix (url_Hostname parsed) ''.'') in
            if mode = ProxyModeDirect then
              (if HasSuffix host ''.onion'' \<or> HasSuffix host ''.i2p''
               then Inl (ErrPolicyDenied ''direct mode cannot access alternate-network names'') else Inr parsed)
            else if mode = ProxyModeTor then
              (if HasSuffix host ''.i2p''
               then Inl (ErrPolicyDenied ''tor mode cannot access .i2p names'') else Inr parsed)
            else if mode = ProxyModeI2P then
              (if \<not> HasSuffix host ''.i2p''
               then Inl (ErrPolicyDenied ''i2p mode requires .i2p hostnames'') else Inr parsed)
            else if mode = ProxyModeYggdrasil then
              (if HasSuffix host ''.onion'' \<or> HasSuffix host ''.i2p''
               then Inl (ErrPolicyDenied ''yggdrasil mode cannot access .onion or .i2p names'') else Inr parsed)
            else Inl (PlainError (''unsupported proxy mode: '' @ mode)))"

text \<open>\<open>None\<close> is the \<open>nil\<close> error.\<close>

definition ValidateResolvedHost ::
  "unicode \<Rightarrow> string \<Rightarrow> string \<Rightarrow> (string \<Rightarrow> (string, addr list) result) \<Rightarrow> policy_error option" where
  "ValidateResolvedHost U host0 mode resolver =
     (let host = Trim host0 {CHR ''['', CHR '']''} in
      case ParseAddr host of
        Some ip \<Rightarrow>
          if \<not> IPAllowedForMode ip mode
          then Some (ErrPolicyDenied (''destination IP '' @ addr_String ip @ '' is disallowed for '' @ mode))
          else None
      | None \<Rightarrow>
          if EqualFold U host ''localhost'' \<or> EqualFold U host ''localhost.localdomain''
          then Some (ErrPolicyDenied ''localhost is disallowed'')
          else if HasSuffix (ToLower U host) ''.onion'' \<or> HasSuffix (ToLower U host) ''.i2p'' then None
          else (case resolver host of
                  Inl e \<Rightarrow> Some (PlainError e)
                | Inr addrs \<Rightarrow>
                    if addrs = [] then Some (PlainError ''host resolved to no addresses'')
                    else (case find (\<lambda>a. \<not> IPAllowedForMode a mode) addrs of
                            Some a \<Rightarrow> Some (ErrPolicyDenied (''host resolves to disallowed IP '' @ addr_String a))
                          | None \<Rightarrow> None)))"

text \<open>\<open>DefaultResolver\<close>; the parameter is \<open>net.LookupIP\<close>.\<close>

definition DefaultResolver :: "(string \<Rightarrow> (string, byte list list) result) \<Rightarrow> string \<Rightarrow> (string, addr list) result" where
  "DefaultResolver lookupIP host =
     (case lookupIP host of
        Inl e \<Rightarrow> Inl e
      | Inr ips \<Rightarrow> Inr (map Unmap (List.map_filter AddrFromSlice ips)))"

text \<open>The function \<open>RedirectPolicy\<close> returns, applied to the next request's URL and to the
  number of requests already made.\<close>

definition RedirectPolicy ::
  "unicode \<Rightarrow> (string \<Rightarrow> (string, url) result) \<Rightarrow> string \<Rightarrow> int \<Rightarrow> (string \<Rightarrow> (string, addr list) result)
   \<Rightarrow> url \<Rightarrow> int \<Rightarrow> policy_error option" where
  "RedirectPolicy U P mode maxRedirects resolver req via =
     (if via > maxRedirects then Some (PlainError (''stopped after '' @ Itoa maxRedirects @ '' redirects''))
      else case ParseAndValidateURL U P (url_String req) mode of
        Inl e \<Rightarrow> Some e
      | Inr _ \<Rightarrow> ValidateResolvedHost U (url_Hostname req) mode resolver)"

definition SameModeRedirectOK ::
  "unicode \<Rightarrow> (string \<Rightarrow> (string, url) result) \<Rightarrow> url \<Rightarrow> string \<Rightarrow> (string \<Rightarrow> (string, addr list) result)
   \<Rightarrow> policy_error option" where
  "SameModeRedirectOK U P target mode resolver =
     (case ParseAndValidateURL U P (url_String target) mode of
        Inl e \<Rightarrow> Some e
      | Inr _ \<Rightarrow> ValidateResolvedHost U (url_Hostname target) mode resolver)"

section \<open>Address classes as numeric ranges\<close>

text \<open>The 32-bit value of a dotted address and the ranges a public address must avoid.\<close>

definition ipv4_value :: "byte \<Rightarrow> byte \<Rightarrow> byte \<Rightarrow> byte \<Rightarrow> nat" where
  "ipv4_value a b c d = unat a * 16777216 + unat b * 65536 + unat c * 256 + unat d"

definition reserved_ipv4 :: "(nat \<times> nat) list" where
  "reserved_ipv4 =
     [(ipv4_value 0 0 0 0, ipv4_value 0 0 0 0),
      (ipv4_value 10 0 0 0, ipv4_value 10 255 255 255),
      (ipv4_value 127 0 0 0, ipv4_value 127 255 255 255),
      (ipv4_value 169 254 0 0, ipv4_value 169 254 255 255),
      (ipv4_value 172 16 0 0, ipv4_value 172 31 255 255),
      (ipv4_value 192 168 0 0, ipv4_value 192 168 255 255),
      (ipv4_value 224 0 0 0, ipv4_value 239 255 255 255),
      (ipv4_value 255 255 255 255, ipv4_value 255 255 255 255)]"

lemma reserved_ipv4_values:
  "reserved_ipv4 =
     [(0, 0), (167772160, 184549375), (2130706432, 2147483647), (2851995648, 2852061183), (2886729728, 2887778303), (3232235520, 3232301055), (3758096384, 4026531839), (4294967295, 4294967295)]"
  by (simp add: reserved_ipv4_def ipv4_value_def)

lemma v4_not_ygg: "\<not> IsYggdrasilIP (Addr4 b)"
  by (simp add: IsYggdrasilIP_def yggdrasilPrefix_def)

lemmas addr_class_defs = IsPublicIP_def IsGlobalUnicast_def IsPrivate_def IsLoopback_def
  IsLinkLocalUnicast_def IsMulticast_def IsUnspecified_def IPv4Unspecified_def IPv6Unspecified_def
  addr_IsValid_def Let_def

lemma dotted_between:
  fixes A B C D :: nat
  assumes "A < 256" "B < 256" "C < 256" "D < 256" 
  defines "V \<equiv> A * 16777216 + B * 65536 + C * 256 + D"
  shows "V < 1 \<longleftrightarrow> A = 0 \<and> B = 0 \<and> C = 0 \<and> D = 0"
    and "4294967294 < V \<longleftrightarrow> A = 255 \<and> B = 255 \<and> C = 255 \<and> D = 255"
    and "V < n * 16777216 \<longleftrightarrow> A < n"
    and "V < n * 16777216 + k * 65536 \<longleftrightarrow> A * 256 + B < n * 256 + k"
proof -
  show "V < 1 \<longleftrightarrow> A = 0 \<and> B = 0 \<and> C = 0 \<and> D = 0" unfolding V_def by auto
  show "4294967294 < V \<longleftrightarrow> A = 255 \<and> B = 255 \<and> C = 255 \<and> D = 255"
  proof
    assume big: "4294967294 < V"
    then have "255 \<le> A" using assms(1-4) unfolding V_def by linarith
    moreover from this big have "255 \<le> B" using assms(1-4) unfolding V_def by linarith
    moreover from calculation big have "255 \<le> C" using assms(1-4) unfolding V_def by linarith
    moreover from calculation big have "255 \<le> D" using assms(1-4) unfolding V_def by linarith
    ultimately show "A = 255 \<and> B = 255 \<and> C = 255 \<and> D = 255" using assms(1-4) by simp
  qed (simp add: V_def)
  show "V < n * 16777216 \<longleftrightarrow> A < n"
    using assms(1-4) unfolding V_def by (intro iffI; linarith)
  show "V < n * 16777216 + k * 65536 \<longleftrightarrow> A * 256 + B < n * 256 + k"
    using assms(1-4) unfolding V_def by (intro iffI; linarith)
qed

lemma IsPublicIP_ipv4:
  "IsPublicIP (Addr4 [a, b, c, d]) \<longleftrightarrow>
     (\<forall>(lo, hi) \<in> set reserved_ipv4. ipv4_value a b c d < lo \<or> hi < ipv4_value a b c d)"
proof -
  let ?V = "ipv4_value a b c d"
  have bnd: "unat a < 256" "unat b < 256" "unat c < 256" "unat d < 256"
    by (rule byte_bound)+
  note cmp = dotted_between [OF bnd, folded ipv4_value_def]
  have hi: "x < ?V \<longleftrightarrow> \<not> ?V < x + 1" for x by auto
  have fe: "(unat y div 16 = k) = (16 * k \<le> unat y \<and> unat y < 16 * k + 16)" for y :: byte and k by auto
  have L: "IsPublicIP (Addr4 [a, b, c, d]) \<longleftrightarrow> 
     \<not> (unat a = 0 \<and> unat b = 0 \<and> unat c = 0 \<and> unat d = 0) \<and>
     \<not> (unat a = 255 \<and> unat b = 255 \<and> unat c = 255 \<and> unat d = 255) \<and>
     unat a \<noteq> 10 \<and> unat a \<noteq> 127 \<and> \<not> (unat a = 169 \<and> unat b = 254) \<and>
     \<not> (unat a = 172 \<and> unat b div 16 = 1) \<and> \<not> (unat a = 192 \<and> unat b = 168) \<and> unat a div 16 \<noteq> 14"
    by (simp add: addr_class_defs byte_eq_unat byte_and_f0) blast
  have top: "?V < 167772160 \<longleftrightarrow> unat a < 10" "?V < 184549376 \<longleftrightarrow> unat a < 11"
      "?V < 2130706432 \<longleftrightarrow> unat a < 127" "?V < 2147483648 \<longleftrightarrow> unat a < 128"
      "?V < 3758096384 \<longleftrightarrow> unat a < 224" "?V < 4026531840 \<longleftrightarrow> unat a < 240"
    using cmp(3) [of 10] cmp(3) [of 11] cmp(3) [of 127] cmp(3) [of 128] cmp(3) [of 224] cmp(3) [of 240]
    by simp_all
  have two: "?V < 2851995648 \<longleftrightarrow> unat a * 256 + unat b < 43518" "?V < 2852061184 \<longleftrightarrow> unat a * 256 + unat b < 43519"
      "?V < 2886729728 \<longleftrightarrow> unat a * 256 + unat b < 44048" "?V < 2887778304 \<longleftrightarrow> unat a * 256 + unat b < 44064"
      "?V < 3232235520 \<longleftrightarrow> unat a * 256 + unat b < 49320" "?V < 3232301056 \<longleftrightarrow> unat a * 256 + unat b < 49321"
    using cmp(4) [of 169 254] cmp(4) [of 169 255] cmp(4) [of 172 16] cmp(4) [of 172 32] cmp(4) [of 192 168] cmp(4) [of 192 169]
    by simp_all
  have rng: "169 = A \<and> 254 = B \<longleftrightarrow> \<not> (A * 256 + B < 43518 \<or> \<not> A * 256 + B < 43519)"
      "172 = A \<and> B div 16 = 1 \<longleftrightarrow> \<not> (A * 256 + B < 44048 \<or> \<not> A * 256 + B < 44064)"
      "192 = A \<and> 168 = B \<longleftrightarrow> \<not> (A * 256 + B < 49320 \<or> \<not> A * 256 + B < 49321)"
    if "A < 256" "B < 256" for A B :: nat
  proof -
    have div: "(B div 16 = 1) = (16 \<le> B \<and> B < 32)" by auto
    show "169 = A \<and> 254 = B \<longleftrightarrow> \<not> (A * 256 + B < 43518 \<or> \<not> A * 256 + B < 43519)"
      using that by (cases A "169 :: nat" rule: linorder_cases) auto
    show "172 = A \<and> B div 16 = 1 \<longleftrightarrow> \<not> (A * 256 + B < 44048 \<or> \<not> A * 256 + B < 44064)"
      unfolding div using that by (cases A "172 :: nat" rule: linorder_cases) auto
    show "192 = A \<and> 168 = B \<longleftrightarrow> \<not> (A * 256 + B < 49320 \<or> \<not> A * 256 + B < 49321)"
      using that by (cases A "192 :: nat" rule: linorder_cases) auto
  qed
  have ne: "(x < 10 \<or> \<not> x < 11) \<longleftrightarrow> x \<noteq> 10" "(x < 127 \<or> \<not> x < 128) \<longleftrightarrow> x \<noteq> 127"
    "(x < 224 \<or> \<not> x < 240) \<longleftrightarrow> x div 16 \<noteq> 14" for x :: nat
    by presburger+
  have small: "?V \<le> 4294967295" using bnd by (simp add: ipv4_value_def)
  have ranges:
    "(?V < 0 \<or> 0 < ?V) \<longleftrightarrow> \<not> (unat a = 0 \<and> unat b = 0 \<and> unat c = 0 \<and> unat d = 0)"
    "(?V < 167772160 \<or> 184549375 < ?V) \<longleftrightarrow> unat a \<noteq> 10"
    "(?V < 2130706432 \<or> 2147483647 < ?V) \<longleftrightarrow> unat a \<noteq> 127"
    "(?V < 2851995648 \<or> 2852061183 < ?V) \<longleftrightarrow> \<not> (169 = unat a \<and> 254 = unat b)"
    "(?V < 2886729728 \<or> 2887778303 < ?V) \<longleftrightarrow> \<not> (172 = unat a \<and> unat b div 16 = 1)"
    "(?V < 3232235520 \<or> 3232301055 < ?V) \<longleftrightarrow> \<not> (192 = unat a \<and> 168 = unat b)"
    "(?V < 3758096384 \<or> 4026531839 < ?V) \<longleftrightarrow> unat a div 16 \<noteq> 14"
    "(?V < 4294967295 \<or> 4294967295 < ?V) \<longleftrightarrow>
       \<not> (unat a = 255 \<and> unat b = 255 \<and> unat c = 255 \<and> unat d = 255)"
    unfolding rng [OF bnd(1,2)] ne [symmetric] top [symmetric] two [symmetric] cmp(1,2) [symmetric]
    using small by linarith+
  show ?thesis
    unfolding L reserved_ipv4_values list.set ball_simps prod.case ranges
    by (metis (no_types))
qed
section \<open>IPv6\<close>

lemma CIDRMask_ygg: "CIDRMask 7 16 = 0xfe # replicate 15 0"
  by code_simp

lemma map2_and_zeros: "length xs = n \<Longrightarrow> map2 (AND) xs (replicate n (0::byte)) = replicate n 0"
  by (induction xs arbitrary: n) auto

lemma IsYggdrasilIP_Addr6:
  assumes "length b = 16"
  shows "IsYggdrasilIP (Addr6 b z) \<longleftrightarrow> z = [] \<and> unat (b ! 0) div 2 = 1"
proof -
  obtain x xs where b: "b = x # xs" "length xs = 15"
    using assms by (cases b) auto
  have "map2 (AND) (0x02 # replicate 15 0) (0xfe # replicate 15 0) = (0x02::byte) # replicate 15 0"
    using map2_and_zeros [of "replicate 15 0" 15] by simp
  moreover have "map2 (AND) b (0xfe # replicate 15 0) = (x AND 0xfe) # replicate 15 0"
    using b map2_and_zeros [of xs 15] by simp
  moreover have "(2 = x AND 0xfe) \<longleftrightarrow> unat x div 2 = 1"
    by (auto simp: byte_eq_unat byte_and_fe)
  ultimately show ?thesis
    using b by (simp add: IsYggdrasilIP_def yggdrasilPrefix_def addr_IsValid_def masked_eq_def CIDRMask_ygg)
qed

lemma length_v4InV6Prefix [simp]: "length v4InV6Prefix = 12"
  by (simp add: v4InV6Prefix_def)

lemma Unmap_mapped [simp]: "Unmap (Addr6 (v4InV6Prefix @ b) z) = Addr4 b"
  by simp

lemma mapped_not_zero: "v4InV6Prefix @ b \<noteq> replicate 16 0"
proof
  assume "v4InV6Prefix @ b = replicate 16 0"
  then have "(v4InV6Prefix @ b) ! 10 = replicate 16 0 ! 10" by simp
  then show False by (simp add: nth_append) (simp add: v4InV6Prefix_def)
qed

lemma IsPublicIP_mapped: "IsPublicIP (Addr6 (v4InV6Prefix @ b) z) = IsPublicIP (Addr4 b)"
  by (auto simp: addr_class_defs mapped_not_zero simp del: Unmap.simps(1))

lemma IsYggdrasilIP_mapped: "length b = 4 \<Longrightarrow> \<not> IsYggdrasilIP (Addr6 (v4InV6Prefix @ b) z)"
  by (simp add: IsYggdrasilIP_Addr6) (simp add: v4InV6Prefix_def)

text \<open>The first 16-bit group of an IPv6 address.\<close>

definition group0 :: "byte list \<Rightarrow> nat" where
  "group0 b = unat (b ! 0) * 256 + unat (b ! 1)"

lemma IsPublicIP_ipv6:
  assumes "length b = 16" "take 12 b \<noteq> v4InV6Prefix"
  shows "IsPublicIP (Addr6 b []) \<longleftrightarrow> b \<noteq> replicate 16 0 \<and> b \<noteq> replicate 15 0 @ [1]
     \<and> \<not> (0xfe80 \<le> group0 b \<and> group0 b \<le> 0xfebf)
     \<and> \<not> (0xff00 \<le> group0 b) \<and> \<not> (0xfc00 \<le> group0 b \<and> group0 b \<le> 0xfdff)"
proof -
  have bnd: "unat (b ! 0) < 256" "unat (b ! 1) < 256" by (rule byte_bound)+
  have lo: "unat (b ! 0) < n \<or> unat (b ! 0) = n \<or> n < unat (b ! 0)" for n by auto
  have ll: "(b ! 0 = 0xfe \<and> b ! 1 AND 0xc0 = 0x80) \<longleftrightarrow> (0xfe80 \<le> group0 b \<and> group0 b \<le> 0xfebf)"
    using bnd lo [of 254] by (auto simp: byte_eq_unat byte_and_c0 group0_def)
  have mc: "b ! 0 = 0xff \<longleftrightarrow> 0xff00 \<le> group0 b"
    using bnd by (auto simp: byte_eq_unat group0_def)
  have ul: "b ! 0 AND 0xfe = 0xfc \<longleftrightarrow> (0xfc00 \<le> group0 b \<and> group0 b \<le> 0xfdff)"
    using bnd by (auto simp: byte_eq_unat byte_and_fe group0_def)
  have "IsPublicIP (Addr6 b []) \<longleftrightarrow> b \<noteq> replicate 16 0 \<and> b \<noteq> replicate 15 0 @ [1]
     \<and> \<not> (b ! 0 = 0xfe \<and> b ! 1 AND 0xc0 = 0x80) \<and> \<not> b ! 0 = 0xff \<and> \<not> b ! 0 AND 0xfe = 0xfc"
    using assms by (auto simp: addr_class_defs)
  then show ?thesis unfolding ll mc ul .
qed

section \<open>Names\<close>

lemma TrimSuffix_id: "\<not> HasSuffix s p \<Longrightarrow> TrimSuffix s p = s"
  by (simp add: TrimSuffix_def)

lemma HasSuffix_trans: "HasSuffix s p \<Longrightarrow> HasSuffix p q \<Longrightarrow> HasSuffix s q"
  by (auto simp: HasSuffix_iff)

lemma ToLower_keeps_dot:
  assumes "lower_keeps_dot U" "HasSuffix h ''.''"
  shows "HasSuffix (ToLower U h) ''.''"
proof -
  from assms(2) obtain s where h: "h = s @ ''.''" by (auto simp: HasSuffix_iff)
  have dot: "ascii_lower CHR ''.'' = CHR ''.''" by (simp add: ascii_lower_def)
  show ?thesis
  proof (cases "list_all is_ascii h")
    case True
    then have "ToLower U h = map ascii_lower s @ ''.''" by (simp add: ToLower_def h dot)
    then show ?thesis by (auto simp: HasSuffix_iff)
  next
    case False
    with assms(1) show ?thesis by (auto simp: ToLower_def h lower_keeps_dot_def HasSuffix_iff)
  qed
qed

lemma alternate_name_seen:
  assumes "lower_keeps_dot U" "HasSuffix (ToLower U h) suf" "suf = ''.onion'' \<or> suf = ''.i2p''"
  shows "HasSuffix (ToLower U (TrimSuffix h ''.'')) suf"
proof -
  have "\<not> HasSuffix h ''.''"
  proof
    assume "HasSuffix h ''.''"
    then have "HasSuffix (ToLower U h) ''.''" by (rule ToLower_keeps_dot [OF assms(1)])
    with assms(2,3) show False by (auto simp: HasSuffix_def HasPrefix_iff)
  qed
  with assms(2) show ?thesis by (simp add: TrimSuffix_id)
qed

text \<open>What a validated URL satisfies.\<close>

lemma ParseAndValidateURL_accepts:
  assumes "ParseAndValidateURL U P raw mode = Inr u"
  shows "length raw \<le> 2048" "P raw = Inr u" "url_Scheme u = ''http'' \<or> url_Scheme u = ''https''"
    "url_Hostname u \<noteq> []" "url_User u = None" "mode \<in> set AllModes"
    "mode = ProxyModeDirect \<or> mode = ProxyModeYggdrasil \<Longrightarrow>
       \<not> HasSuffix (ToLower U (TrimSuffix (url_Hostname u) ''.'')) ''.onion''"
    "mode \<noteq> ProxyModeI2P \<Longrightarrow> \<not> HasSuffix (ToLower U (TrimSuffix (url_Hostname u) ''.'')) ''.i2p''"
    "mode = ProxyModeI2P \<Longrightarrow> HasSuffix (ToLower U (TrimSuffix (url_Hostname u) ''.'')) ''.i2p''"
  using assms
  by (auto simp: ParseAndValidateURL_def MaxURLLength_def Let_def AllModes_def mode_defs
      split: if_splits sum.splits)

lemma ValidateResolvedHost_None:
  assumes "ValidateResolvedHost U host mode resolver = None"
  defines "h \<equiv> Trim host {CHR ''['', CHR '']''}"
  shows "(\<exists>ip. ParseAddr h = Some ip \<and> IPAllowedForMode ip mode)
     \<or> HasSuffix (ToLower U h) ''.onion'' \<or> HasSuffix (ToLower U h) ''.i2p''
     \<or> (\<exists>addrs. resolver h = Inr addrs \<and> addrs \<noteq> [] \<and> (\<forall>a \<in> set addrs. IPAllowedForMode a mode))"
  using assms
  by (auto simp: ValidateResolvedHost_def Let_def find_None_iff
      split: option.splits if_splits sum.splits)

text \<open>
  What an accepted host must be: a literal address the mode allows, a name that resolved to
  addresses all of which it allows, or a name of the network the mode leads to.
\<close>

definition host_checked :: "unicode \<Rightarrow> (string \<Rightarrow> (string, addr list) result) \<Rightarrow> string \<Rightarrow> string \<Rightarrow> bool" where
  "host_checked U resolver mode h \<longleftrightarrow>
     (\<exists>ip. ParseAddr h = Some ip \<and> IPAllowedForMode ip mode)
     \<or> (\<exists>addrs. resolver h = Inr addrs \<and> addrs \<noteq> [] \<and> (\<forall>a \<in> set addrs. IPAllowedForMode a mode))
     \<or> mode = ProxyModeTor \<and> HasSuffix (ToLower U h) ''.onion''
     \<or> mode = ProxyModeI2P \<and> HasSuffix (ToLower U h) ''.i2p''"

text \<open>A name under \<open>.onion\<close> or \<open>.i2p\<close>.\<close>

definition alternate_name :: "unicode \<Rightarrow> string \<Rightarrow> bool" where
  "alternate_name U h \<longleftrightarrow> HasSuffix (ToLower U h) ''.onion'' \<or> HasSuffix (ToLower U h) ''.i2p''"

text \<open>
  \<open>ParseAndValidateURL\<close> looks at the host name as it is, \<open>ValidateResolvedHost\<close> at the name without
  brackets at its ends. Unless that makes a difference, the exemptions of the latter only
  reach names the former left to the mode.
\<close>

lemma host_checked_valid:
  assumes "lower_keeps_dot U" "ParseAndValidateURL U P raw mode = Inr v" "url_Hostname v = host"
    "ValidateResolvedHost U host mode resolver = None"
  defines "h \<equiv> Trim host {CHR ''['', CHR '']''}"
  shows "host_checked U resolver mode h \<or> h \<noteq> host \<and> alternate_name U h"
proof (cases "h = host")
  case True
  note ok = ParseAndValidateURL_accepts [OF assms(2)]
  have onion: "mode = ProxyModeTor" if "HasSuffix (ToLower U h) ''.onion''"
  proof -
    have seen: "HasSuffix (ToLower U (TrimSuffix h ''.'')) ''.onion''" using alternate_name_seen [OF assms(1) that] by simp
    have "\<not> (HasSuffix s ''.onion'' \<and> HasSuffix s ''.i2p'')" for s by (auto simp: HasSuffix_def HasPrefix_iff)
    then have "mode \<noteq> ProxyModeI2P" "mode \<noteq> ProxyModeDirect" "mode \<noteq> ProxyModeYggdrasil"
      using seen ok(7,9) assms(3) True by auto
    then show ?thesis using ok(6) by (auto simp: AllModes_def)
  qed
  have i2p: "mode = ProxyModeI2P" if "HasSuffix (ToLower U h) ''.i2p''"
    using alternate_name_seen [OF assms(1) that] ok(8) assms(3) True by auto
  show ?thesis
    using ValidateResolvedHost_None [OF assms(4)] onion i2p unfolding host_checked_def h_def [symmetric] by auto
next
  case False
  then show ?thesis
    using ValidateResolvedHost_None [OF assms(4)] unfolding host_checked_def alternate_name_def h_def [symmetric] by auto
qed

section \<open>Properties\<close>

text \<open>
  (C33) In the modes \<open>direct\<close> and \<open>tor\<close> an IPv4 destination is allowed exactly when its 32-bit
  value lies outside the unspecified, private, loopback, link-local, multicast and broadcast
  ranges, and writing the same address as an IPv4-mapped IPv6 literal (with any zone) does not
  change the decision.
\<close>

theorem ipv4_egress_exact:
  assumes "mode = ProxyModeDirect \<or> mode = ProxyModeTor"
  shows "(IPAllowedForMode (Addr4 [a, b, c, d]) mode \<longleftrightarrow>
       (\<forall>(lo, hi) \<in> set reserved_ipv4. ipv4_value a b c d < lo \<or> hi < ipv4_value a b c d))
    \<and> IPAllowedForMode (Addr6 (v4InV6Prefix @ [a, b, c, d]) z) mode
       = IPAllowedForMode (Addr4 [a, b, c, d]) mode"
  using assms
  by (auto simp: IPAllowedForMode_def mode_defs v4_not_ygg IsPublicIP_ipv4 IsPublicIP_mapped
      IsYggdrasilIP_mapped)

theorem ipv4_egress_exact_witness:
  "IPAllowedForMode (Addr4 [93, 184, 216, 34]) ''direct''
   \<and> \<not> IPAllowedForMode (Addr6 (v4InV6Prefix @ [172, 16, 0, 1]) ''eth0'') ''direct''"
  using ipv4_egress_exact [of ProxyModeDirect 93 184 216 34 "[]"]
    ipv4_egress_exact [of ProxyModeDirect 172 16 0 1 "''eth0''"]
  by (simp add: mode_defs reserved_ipv4_values ipv4_value_def)

text \<open>
  (C34) In the modes \<open>direct\<close> and \<open>tor\<close> a zone-free IPv6 destination that is not IPv4-mapped is
  allowed exactly when it is neither \<open>::\<close> nor \<open>::1\<close> and lies outside \<open>fe80::/10\<close>, \<open>ff00::/8\<close>,
  \<open>fc00::/7\<close> and the Yggdrasil range \<open>200::/7\<close>; in mode \<open>yggdrasil\<close> exactly when it lies in
  \<open>200::/7\<close>. No such address is reachable from both sides.
\<close>

theorem ipv6_egress_exact:
  assumes "length b = 16" "take 12 b \<noteq> v4InV6Prefix" "mode = ProxyModeDirect \<or> mode = ProxyModeTor"
  shows "(IPAllowedForMode (Addr6 b []) mode \<longleftrightarrow>
       b \<noteq> replicate 16 0 \<and> b \<noteq> replicate 15 0 @ [1]
       \<and> \<not> (0xfe80 \<le> group0 b \<and> group0 b \<le> 0xfebf) \<and> \<not> 0xff00 \<le> group0 b
       \<and> \<not> (0xfc00 \<le> group0 b \<and> group0 b \<le> 0xfdff) \<and> \<not> (0x0200 \<le> group0 b \<and> group0 b \<le> 0x03ff))
    \<and> (IPAllowedForMode (Addr6 b []) ProxyModeYggdrasil \<longleftrightarrow> 0x0200 \<le> group0 b \<and> group0 b \<le> 0x03ff)"
proof -
  have bnd: "unat (b ! 0) < 256" "unat (b ! 1) < 256" by (rule byte_bound)+
  have ygg: "IsYggdrasilIP (Addr6 b []) \<longleftrightarrow> 0x0200 \<le> group0 b \<and> group0 b \<le> 0x03ff"
    using bnd IsYggdrasilIP_Addr6 [OF assms(1), of "[]"] by (auto simp: group0_def)
  then have 1: "IPAllowedForMode (Addr6 b []) ProxyModeYggdrasil \<longleftrightarrow> 0x0200 \<le> group0 b \<and> group0 b \<le> 0x03ff"
    by (simp add: IPAllowedForMode_def mode_defs)
  have "IPAllowedForMode (Addr6 b []) mode \<longleftrightarrow> IsPublicIP (Addr6 b []) \<and> \<not> IsYggdrasilIP (Addr6 b [])"
    using assms(3) by (auto simp: IPAllowedForMode_def mode_defs)
  with 1 show ?thesis unfolding ygg IsPublicIP_ipv6 [OF assms(1,2)] by blast
qed

theorem ipv6_egress_exact_witness:
  "IPAllowedForMode (Addr6 ([0x02, 0x01] @ replicate 14 0) []) ''yggdrasil''
   \<and> \<not> IPAllowedForMode (Addr6 ([0x02, 0x01] @ replicate 14 0) []) ''direct''"
  using ipv6_egress_exact [of "[0x02, 0x01] @ replicate 14 0" ProxyModeDirect]
  by (simp add: mode_defs group0_def v4InV6Prefix_def)

text \<open>
  (C28) The address check in the modes \<open>direct\<close> and \<open>yggdrasil\<close>. When the URL and its host
  are both accepted, then for the host name without brackets at its ends one of three holds: it is
  a literal address the mode allows; it resolved to a non-empty list of addresses all of which the
  mode allows; or it is a name under \<open>.onion\<close> or \<open>.i2p\<close> and the host name did begin or end with
  a bracket. So for host names without such a bracket the exemption of \<open>.onion\<close> and
  \<open>.i2p\<close> in \<open>ValidateResolvedHost\<close> is unreachable, whatever the trailing dot and the letter case of the name.
\<close>

theorem clearnet_target_checked:
  fixes u :: url
  defines "h \<equiv> Trim (url_Hostname u) {CHR ''['', CHR '']''}"
  assumes "lower_keeps_dot U"
    and "ParseAndValidateURL U P raw mode = Inr u"
    and "mode = ProxyModeDirect \<or> mode = ProxyModeYggdrasil"
    and "ValidateResolvedHost U (url_Hostname u) mode resolver = None"
  shows "(\<exists>ip. ParseAddr h = Some ip \<and> IPAllowedForMode ip mode)
     \<or> (\<exists>addrs. resolver h = Inr addrs \<and> addrs \<noteq> [] \<and> (\<forall>a \<in> set addrs. IPAllowedForMode a mode))
     \<or> h \<noteq> url_Hostname u \<and> (HasSuffix (ToLower U h) ''.onion'' \<or> HasSuffix (ToLower U h) ''.i2p'')"
  using host_checked_valid [OF assms(2,3) refl assms(5)] assms(4)
  unfolding h_def [symmetric] by (auto simp: host_checked_def alternate_name_def mode_defs)

theorem clearnet_target_checked_witness:
  "(\<exists>ip. ParseAddr ''example.com'' = Some ip \<and> IPAllowedForMode ip ProxyModeDirect)
   \<or> (\<exists>addrs. (\<lambda>_. Inr [Addr4 [8, 8, 8, 8]] :: (string, addr list) result) ''example.com'' = Inr addrs
        \<and> addrs \<noteq> [] \<and> (\<forall>a \<in> set addrs. IPAllowedForMode a ProxyModeDirect))"
proof -
  let ?u = "\<lparr>url_Scheme = ''https'', url_Hostname = ''example.com'', url_User = None,
      url_Host = ''example.com'', url_String = ''https://example.com''\<rparr>"
  have 1: "ParseAndValidateURL plain_unicode (\<lambda>_. Inr ?u) ''https://example.com'' ProxyModeDirect = Inr ?u"
    by code_simp
  have 2: "Trim ''example.com'' {CHR ''['', CHR '']''} = ''example.com''" by code_simp
  have 3: "IPAllowedForMode (Addr4 [8, 8, 8, 8]) ProxyModeDirect"
    by (simp add: IPAllowedForMode_def mode_defs v4_not_ygg IsPublicIP_ipv4 reserved_ipv4_values ipv4_value_def)
  have 4: "ParseAddr ''example.com'' = None" by code_simp
  have 5: "\<not> (EqualFold plain_unicode ''example.com'' ''localhost''
      \<or> EqualFold plain_unicode ''example.com'' ''localhost.localdomain'')" by code_simp
  have 6: "\<not> (HasSuffix (ToLower plain_unicode ''example.com'') ''.onion''
      \<or> HasSuffix (ToLower plain_unicode ''example.com'') ''.i2p'')" by code_simp
  have "ValidateResolvedHost plain_unicode ''example.com'' ProxyModeDirect (\<lambda>_. Inr [Addr4 [8, 8, 8, 8]]) = None"
    using 2 3 4 5 6 by (simp add: ValidateResolvedHost_def Let_def del: EqualFold.simps)
  with clearnet_target_checked [OF plain_unicode_keeps_dot 1, of "\<lambda>_. Inr [Addr4 [8, 8, 8, 8]]"] 2
  show ?thesis by simp
qed

text \<open>
  The third case exists: \<open>net/url\<close> strips brackets only as a pair around the host, so the host
  \<open>a.onion]\<close> keeps its bracket, is no \<open>.onion\<close> name to \<open>ParseAndValidateURL\<close>, and is one to
  \<open>ValidateResolvedHost\<close>. In mode \<open>direct\<close> it passes both checks without a lookup. The guarded dialer
  refuses the address (\<open>Transport\<close>).
\<close>

definition bracket_url :: url where
  "bracket_url = \<lparr>url_Scheme = ''http'', url_Hostname = ''a.onion]'', url_User = None, url_Host = ''a.onion]'',
     url_String = ''http://a.onion]/''\<rparr>"

lemma bracketed_onion_unchecked:
  "ParseAndValidateURL plain_unicode (\<lambda>_. Inr bracket_url) ''http://a.onion]/'' ProxyModeDirect = Inr bracket_url"
  "ValidateResolvedHost plain_unicode (url_Hostname bracket_url) ProxyModeDirect (\<lambda>_. Inl ''not asked'') = None"
  by code_simp+

text \<open>
  The request header filter keeps exactly the allowed names: under a key it holds the value
  the request had when the trimmed, lower-cased key is on the allow list, and nothing otherwise.
\<close>

lemma sanitize_request_headers_exact:
  assumes "gm_wf input"
  shows "gm_get (SanitizeRequestHeaders U input) k =
     (if ToLower U (TrimSpace U k) \<in> set requestHeaderAllowlist then gm_get input k else None)"
proof -
  let ?f = "\<lambda>out (key, value).
       if ToLower U (TrimSpace U key) \<in> set requestHeaderAllowlist then gm_put key value out else out"
  have "gm_get (foldl ?f out xs) k =
     (if ToLower U (TrimSpace U k) \<in> set requestHeaderAllowlist \<and> k \<in> gm_keys xs then gm_get xs k else gm_get out k)"
    if "gm_wf xs" for out xs
    using that
  proof (induction xs arbitrary: out)
    case Nil
    then show ?case by simp
  next
    case (Cons e xs)
    obtain key v where e: "e = (key, v)" by (cases e)
    from Cons.prems have "gm_wf xs" "key \<notin> gm_keys xs" by (auto simp: gm_wf_def e)
    with Cons.IH show ?case by (auto simp: e gomap_simps)
  qed
  from this [OF assms] show ?thesis
    using gm_get_None_iff [of input k] by (auto simp: SanitizeRequestHeaders_def)
qed

text \<open>
  Method normalisation yields one of the three allowed methods and is idempotent; an empty
  or blank method means \<open>GET\<close>.
\<close>

lemma normalize_method_canonical:
  "NormalizeMethod U m = Inr r \<Longrightarrow> r \<in> {''GET'', ''HEAD'', ''POST''} \<and> NormalizeMethod U r = Inr r"
proof -
  assume "NormalizeMethod U m = Inr r"
  then have r: "r = ''GET'' \<or> r = ''HEAD'' \<or> r = ''POST''"
    by (auto simp: NormalizeMethod_def AllowedMethods_def Let_def split: if_splits)
  have "ToUpper U (TrimSpace U r) = r"
    using r by (auto simp: ToUpper_def TrimSpace_def is_ascii_def ascii_space_def ascii_upper_def)
  then show ?thesis using r by (auto simp: NormalizeMethod_def AllowedMethods_def)
qed

section \<open>A gap in the address check\<close>

text \<open>
  An IPv6 zone hides the unspecified address: \<open>netip\<close> compares addresses together with their
  zone and \<open>Prefix.Contains\<close> refuses zoned addresses, so \<open>::%eth0\<close> counts as public and a zoned
  Yggdrasil address counts as clearnet. Both pass the host check of mode \<open>direct\<close>.
\<close>

lemma zoned_unspecified_passes:
  "ValidateResolvedHost U ''::%eth0'' ProxyModeDirect resolver = None"
proof -
  have "Trim ''::%eth0'' {CHR ''['', CHR '']''} = ''::%eth0''" by code_simp
  moreover have "ParseAddr ''::%eth0'' = Some (Addr6 (replicate 16 0) ''eth0'')" by code_simp
  moreover have "take 12 (replicate 16 0) \<noteq> v4InV6Prefix" "(replicate 16 0 :: byte list) \<noteq> replicate 15 0 @ [1]"
    by code_simp+
  then have "IPAllowedForMode (Addr6 (replicate 16 0) ''eth0'') ProxyModeDirect"
    by (simp add: IPAllowedForMode_def mode_defs addr_class_defs IsYggdrasilIP_Addr6)
  ultimately show ?thesis by (simp add: ValidateResolvedHost_def)
qed

lemma zoned_yggdrasil_passes:
  "ValidateResolvedHost U ''200::1%eth0'' ProxyModeDirect resolver = None"
proof -
  have "Trim ''200::1%eth0'' {CHR ''['', CHR '']''} = ''200::1%eth0''" by code_simp
  moreover have "ParseAddr ''200::1%eth0'' = Some (Addr6 (0x02 # replicate 14 0 @ [1]) ''eth0'')" by code_simp
  moreover have "take 12 (0x02 # replicate 14 0 @ [1]) \<noteq> v4InV6Prefix"
    "0x02 # replicate 14 0 @ [1] \<noteq> (replicate 15 0 @ [1] :: byte list)"
    by code_simp+
  then have "IPAllowedForMode (Addr6 (0x02 # replicate 14 0 @ [1]) ''eth0'') ProxyModeDirect"
    by (simp add: IPAllowedForMode_def mode_defs addr_class_defs IsYggdrasilIP_Addr6)
  ultimately show ?thesis by (simp add: ValidateResolvedHost_def)
qed

end
