(* ===== verification/Proxy_Config.thy ===== *)
theory Proxy_Config
  imports Policy
begin

text \<open>
  The configuration of the egress sidecar (\<open>src/internal/config/config.go\<close>). The environment is
  a function from names to values, the empty string when unset; \<open>url.Parse\<close> is the parameter
  \<open>P\<close>. Durations are products that wrap at 64 bits.
\<close>

record Config =
  pc_APIListenAddr :: string
  pc_MetricsListenAddr :: string
  pc_AuthToken :: string
  pc_TorSOCKSAddr :: string
  pc_I2PHTTPProxy :: string
  pc_Yggdrasil :: bool
  pc_MaxRequestBodyBytes :: int
  pc_MaxResponseBodyBytes :: int
  pc_DefaultTimeout :: duration
  pc_MaxTimeout :: duration
  pc_MaxRedirects :: int
  pc_LogLevel :: string

definition getenv :: "(string \<Rightarrow> string) \<Rightarrow> string \<Rightarrow> string \<Rightarrow> string" where
  "getenv env key fallback = (if env key \<noteq> [] then env key else fallback)"

definition getenvInt :: "(string \<Rightarrow> string) \<Rightarrow> string \<Rightarrow> int \<Rightarrow> int" where
  "getenvInt env key fallback = (case ParseInt (env key) of None \<Rightarrow> fallback | Some v \<Rightarrow> v)"

definition getenvInt64 :: "(string \<Rightarrow> string) \<Rightarrow> string \<Rightarrow> int \<Rightarrow> int" where
  "getenvInt64 env key fallback = (case ParseInt (env key) of None \<Rightarrow> fallback | Some v \<Rightarrow> v)"

definition getenvBool :: "(string \<Rightarrow> string) \<Rightarrow> string \<Rightarrow> bool \<Rightarrow> bool" where
  "getenvBool env key fallback =
     (if env key = [] then fallback else case ParseBool (env key) of None \<Rightarrow> fallback | Some b \<Rightarrow> b)"

definition env_config :: "(string \<Rightarrow> string) \<Rightarrow> Config" where
  "env_config env =
     \<lparr>pc_APIListenAddr = getenv env ''HNP_API_LISTEN_ADDR'' ''127.0.0.1:8450'',
      pc_MetricsListenAddr = getenv env ''HNP_METRICS_LISTEN_ADDR'' ''127.0.0.1:8451'',
      pc_AuthToken = env ''HNP_AUTH_TOKEN'',
      pc_TorSOCKSAddr = getenv env ''HNP_TOR_SOCKS_ADDR'' ''127.0.0.1:9050'',
      pc_I2PHTTPProxy = getenv env ''HNP_I2P_HTTP_PROXY'' ''http://127.0.0.1:4444'',
      pc_Yggdrasil = getenvBool env ''HNP_YGGDRASIL_ENABLED'' True,
      pc_MaxRequestBodyBytes = getenvInt64 env ''HNP_MAX_REQUEST_BODY_BYTES'' 65536,
      pc_MaxResponseBodyBytes = getenvInt64 env ''HNP_MAX_RESPONSE_BODY_BYTES'' 65536,
      pc_DefaultTimeout = seconds_dur (getenvInt env ''HNP_DEFAULT_TIMEOUT_SECONDS'' 15),
      pc_MaxTimeout = seconds_dur (getenvInt env ''HNP_MAX_TIMEOUT_SECONDS'' 60),
      pc_MaxRedirects = getenvInt env ''HNP_MAX_REDIRECTS'' 3,
      pc_LogLevel = getenv env ''HNP_LOG_LEVEL'' ''info''\<rparr>"

definition Load :: "(string \<Rightarrow> (string, url) result) \<Rightarrow> (string \<Rightarrow> string) \<Rightarrow> (string, Config) result" where
  "Load P env =
     (let cfg = env_config env in
      if pc_AuthToken cfg = [] then Inl ''HNP_AUTH_TOKEN is required''
      else case P (pc_I2PHTTPProxy cfg) of
        Inl e \<Rightarrow> Inl (''invalid HNP_I2P_HTTP_PROXY: '' @ e)
      | Inr _ \<Rightarrow>
          if pc_MaxRequestBodyBytes cfg \<le> 0 \<or> pc_MaxResponseBodyBytes cfg \<le> 0 then Inl ''body size limits must be positive''
          else if pc_MaxTimeout cfg \<le> 0 \<or> pc_DefaultTimeout cfg \<le> 0 \<or> pc_DefaultTimeout cfg > pc_MaxTimeout cfg
          then Inl ''invalid timeout settings''
          else Inr cfg)"

datatype Level = LevelDebug | LevelInfo | LevelWarn | LevelError

definition ParseLogLevel :: "unicode \<Rightarrow> string \<Rightarrow> Level" where
  "ParseLogLevel U level =
     (let l = ToLower U (TrimSpace U level) in
      if l = ''debug'' then LevelDebug
      else if l = ''warn'' \<or> l = ''warning'' then LevelWarn
      else if l = ''error'' then LevelError
      else LevelInfo)"

text \<open>What \<open>Load\<close> guarantees of an accepted configuration; its numbers are 64-bit integers.\<close>

definition config_ok :: "Config \<Rightarrow> bool" where
  "config_ok cfg \<longleftrightarrow> pc_AuthToken cfg \<noteq> [] \<and> 0 < pc_MaxRequestBodyBytes cfg \<and> 0 < pc_MaxResponseBodyBytes cfg
     \<and> 0 < pc_DefaultTimeout cfg \<and> pc_DefaultTimeout cfg \<le> pc_MaxTimeout cfg \<and> in_int64 (pc_MaxTimeout cfg)"

lemma Load_ok: "Load P env = Inr cfg \<Longrightarrow> config_ok cfg"
  by (auto simp: Load_def Let_def config_ok_def env_config_def seconds_dur_def split: if_splits sum.splits)

end
