(* ===== verification/Transport.thy ===== *)
theory Transport
  imports Proxy_Config Http
begin

text \<open>
  The egress transport (\<open>src/internal/transport\<close>): the guarded dialers, the client per proxy
  mode, \<open>Do\<close> with its checks, redirects and response limits, and the availability report.
  Network operations are parameters: name lookups, dialing, one exchange of a request over a
  transport. What \<open>http.Client\<close> does with redirects is written out, so that the sequence of
  requests sent is part of the result.
\<close>

section \<open>Dialers\<close>

type_synonym lookup = "string \<Rightarrow> (string, addr list) result"

text \<open>The loop over the addresses found; \<open>selected\<close> is the first usable one so far.\<close>

fun select_addr :: "string \<Rightarrow> addr list \<Rightarrow> addr \<Rightarrow> (policy_error, addr) result" where
  "select_addr mode [] selected =
     (if \<not> addr_IsValid selected then Inl (PlainError ''host resolved to no usable addresses'') else Inr selected)"
| "select_addr mode (a # as) selected =
     (let a = Unmap a in
      if \<not> IPAllowedForMode a mode then Inl (ErrPolicyDenied (''host resolves to disallowed IP '' @ addr_String a))
      else select_addr mode as (if \<not> addr_IsValid selected then a else selected))"

definition resolveDialAddress ::
  "unicode \<Rightarrow> lookup \<Rightarrow> string \<Rightarrow> string \<Rightarrow> string \<Rightarrow> (policy_error, string) result" where
  "resolveDialAddress U lookup host0 port mode =
     (let host = Trim host0 {CHR ''['', CHR '']''} in
      case ParseAddr host of
        Some ip \<Rightarrow>
          if \<not> IPAllowedForMode ip mode
          then Inl (ErrPolicyDenied (''destination IP '' @ addr_String ip @ '' is disallowed for '' @ mode))
          else Inr (JoinHostPort (addr_String ip) port)
      | None \<Rightarrow>
          if EqualFold U host ''localhost'' \<or> EqualFold U host ''localhost.localdomain''
          then Inl (ErrPolicyDenied ''localhost is disallowed'')
          else (case lookup host of
                  Inl e \<Rightarrow> Inl (PlainError e)
                | Inr addrs \<Rightarrow>
                    if addrs = [] then Inl (PlainError ''host resolved to no addresses'')
                    else (case select_addr mode addrs AddrZero of
                            Inl e \<Rightarrow> Inl e
                          | Inr selected \<Rightarrow> Inr (JoinHostPort (addr_String selected) port))))"

text \<open>\<open>dial\<close> is the underlying dialer, of the system or through SOCKS.\<close>

definition guarded_DialContext ::
  "unicode \<Rightarrow> lookup \<Rightarrow> (string \<Rightarrow> string \<Rightarrow> (string, 'conn) result) \<Rightarrow> string \<Rightarrow> string \<Rightarrow> string \<Rightarrow> (string, 'conn) result" where
  "guarded_DialContext U lookup dial mode network address =
     (case SplitHostPort address of
        Inl e \<Rightarrow> Inl e
      | Inr (host, port) \<Rightarrow>
          (case resolveDialAddress U lookup host port mode of
             Inl e \<Rightarrow> Inl (policy_error_text e)
           | Inr dialAddr \<Rightarrow> dial network dialAddr))"

definition socks_DialContext ::
  "unicode \<Rightarrow> lookup \<Rightarrow> (string \<Rightarrow> string \<Rightarrow> (string, 'conn) result) \<Rightarrow> string \<Rightarrow> string \<Rightarrow> string \<Rightarrow> (string, 'conn) result" where
  "socks_DialContext U lookup dial mode network address =
     (case SplitHostPort address of
        Inl e \<Rightarrow> Inl e
      | Inr (host, port) \<Rightarrow>
          if mode = ProxyModeTor \<and> HasSuffix (ToLower U (TrimSuffix host ''.'')) ''.onion'' then dial network address
          else (case resolveDialAddress U lookup host port mode of
                  Inl e \<Rightarrow> Inl (policy_error_text e)
                | Inr dialAddr \<Rightarrow> dial network dialAddr))"

section \<open>Clients\<close>

datatype transport = Guarded string | SOCKS string string | HTTPProxy url

record http_Client =
  ht_Transport :: transport
  ht_Timeout :: duration
  ht_Mode :: string
  ht_MaxRedirects :: int

record Client =
  cl_cfg :: Config
  cl_direct :: http_Client
  cl_tor :: http_Client
  cl_i2p :: http_Client
  cl_ygg :: http_Client

text \<open>\<open>socks\<close>: the outcome of \<open>xproxy.SOCKS5\<close>, and whether the dialer takes a context.\<close>

definition torRoundTripper :: "(string \<Rightarrow> (string, bool) result) \<Rightarrow> string \<Rightarrow> (string, transport) result" where
  "torRoundTripper socks addr =
     (case socks addr of
        Inl e \<Rightarrow> Inl e
      | Inr ctx \<Rightarrow>
          if \<not> ctx then Inl ''SOCKS5 dialer does not implement ContextDialer'' else Inr (SOCKS ProxyModeTor addr))"

definition NewClient ::
  "(string \<Rightarrow> (string, url) result) \<Rightarrow> (string \<Rightarrow> (string, bool) result) \<Rightarrow> Config \<Rightarrow> (string, Client) result" where
  "NewClient P socks cfg =
     (let mk = (\<lambda>t mode. \<lparr>ht_Transport = t, ht_Timeout = pc_MaxTimeout cfg, ht_Mode = mode, ht_MaxRedirects = pc_MaxRedirects cfg\<rparr>) in
      case torRoundTripper socks (pc_TorSOCKSAddr cfg) of
        Inl e \<Rightarrow> Inl e
      | Inr tor \<Rightarrow>
          (case P (pc_I2PHTTPProxy cfg) of
             Inl e \<Rightarrow> Inl e
           | Inr i2pURL \<Rightarrow>
               Inr \<lparr>cl_cfg = cfg, cl_direct = mk (Guarded ProxyModeDirect) ProxyModeDirect, cl_tor = mk tor ProxyModeTor,
                    cl_i2p = mk (HTTPProxy i2pURL) ProxyModeI2P, cl_ygg = mk (Guarded ProxyModeYggdrasil) ProxyModeYggdrasil\<rparr>))"

definition clientForMode :: "Client \<Rightarrow> string \<Rightarrow> (string, http_Client) result" where
  "clientForMode c mode =
     (if mode = ProxyModeDirect then Inr (cl_direct c)
      else if mode = ProxyModeTor then Inr (cl_tor c)
      else if mode = ProxyModeI2P then Inr (cl_i2p c)
      else if mode = ProxyModeYggdrasil then Inr (cl_ygg c)
      else Inl (''unsupported proxy mode: '' @ mode))"

section \<open>Requests and responses\<close>

record out_request =
  or_Method :: string
  or_URL :: url
  or_Header :: "(string, string) gomap"
  or_Body :: string
  or_Timeout :: duration

text \<open>\<open>up_Redirect\<close> is the target when the answer is a redirect.\<close>

record upstream =
  up_StatusCode :: int
  up_Header :: "(string, string list) gomap"
  up_Body :: stream
  up_Redirect :: "url option"

text \<open>
  What the surroundings supply to one call of \<open>Do\<close>: \<open>url.Parse\<close>, \<open>net.LookupIP\<close>, one exchange
  over a transport (the number of requests made before is an argument, so that equal requests
  may be answered differently), the text of a \<open>*url.Error\<close>, and the time that has passed.
\<close>

record egress_env =
  en_U :: unicode
  en_Parse :: "string \<Rightarrow> (string, url) result"
  en_LookupIP :: "string \<Rightarrow> (string, byte list list) result"
  en_exchange :: "transport \<Rightarrow> out_request \<Rightarrow> int \<Rightarrow> (string, upstream) result"
  en_urlError :: "out_request \<Rightarrow> string \<Rightarrow> string"
  en_elapsed :: duration

definition en_resolver :: "egress_env \<Rightarrow> lookup" where
  "en_resolver E = DefaultResolver (en_LookupIP E)"

text \<open>
  The request \<open>http.Client\<close> makes for a redirect. It copies the headers of the initial request,
  \<open>hdr\<close> (no allowed header is one it withholds from another domain), and sets \<open>Referer\<close> to the URL
  of the request before, without its user, unless that would go from https to http.
\<close>

fun remove_first :: "string \<Rightarrow> string \<Rightarrow> string" where
  "remove_first p [] = []"
| "remove_first p (c # s) = (if HasPrefix (c # s) p then drop (length p) (c # s) else c # remove_first p s)"

definition refererForURL :: "url \<Rightarrow> url \<Rightarrow> string \<Rightarrow> string" where
  "refererForURL lastReq newReq explicitRef =
     (if url_Scheme lastReq = ''https'' \<and> url_Scheme newReq = ''http'' then []
      else if explicitRef \<noteq> [] then explicitRef
      else (case url_User lastReq of
              None \<Rightarrow> url_String lastReq
            | Some user \<Rightarrow> remove_first (user @ ''@'') (url_String lastReq)))"

definition redirect_header :: "(string, string) gomap \<Rightarrow> url \<Rightarrow> url \<Rightarrow> (string, string) gomap" where
  "redirect_header hdr lastReq u =
     (let ref = refererForURL lastReq u (case gm_get hdr ''Referer'' of None \<Rightarrow> [] | Some v \<Rightarrow> v)
      in if ref \<noteq> [] then gm_put ''Referer'' ref hdr else hdr)"

definition redirect_request :: "(string, string) gomap \<Rightarrow> out_request \<Rightarrow> int \<Rightarrow> url \<Rightarrow> out_request" where
  "redirect_request hdr req status u =
     (let req1 = req\<lparr>or_URL := u, or_Header := redirect_header hdr (or_URL req) u\<rparr> in
      if status \<in> {307, 308} then req1
      else req1\<lparr>or_Body := [], or_Method := (if or_Method req = ''HEAD'' then ''HEAD'' else ''GET'')\<rparr>)"

text \<open>
  \<open>client.Do\<close>: the answer and the requests sent; \<open>via\<close> requests have been made before, the
  first with headers \<open>hdr\<close>.
\<close>

function client_Do ::
  "egress_env \<Rightarrow> http_Client \<Rightarrow> (string, string) gomap \<Rightarrow> int \<Rightarrow> out_request \<Rightarrow> (string, upstream) result \<times> out_request list" where
  "client_Do E hc hdr via req =
     (case en_exchange E (ht_Transport hc) req via of
        Inl e \<Rightarrow> (Inl (en_urlError E req e), [req])
      | Inr resp \<Rightarrow>
          (case up_Redirect resp of
             None \<Rightarrow> (Inr resp, [req])
           | Some u \<Rightarrow>
               (case RedirectPolicy (en_U E) (en_Parse E) (ht_Mode hc) (ht_MaxRedirects hc) (en_resolver E) u (via + 1) of
                  Some e \<Rightarrow> (Inl (en_urlError E req (policy_error_text e)), [req])
                | None \<Rightarrow>
                    (case client_Do E hc hdr (via + 1) (redirect_request hdr req (up_StatusCode resp) u) of
                       (r, rs) \<Rightarrow> (r, req # rs)))))"
  by pat_completeness auto
termination
proof (relation "measure (\<lambda>(E, hc, hdr, via, req). nat (ht_MaxRedirects hc + 1 - via))", simp)
  fix E :: egress_env and hc :: http_Client and hdr and via :: int and req resp u
  assume "RedirectPolicy (en_U E) (en_Parse E) (ht_Mode hc) (ht_MaxRedirects hc) (en_resolver E) u (via + 1) = None"
  then have "via + 1 \<le> ht_MaxRedirects hc" by (auto simp: RedirectPolicy_def split: if_splits)
  then show "((E, hc, hdr, via + 1, redirect_request hdr req (up_StatusCode resp) u), (E, hc, hdr, via, req))
      \<in> measure (\<lambda>(E, hc, hdr, via, req). nat (ht_MaxRedirects hc + 1 - via))" by simp
qed

declare client_Do.simps [simp del]

definition errorResponse :: "int \<Rightarrow> string \<Rightarrow> duration \<Rightarrow> string \<Rightarrow> NetworkResponse" where
  "errorResponse status mode elapsed msg =
     \<lparr>ns_StatusCode = status, ns_Headers = [], ns_Body = [], ns_Elapsed = elapsed, ns_ProxyMode = mode, ns_Error = Some msg\<rparr>"

text \<open>\<open>MaxResponseBodyBytes + 1\<close> wraps at 64 bits.\<close>

definition buildResponse :: "egress_env \<Rightarrow> Config \<Rightarrow> upstream \<Rightarrow> string \<Rightarrow> NetworkResponse" where
  "buildResponse E cfg resp mode =
     (case read_limited (wrap64 (pc_MaxResponseBodyBytes cfg + 1)) (up_Body resp) of
        Inl e \<Rightarrow> errorResponse 502 mode (en_elapsed E) (''response read error: '' @ e)
      | Inr respBytes \<Rightarrow>
          (let truncated = int (length respBytes) > pc_MaxResponseBodyBytes cfg;
               bytes = (if truncated then take (nat (pc_MaxResponseBodyBytes cfg)) respBytes else respBytes);
               headers = foldl (\<lambda>hs (key, vals).
                 if AllowResponseHeader (en_U E) key \<and> length vals > 0 then gm_put key (Join '', '' vals) hs else hs)
                 [] (up_Header resp)
           in \<lparr>ns_StatusCode = up_StatusCode resp,
               ns_Headers = (if truncated then gm_put ''x-hyrule-truncated'' ''true'' headers else headers),
               ns_Body = bytes, ns_Elapsed = en_elapsed E, ns_ProxyMode = mode, ns_Error = None\<rparr>))"

definition validateHost :: "egress_env \<Rightarrow> string \<Rightarrow> string \<Rightarrow> policy_error option" where
  "validateHost E host mode =
     (if mode = ProxyModeTor \<and> HasSuffix (ToLower (en_U E) host) ''.onion'' then None
      else if mode = ProxyModeI2P \<and> HasSuffix (ToLower (en_U E) host) ''.i2p'' then None
      else ValidateResolvedHost (en_U E) host mode (en_resolver E))"

text \<open>The time a request may take: the product wraps.\<close>

definition request_timeout :: "Config \<Rightarrow> int \<Rightarrow> duration" where
  "request_timeout cfg seconds =
     (let timeout = (if seconds > 0 then seconds_dur seconds else pc_DefaultTimeout cfg)
      in if timeout > pc_MaxTimeout cfg then pc_MaxTimeout cfg else timeout)"

definition body_exceeds :: "Config \<Rightarrow> string option \<Rightarrow> bool" where
  "body_exceeds cfg b = (case b of None \<Rightarrow> False | Some bytes \<Rightarrow> int (length bytes) > pc_MaxRequestBodyBytes cfg)"

definition Do :: "egress_env \<Rightarrow> Client \<Rightarrow> NetworkRequest \<Rightarrow> NetworkResponse \<times> out_request list" where
  "Do E c inp =
     (let mode = (if nr_ProxyMode inp = [] then ProxyModeDirect else nr_ProxyMode inp);
          fail = (\<lambda>status msg. (errorResponse status mode (en_elapsed E) msg, [])) in
      case NormalizeMethod (en_U E) (nr_Method inp) of
        Inl e \<Rightarrow> fail 400 (policy_error_text e)
      | Inr meth \<Rightarrow>
          (case ParseAndValidateURL (en_U E) (en_Parse E) (nr_URL inp) mode of
             Inl e \<Rightarrow> fail (case e of ErrPolicyDenied _ \<Rightarrow> 403 | _ \<Rightarrow> 400) (policy_error_text e)
           | Inr parsed \<Rightarrow>
               (case validateHost E (url_Hostname parsed) mode of
                  Some e \<Rightarrow> fail 403 (policy_error_text e)
                | None \<Rightarrow>
                    (let bdy = (case nr_Body inp of None \<Rightarrow> [] | Some b \<Rightarrow> b) in
                     if body_exceeds (cl_cfg c) (nr_Body inp) then fail 400 ''request body exceeds limit''
                     else (case en_Parse E (url_String parsed) of
                             Inl e \<Rightarrow> fail 400 e
                           | Inr target \<Rightarrow>
                               (let req = \<lparr>or_Method = meth, or_URL = target,
                                           or_Header = SanitizeRequestHeaders (en_U E) (nr_Headers inp), or_Body = bdy,
                                           or_Timeout = request_timeout (cl_cfg c) (nr_TimeoutSeconds inp)\<rparr> in
                                case clientForMode c mode of
                                  Inl e \<Rightarrow> fail 400 e
                                | Inr hc \<Rightarrow>
                                    (case client_Do E hc (or_Header req) 0 req of
                                       (Inl e, rs) \<Rightarrow> (errorResponse 502 mode (en_elapsed E) (''network error: '' @ e), rs)
                                     | (Inr resp, rs) \<Rightarrow> (buildResponse E (cl_cfg c) resp mode, rs))))))))"

section \<open>Availability\<close>

text \<open>\<open>connect\<close>: whether a TCP connection to the address succeeds within the timeout.\<close>

definition tcpAvailable :: "(string \<Rightarrow> duration \<Rightarrow> bool) \<Rightarrow> string \<Rightarrow> duration \<Rightarrow> bool" where
  "tcpAvailable connect addr timeout = connect addr timeout"

definition torAvailable :: "(string \<Rightarrow> duration \<Rightarrow> bool) \<Rightarrow> Config \<Rightarrow> bool \<times> string" where
  "torAvailable connect cfg =
     (if tcpAvailable connect (pc_TorSOCKSAddr cfg) (750 * Millisecond) then (True, [])
      else (False, ''tor SOCKS listener unavailable''))"

definition i2pAvailable :: "(string \<Rightarrow> (string, url) result) \<Rightarrow> (string \<Rightarrow> duration \<Rightarrow> bool) \<Rightarrow> Config \<Rightarrow> bool \<times> string" where
  "i2pAvailable P connect cfg =
     (case P (pc_I2PHTTPProxy cfg) of
        Inl e \<Rightarrow> (False, ''invalid i2p proxy URL'')
      | Inr parsed \<Rightarrow>
          if url_Host parsed = [] then (False, ''invalid i2p proxy URL'')
          else if tcpAvailable connect (url_Host parsed) (750 * Millisecond) then (True, [])
          else (False, ''i2p HTTP proxy unavailable''))"

text \<open>An interface: whether it is up, and its addresses as \<open>netip.ParsePrefix\<close> reads them.\<close>

type_synonym iface = "bool \<times> (string, addr option list) result"

definition hasYggdrasilAddress :: "(string, iface list) result \<Rightarrow> bool" where
  "hasYggdrasilAddress ifaces =
     (case ifaces of
        Inl e \<Rightarrow> False
      | Inr is \<Rightarrow>
          list_ex (\<lambda>(up, addrs). up \<and> (case addrs of Inl e \<Rightarrow> False
            | Inr as \<Rightarrow> list_ex (\<lambda>p. case p of None \<Rightarrow> False | Some a \<Rightarrow> IsYggdrasilIP a) as)) is)"

definition yggdrasilAvailable :: "(string, iface list) result \<Rightarrow> Config \<Rightarrow> bool \<times> string" where
  "yggdrasilAvailable ifaces cfg =
     (if \<not> pc_Yggdrasil cfg then (False, ''yggdrasil disabled'')
      else if hasYggdrasilAddress ifaces then (True, [])
      else (False, ''no yggdrasil address detected''))"

definition modeInfo :: "bool \<times> string \<Rightarrow> ModeInfo" where
  "modeInfo ar = \<lparr>mi_Available = fst ar, mi_Reason = (if snd ar = [] then None else Some (snd ar))\<rparr>"

definition Modes ::
  "(string \<Rightarrow> (string, url) result) \<Rightarrow> (string \<Rightarrow> duration \<Rightarrow> bool) \<Rightarrow> (string, iface list) result \<Rightarrow> Client
   \<Rightarrow> (string, ModeInfo) gomap" where
  "Modes P connect ifaces c =
     gm_put ProxyModeYggdrasil (modeInfo (yggdrasilAvailable ifaces (cl_cfg c)))
       (gm_put ProxyModeI2P (modeInfo (i2pAvailable P connect (cl_cfg c)))
         (gm_put ProxyModeTor (modeInfo (torAvailable connect (cl_cfg c)))
           (gm_put ProxyModeDirect \<lparr>mi_Available = True, mi_Reason = None\<rparr> [])))"


section \<open>What is dialed\<close>

lemma select_addr_allowed:
  assumes "select_addr mode as sel = Inr a" "sel \<noteq> AddrZero \<longrightarrow> IPAllowedForMode sel mode"
  shows "IPAllowedForMode a mode \<and> (a = sel \<or> a \<in> Unmap ` set as) \<and> (\<forall>x \<in> set as. IPAllowedForMode (Unmap x) mode)"
  using assms
proof (induction mode as sel rule: select_addr.induct)
  case (1 mode sel)
  then show ?case by (auto simp: addr_IsValid_def split: if_splits)
next
  case (2 mode x as sel)
  have "IPAllowedForMode (Unmap x) mode"
    "select_addr mode as (if \<not> addr_IsValid sel then Unmap x else sel) = Inr a"
    using 2(2) by (auto simp: Let_def split: if_splits)
  with 2(1) [OF refl] 2(3) show ?case by (auto simp: addr_IsValid_def split: if_splits)
qed

lemma resolve_allowed:
  assumes "resolveDialAddress U lookup host port mode = Inr d"
  shows "\<exists>ip. IPAllowedForMode ip mode \<and> d = JoinHostPort (addr_String ip) port
    \<and> (ParseAddr (Trim host {CHR ''['', CHR '']''}) = Some ip
       \<or> (\<exists>as. lookup (Trim host {CHR ''['', CHR '']''}) = Inr as \<and> ip \<in> Unmap ` set as
            \<and> (\<forall>x \<in> set as. IPAllowedForMode (Unmap x) mode)))"
proof (cases "ParseAddr (Trim host {CHR ''['', CHR '']''})")
  case (Some ip)
  then show ?thesis using assms by (auto simp: resolveDialAddress_def Let_def split: if_splits)
next
  case None
  then obtain as ip where as: "lookup (Trim host {CHR ''['', CHR '']''}) = Inr as" "as \<noteq> []"
    "select_addr mode as AddrZero = Inr ip" "d = JoinHostPort (addr_String ip) port"
    using assms by (auto simp: resolveDialAddress_def Let_def split: if_splits sum.splits)
  have "ip \<noteq> AddrZero" using select_addr_allowed [OF as(3)] by (auto simp: IPAllowedForMode_def IsPublicIP_def IsYggdrasilIP_def addr_IsValid_def split: if_splits)
  then show ?thesis using select_addr_allowed [OF as(3)] as by auto
qed

text \<open>
  (C30) What may be dialed. Whatever the lookups answer, and whatever was checked before, a
  connection of the direct and Yggdrasil dialers comes from dialing an address the mode allows:
  the literal of the target, or one of the addresses its name resolved to, all of which are
  allowed (so a name that changes its addresses between the check and the dial gains nothing).
  The Tor dialer passes on names under \<open>.onion\<close> and otherwise obeys the same rule.
\<close>

theorem dial_guarded:
  assumes "guarded_DialContext U lookup dial mode network address = Inr conn
    \<or> socks_DialContext U lookup dial mode network address = Inr conn"
  shows "\<exists>host port. SplitHostPort address = Inr (host, port)
    \<and> ((mode = ProxyModeTor \<and> HasSuffix (ToLower U (TrimSuffix host ''.'')) ''.onion'' \<and> dial network address = Inr conn)
       \<or> (\<exists>ip. IPAllowedForMode ip mode \<and> dial network (JoinHostPort (addr_String ip) port) = Inr conn
            \<and> (ParseAddr (Trim host {CHR ''['', CHR '']''}) = Some ip
               \<or> (\<exists>as. lookup (Trim host {CHR ''['', CHR '']''}) = Inr as \<and> ip \<in> Unmap ` set as
                    \<and> (\<forall>x \<in> set as. IPAllowedForMode (Unmap x) mode)))))"
proof -
  obtain host port where hp: "SplitHostPort address = Inr (host, port)"
    using assms by (auto simp: guarded_DialContext_def socks_DialContext_def split: sum.splits)
  show ?thesis
  proof (cases "mode = ProxyModeTor \<and> HasSuffix (ToLower U (TrimSuffix host ''.'')) ''.onion'' \<and> dial network address = Inr conn")
    case True
    then show ?thesis using hp by blast
  next
    case False
    then obtain d where "resolveDialAddress U lookup host port mode = Inr d" "dial network d = Inr conn"
      using assms hp by (auto simp: guarded_DialContext_def socks_DialContext_def split: sum.splits if_splits)
    then show ?thesis using resolve_allowed [of U lookup host port mode d] hp by auto
  qed
qed

theorem dial_guarded_witness:
  "\<exists>ip. IPAllowedForMode ip ''direct'' \<and> Inr ''1.1.1.1:80'' = (Inr (JoinHostPort (addr_String ip) ''80'') :: (string, string) result)"
proof -
  let ?look = "\<lambda>h :: string. (Inl ''none'' :: (string, addr list) result)" and ?dial = "\<lambda>n a :: string. (Inr a :: (string, string) result)"
  have run: "guarded_DialContext plain_unicode ?look ?dial ''direct'' ''tcp'' ''1.1.1.1:80'' = Inr ''1.1.1.1:80''"
    by code_simp
  have hp: "SplitHostPort ''1.1.1.1:80'' = Inr (''1.1.1.1'', ''80'')" by code_simp
  have lit: "ParseAddr (Trim ''1.1.1.1'' {CHR ''['', CHR '']''}) \<noteq> None" by code_simp
  from dial_guarded [OF disjI1 [OF run]] show ?thesis
    using hp lit by (auto simp: ProxyModeTor_def)
qed

text \<open>The host of \<open>bracketed_onion_unchecked\<close> gets no further than the dialer, which cannot split it from its port.\<close>

lemma bracketed_onion_not_dialed:
  "guarded_DialContext U lookup dial ''direct'' ''tcp'' ''a.onion]:80'' =
     Inl (projl (SplitHostPort ''a.onion]:80'')) \<and> isl (SplitHostPort ''a.onion]:80'')"
proof -
  have "isl (SplitHostPort ''a.onion]:80'')" by code_simp
  then show ?thesis by (cases "SplitHostPort ''a.onion]:80''") (simp_all add: guarded_DialContext_def)
qed

section \<open>What is sent\<close>

text \<open>
  What the code relies on of \<open>net/url\<close>: the text of a URL parses to a URL with the same scheme, host and
  user. It is needed of the URLs \<open>url.Parse\<close> gives and of those a server redirects to.
\<close>

definition url_ok :: "egress_env \<Rightarrow> url \<Rightarrow> bool" where
  "url_ok E u \<longleftrightarrow> (\<forall>v. en_Parse E (url_String u) = Inr v \<longrightarrow>
     url_Scheme v = url_Scheme u \<and> url_Hostname v = url_Hostname u \<and> url_User v = url_User u)"

definition redirected_to :: "egress_env \<Rightarrow> url \<Rightarrow> bool" where
  "redirected_to E u \<longleftrightarrow> (\<exists>t req n resp. en_exchange E t req n = Inr resp \<and> up_Redirect resp = Some u)"

definition urls_ok :: "egress_env \<Rightarrow> bool" where
  "urls_ok E \<longleftrightarrow> lower_keeps_dot (en_U E) \<and> (\<forall>s u. en_Parse E s = Inr u \<longrightarrow> url_ok E u) \<and> (\<forall>u. redirected_to E u \<longrightarrow> url_ok E u)"

text \<open>
  A target the policy of the mode accepts: the host name, as it is or without brackets at its ends,
  is a literal address the mode allows, a name that resolved to allowed addresses only, or a name of the
  network of the mode; or the host name begins or ends with a bracket and is a name under \<open>.onion\<close> or
  \<open>.i2p\<close> without it.
\<close>

definition target_allowed :: "egress_env \<Rightarrow> string \<Rightarrow> url \<Rightarrow> bool" where
  "target_allowed E mode u \<longleftrightarrow> url_Scheme u \<in> {''http'', ''https''} \<and> url_User u = None
     \<and> (let host = url_Hostname u; h = Trim host {CHR ''['', CHR '']''} in
         host_checked (en_U E) (en_resolver E) mode host \<or> host_checked (en_U E) (en_resolver E) mode h
         \<or> h \<noteq> host \<and> alternate_name (en_U E) h)"

text \<open>A redirect target that passed the check of \<open>RedirectPolicy\<close>.\<close>

definition target_ok :: "egress_env \<Rightarrow> string \<Rightarrow> url \<Rightarrow> bool" where
  "target_ok E mode u \<longleftrightarrow> redirected_to E u \<and> \<not> isl (ParseAndValidateURL (en_U E) (en_Parse E) (url_String u) mode)
     \<and> ValidateResolvedHost (en_U E) (url_Hostname u) mode (en_resolver E) = None"

lemma target_ok_allowed:
  assumes "urls_ok E" "target_ok E mode u"
  shows "target_allowed E mode u"
proof -
  obtain v where v: "ParseAndValidateURL (en_U E) (en_Parse E) (url_String u) mode = Inr v"
    using assms(2) by (cases "ParseAndValidateURL (en_U E) (en_Parse E) (url_String u) mode") (simp_all add: target_ok_def)
  note ok = ParseAndValidateURL_accepts [OF v]
  have "url_ok E u" using assms by (simp add: urls_ok_def target_ok_def)
  then have u: "url_Scheme v = url_Scheme u" "url_Hostname v = url_Hostname u" "url_User v = url_User u"
    using ok(2) by (simp_all add: url_ok_def)
  show ?thesis
    using host_checked_valid [OF _ v u(2)] assms ok(3,5) u(1,3)
    by (auto simp: urls_ok_def target_ok_def target_allowed_def Let_def)
qed

lemma first_target_allowed:
  assumes "urls_ok E" "ParseAndValidateURL (en_U E) (en_Parse E) raw mode = Inr parsed"
    "validateHost E (url_Hostname parsed) mode = None" "en_Parse E (url_String parsed) = Inr target"
  shows "target_allowed E mode target"
proof -
  note ok = ParseAndValidateURL_accepts [OF assms(2)]
  have "url_ok E parsed" using assms(1) ok(2) by (simp add: urls_ok_def)
  then have t: "url_Scheme target = url_Scheme parsed" "url_Hostname target = url_Hostname parsed" "url_User target = url_User parsed"
    using assms(4) by (simp_all add: url_ok_def)
  show ?thesis
  proof (cases "ValidateResolvedHost (en_U E) (url_Hostname parsed) mode (en_resolver E) = None")
    case True
    then show ?thesis using host_checked_valid [OF _ assms(2) refl] assms(1) ok(3,5) t
      by (auto simp: urls_ok_def target_allowed_def Let_def)
  next
    case False
    then have "host_checked (en_U E) (en_resolver E) mode (url_Hostname parsed)"
      using assms(3) by (auto simp: validateHost_def host_checked_def split: if_splits)
    then show ?thesis using ok(3,5) t by (simp add: target_allowed_def Let_def)
  qed
qed

lemma redirect_checked:
  assumes "RedirectPolicy (en_U E) (en_Parse E) mode n (en_resolver E) u via = None" "redirected_to E u"
  shows "via \<le> n" "target_ok E mode u"
  using assms by (auto simp: RedirectPolicy_def target_ok_def split: if_splits sum.splits)

lemma redirect_request_sel [simp]:
  "or_URL (redirect_request hdr req st u) = u"
  "or_Header (redirect_request hdr req st u) = redirect_header hdr (or_URL req) u"
  "or_Timeout (redirect_request hdr req st u) = or_Timeout req"
  "or_Method (redirect_request hdr req st u) \<in> {or_Method req, ''GET'', ''HEAD''}"
  "length (or_Body (redirect_request hdr req st u)) \<le> length (or_Body req)"
  by (simp_all add: redirect_request_def Let_def)

definition same_limits :: "out_request \<Rightarrow> out_request \<Rightarrow> bool" where
  "same_limits req q \<longleftrightarrow> or_Timeout q = or_Timeout req
     \<and> or_Method q \<in> {or_Method req, ''GET'', ''HEAD''} \<and> length (or_Body q) \<le> length (or_Body req)"

lemma same_limits_trans: "same_limits req q \<Longrightarrow> same_limits q p \<Longrightarrow> same_limits req p"
  by (auto simp: same_limits_def)

lemma same_limits_redirect: "same_limits req (redirect_request hdr req st u)"
  using redirect_request_sel(4) [of hdr req st u] by (simp add: same_limits_def)

text \<open>In a list of requests each one after the first has the headers of a redirect from the one before it.\<close>

definition redirect_chain :: "(string, string) gomap \<Rightarrow> out_request list \<Rightarrow> bool" where
  "redirect_chain hdr rs \<longleftrightarrow> (\<forall>n. Suc n < length rs \<longrightarrow>
     or_Header (rs ! Suc n) = redirect_header hdr (or_URL (rs ! n)) (or_URL (rs ! Suc n)))"

lemma redirect_chain_Cons:
  "redirect_chain hdr (q # rest) \<Longrightarrow> or_Header q = redirect_header hdr (or_URL req) (or_URL q) \<Longrightarrow>
   redirect_chain hdr (req # q # rest)"
  unfolding redirect_chain_def by (metis Suc_less_eq length_Cons not0_implies_Suc nth_Cons_0 nth_Cons_Suc)

lemma client_Do_sent:
  "client_Do E hc hdr via req = (r, rs) \<Longrightarrow>
   (\<exists>rest. rs = req # rest \<and> (\<forall>q \<in> set rest. target_ok E (ht_Mode hc) (or_URL q) \<and> same_limits req q))
   \<and> int (length rs) \<le> 1 + max 0 (ht_MaxRedirects hc - via) \<and> redirect_chain hdr rs"
proof (induction E hc hdr via req arbitrary: r rs rule: client_Do.induct)
  case (1 E hc hdr via req)
  show ?case
  proof (cases "\<exists>resp u. en_exchange E (ht_Transport hc) req via = Inr resp \<and> up_Redirect resp = Some u
      \<and> RedirectPolicy (en_U E) (en_Parse E) (ht_Mode hc) (ht_MaxRedirects hc) (en_resolver E) u (via + 1) = None")
    case True
    then obtain resp u where ex: "en_exchange E (ht_Transport hc) req via = Inr resp" "up_Redirect resp = Some u"
      "RedirectPolicy (en_U E) (en_Parse E) (ht_Mode hc) (ht_MaxRedirects hc) (en_resolver E) u (via + 1) = None" by blast
    let ?req1 = "redirect_request hdr req (up_StatusCode resp) u"
    obtain r1 rs1 where rec: "client_Do E hc hdr (via + 1) ?req1 = (r1, rs1)" by fastforce
    have rs: "rs = req # rs1" using 1(2) ex rec by (simp add: client_Do.simps [of E hc hdr via req])
    have "redirected_to E u" using ex(1,2) by (auto simp: redirected_to_def)
    note ok = redirect_checked [OF ex(3) this]
    from 1(1) [OF ex rec] obtain rest where
      rest: "rs1 = ?req1 # rest" "\<forall>q \<in> set rest. target_ok E (ht_Mode hc) (or_URL q) \<and> same_limits ?req1 q"
      and len: "int (length rs1) \<le> 1 + max 0 (ht_MaxRedirects hc - (via + 1))" and ch: "redirect_chain hdr rs1" by blast
    have "\<forall>q \<in> set rs1. target_ok E (ht_Mode hc) (or_URL q) \<and> same_limits req q"
      using rest ok(2) same_limits_redirect same_limits_trans [OF same_limits_redirect] by auto
    moreover have "int (length rs) \<le> 1 + max 0 (ht_MaxRedirects hc - via)" using len ok(1) rs by simp
    moreover have "redirect_chain hdr rs"
      unfolding rs rest(1) by (rule redirect_chain_Cons [OF ch [unfolded rest(1)]]) simp
    ultimately show ?thesis using rs by blast
  next
    case False
    then have "rs = [req]"
      using 1(2) by (auto simp: client_Do.simps [of E hc hdr via req] split: sum.splits option.splits)
    then show ?thesis by (simp add: redirect_chain_def)
  qed
qed


lemma NewClient_modes:
  assumes "NewClient P socks cfg = Inr c" "clientForMode c mode = Inr hc"
  shows "ht_Mode hc = mode" "ht_MaxRedirects hc = pc_MaxRedirects cfg" "mode \<in> set AllModes" "cl_cfg c = cfg"
proof -
  have "ht_Mode hc = mode \<and> ht_MaxRedirects hc = pc_MaxRedirects cfg \<and> mode \<in> set AllModes \<and> cl_cfg c = cfg"
    using assms by (auto simp: NewClient_def clientForMode_def AllModes_def Let_def split: sum.splits if_splits)
  then show "ht_Mode hc = mode" "ht_MaxRedirects hc = pc_MaxRedirects cfg" "mode \<in> set AllModes" "cl_cfg c = cfg" by simp_all
qed

text \<open>The cases of \<open>Do\<close>: refused before anything is sent, or the request and what came of it.\<close>

definition proxy_mode :: "NetworkRequest \<Rightarrow> string" where
  "proxy_mode inp = (if nr_ProxyMode inp = [] then ProxyModeDirect else nr_ProxyMode inp)"

lemma Do_cases:
  obtains (refused) status msg where "Do E c inp = (errorResponse status (proxy_mode inp) (en_elapsed E) msg, [])" "status \<in> {400, 403}"
  | (sent) meth parsed target bdy hc r rs where
      "NormalizeMethod (en_U E) (nr_Method inp) = Inr meth"
      "ParseAndValidateURL (en_U E) (en_Parse E) (nr_URL inp) (proxy_mode inp) = Inr parsed"
      "validateHost E (url_Hostname parsed) (proxy_mode inp) = None"
      "bdy = (case nr_Body inp of None \<Rightarrow> [] | Some b \<Rightarrow> b)" "bdy = [] \<or> int (length bdy) \<le> pc_MaxRequestBodyBytes (cl_cfg c)"
      "en_Parse E (url_String parsed) = Inr target" "clientForMode c (proxy_mode inp) = Inr hc"
      "client_Do E hc (SanitizeRequestHeaders (en_U E) (nr_Headers inp)) 0 \<lparr>or_Method = meth, or_URL = target, or_Header = SanitizeRequestHeaders (en_U E) (nr_Headers inp),
         or_Body = bdy, or_Timeout = request_timeout (cl_cfg c) (nr_TimeoutSeconds inp)\<rparr> = (r, rs)"
      "Do E c inp = ((case r of Inl e \<Rightarrow> errorResponse 502 (proxy_mode inp) (en_elapsed E) (''network error: '' @ e)
                     | Inr resp \<Rightarrow> buildResponse E (cl_cfg c) resp (proxy_mode inp)), rs)"
proof (cases "\<exists>meth parsed target hc. NormalizeMethod (en_U E) (nr_Method inp) = Inr meth
    \<and> ParseAndValidateURL (en_U E) (en_Parse E) (nr_URL inp) (proxy_mode inp) = Inr parsed
    \<and> validateHost E (url_Hostname parsed) (proxy_mode inp) = None
    \<and> \<not> body_exceeds (cl_cfg c) (nr_Body inp)
    \<and> en_Parse E (url_String parsed) = Inr target \<and> clientForMode c (proxy_mode inp) = Inr hc")
  case True
  then obtain meth parsed target hc where ok: "NormalizeMethod (en_U E) (nr_Method inp) = Inr meth"
    "ParseAndValidateURL (en_U E) (en_Parse E) (nr_URL inp) (proxy_mode inp) = Inr parsed"
    "validateHost E (url_Hostname parsed) (proxy_mode inp) = None"
    "\<not> body_exceeds (cl_cfg c) (nr_Body inp)"
    "en_Parse E (url_String parsed) = Inr target" "clientForMode c (proxy_mode inp) = Inr hc" by blast
  define bdy where "bdy = (case nr_Body inp of None \<Rightarrow> [] | Some b \<Rightarrow> b)"
  obtain r rs where run: "client_Do E hc (SanitizeRequestHeaders (en_U E) (nr_Headers inp)) 0 \<lparr>or_Method = meth, or_URL = target, or_Header = SanitizeRequestHeaders (en_U E) (nr_Headers inp),
         or_Body = bdy, or_Timeout = request_timeout (cl_cfg c) (nr_TimeoutSeconds inp)\<rparr> = (r, rs)" by fastforce
  have size: "bdy = [] \<or> int (length bdy) \<le> pc_MaxRequestBodyBytes (cl_cfg c)"
    using ok(4) by (auto simp: bdy_def body_exceeds_def split: option.splits)
  show ?thesis
    by (rule sent [OF ok(1-3) bdy_def size ok(5,6) run])
      (use ok run in \<open>cases r; simp add: Do_def proxy_mode_def [symmetric] bdy_def [symmetric] Let_def\<close>)
next
  case False
  have "\<exists>status msg. Do E c inp = (errorResponse status (proxy_mode inp) (en_elapsed E) msg, []) \<and> status \<in> {400, 403}"
    using False
    by (auto simp: Do_def proxy_mode_def [symmetric] Let_def split: sum.splits option.splits policy_error.splits if_splits)
  then show ?thesis using refused by blast
qed


lemma timeout_max: "request_timeout cfg n \<le> pc_MaxTimeout cfg"
  by (simp add: request_timeout_def Let_def)

lemma filtered_keys:
  "k \<in> gm_keys (foldl (\<lambda>out (key, v). if Q key v then gm_put key (g v) out else out) acc xs) \<Longrightarrow>
   k \<in> gm_keys acc \<or> k \<in> gm_keys xs \<and> (\<exists>v. Q k v)"
proof (induction xs arbitrary: acc)
  case (Cons e xs)
  obtain key v where e: "e = (key, v)" by (cases e)
  show ?case
  proof (cases "Q key v")
    case True
    then have "k \<in> gm_keys (gm_put key (g v) acc) \<or> k \<in> gm_keys xs \<and> (\<exists>v. Q k v)"
      using Cons.IH Cons.prems by (simp add: e)
    then show ?thesis using True e unfolding gm_keys_put by auto
  next
    case False
    then show ?thesis using Cons.IH Cons.prems by (auto simp: e)
  qed
qed simp

lemma filtered_get:
  assumes "gm_wf xs"
  shows "gm_get (foldl (\<lambda>out (key, v). if Q key v then gm_put key (g v) out else out) acc xs) k =
    (case gm_get xs k of None \<Rightarrow> gm_get acc k | Some v \<Rightarrow> if Q k v then Some (g v) else gm_get acc k)"
  using assms
proof (induction xs arbitrary: acc)
  case (Cons e xs)
  obtain key v where e: "e = (key, v)" by (cases e)
  have wf: "gm_wf xs" and fresh: "key \<notin> gm_keys xs" using Cons.prems by (auto simp: gm_wf_def e)
  have none: "gm_get xs key = None" using fresh by (simp add: gm_get_None_iff)
  show ?case
    using Cons.IH [OF wf] none by (auto simp: e gomap_simps split: option.splits)
qed simp

lemma sanitized_keys:
  "k \<in> gm_keys (SanitizeRequestHeaders U hs) \<Longrightarrow> ToLower U (TrimSpace U k) \<in> set requestHeaderAllowlist"
  unfolding SanitizeRequestHeaders_def
  using filtered_keys [of k "\<lambda>key v. ToLower U (TrimSpace U key) \<in> set requestHeaderAllowlist" "\<lambda>v. v" "[]" hs] by simp

text \<open>The headers of a redirect: those of the initial request, and \<open>Referer\<close>.\<close>

lemma redirect_header_keys:
  assumes "k \<in> gm_keys (redirect_header hdr u v)" "''Referer'' \<notin> gm_keys hdr" "url_User u = None"
  shows "k \<in> gm_keys hdr \<or> k = ''Referer'' \<and> gm_get (redirect_header hdr u v) ''Referer'' = Some (url_String u)"
proof -
  have "gm_get hdr ''Referer'' = None" using assms(2) by (simp add: gm_get_None_iff)
  then show ?thesis using assms(1,3)
    by (auto simp: redirect_header_def refererForURL_def Let_def gomap_simps gm_keys_put split: if_splits)
qed

lemma no_referer_sanitized: "''Referer'' \<notin> gm_keys (SanitizeRequestHeaders U hs)"
proof
  assume "''Referer'' \<in> gm_keys (SanitizeRequestHeaders U hs)"
  then have "ToLower U (TrimSpace U ''Referer'') \<in> set requestHeaderAllowlist" by (rule sanitized_keys)
  moreover have "map ascii_lower ''Referer'' = ''referer''" by code_simp
  then have "ToLower U (TrimSpace U ''Referer'') = ''referer''"
    by (simp add: ToLower_def TrimSpace_def ascii_space_def is_ascii_def)
  ultimately show False by (simp add: requestHeaderAllowlist_def)
qed

text \<open>
  (C29) What leaves the sidecar. Every request \<open>Do\<close> hands to a transport, the first one and those that
  follow redirects, is for an http or https URL without credentials whose host passed the check of the
  mode (\<open>target_allowed\<close>: a literal address the mode allows, a name that resolved to allowed addresses
  only, a name of the network of the mode, or the case of a stray bracket); it has an allowed method, a body
  within the limit and a timeout within the maximum. Its headers are allowlisted, with one exception: a request
  that follows a redirect may carry \<open>Referer\<close>, the URL of the request before it. There are at
  most as many redirects as configured.
\<close>

theorem egress_sends_only_allowed:
  assumes "NewClient P socks cfg = Inr c" "Do E c inp = (resp, rs)" "urls_ok E" "n < length rs"
  shows "or_Method (rs ! n) \<in> {''GET'', ''HEAD'', ''POST''}
    \<and> (\<forall>k \<in> gm_keys (or_Header (rs ! n)).
         ToLower (en_U E) (TrimSpace (en_U E) k) \<in>
           {''accept'', ''accept-language'', ''cache-control'', ''content-type'', ''if-modified-since'', ''if-none-match'', ''user-agent''}
         \<or> 0 < n \<and> k = ''Referer'' \<and> gm_get (or_Header (rs ! n)) k = Some (url_String (or_URL (rs ! (n - 1)))))
    \<and> int (length (or_Body (rs ! n))) \<le> max 0 (pc_MaxRequestBodyBytes cfg) \<and> or_Timeout (rs ! n) \<le> pc_MaxTimeout cfg
    \<and> int (length rs) \<le> 1 + max 0 (pc_MaxRedirects cfg) \<and> proxy_mode inp \<in> set AllModes
    \<and> target_allowed E (proxy_mode inp) (or_URL (rs ! n))"
proof (cases rule: Do_cases [of E c inp])
  case (refused status msg)
  then show ?thesis using assms(2,4) by simp
next
  case (sent meth parsed target bdy hc r rs1)
  define hdr where "hdr = SanitizeRequestHeaders (en_U E) (nr_Headers inp)"
  define req where "req = \<lparr>or_Method = meth, or_URL = target, or_Header = hdr,
    or_Body = bdy, or_Timeout = request_timeout (cl_cfg c) (nr_TimeoutSeconds inp)\<rparr>"
  note modes = NewClient_modes [OF assms(1) sent(7)]
  have rs: "rs1 = rs" using sent(9) assms(2) by simp
  from client_Do_sent [OF sent(8) [folded hdr_def, folded req_def]] obtain rest where
    rest: "rs = req # rest" "\<forall>q \<in> set rest. target_ok E (proxy_mode inp) (or_URL q) \<and> same_limits req q"
    and len: "int (length rs) \<le> 1 + max 0 (pc_MaxRedirects cfg)" and ch: "redirect_chain hdr rs" by (auto simp: rs modes)
  have meth: "meth \<in> {''GET'', ''HEAD'', ''POST''}"
    using sent(1) by (auto simp: NormalizeMethod_def AllowedMethods_def Let_def split: if_splits)
  have each: "same_limits req q \<and> target_allowed E (proxy_mode inp) (or_URL q)" if "q \<in> set rs" for q
  proof (cases "q = req")
    case True
    then show ?thesis using first_target_allowed [OF assms(3) sent(2,3,6)] by (simp add: same_limits_def req_def)
  next
    case False
    then show ?thesis using that rest target_ok_allowed [OF assms(3)] by auto
  qed
  let ?q = "rs ! n"
  have q: "same_limits req ?q" "target_allowed E (proxy_mode inp) (or_URL ?q)" using each assms(4) by simp_all
  have "int (length (or_Body req)) \<le> max 0 (pc_MaxRequestBodyBytes cfg)" using sent(5) modes(4) by (auto simp: req_def)
  then have "or_Method ?q \<in> {''GET'', ''HEAD'', ''POST''}" "int (length (or_Body ?q)) \<le> max 0 (pc_MaxRequestBodyBytes cfg)"
    "or_Timeout ?q \<le> pc_MaxTimeout cfg"
    using q(1) meth timeout_max [of cfg] modes(4) by (auto simp: same_limits_def req_def)
  moreover have "ToLower (en_U E) (TrimSpace (en_U E) k) \<in> set requestHeaderAllowlist
      \<or> 0 < n \<and> k = ''Referer'' \<and> gm_get (or_Header ?q) k = Some (url_String (or_URL (rs ! (n - 1))))"
    if k: "k \<in> gm_keys (or_Header ?q)" for k
  proof (cases n)
    case 0
    then show ?thesis using k rest(1) sanitized_keys by (simp add: req_def hdr_def)
  next
    case (Suc j)
    have "url_User (or_URL (rs ! j)) = None" using each [of "rs ! j"] assms(4) Suc by (simp add: target_allowed_def)
    moreover have "or_Header ?q = redirect_header hdr (or_URL (rs ! j)) (or_URL ?q)"
      using ch assms(4) Suc by (simp add: redirect_chain_def)
    moreover have "''Referer'' \<notin> gm_keys hdr" unfolding hdr_def by (rule no_referer_sanitized)
    ultimately have "k \<in> gm_keys hdr \<or> k = ''Referer'' \<and> gm_get (or_Header ?q) ''Referer'' = Some (url_String (or_URL (rs ! j)))"
      using redirect_header_keys [of k hdr "or_URL (rs ! j)" "or_URL ?q"] k by simp
    then show ?thesis using Suc sanitized_keys [of k "en_U E" "nr_Headers inp"] by (auto simp: hdr_def)
  qed
  ultimately show ?thesis
    using len modes(3) q(2) unfolding requestHeaderAllowlist_def by simp
qed

definition demo_url :: url where
  "demo_url = \<lparr>url_Scheme = ''http'', url_Hostname = ''1.1.1.1'', url_User = None, url_Host = ''1.1.1.1'', url_String = ''http://1.1.1.1/''\<rparr>"

definition demo_cfg :: Config where
  "demo_cfg = \<lparr>pc_APIListenAddr = [], pc_MetricsListenAddr = [], pc_AuthToken = ''t'', pc_TorSOCKSAddr = ''127.0.0.1:9050'',
     pc_I2PHTTPProxy = ''http://127.0.0.1:4444'', pc_Yggdrasil = True, pc_MaxRequestBodyBytes = 8, pc_MaxResponseBodyBytes = 4,
     pc_DefaultTimeout = 15, pc_MaxTimeout = 60, pc_MaxRedirects = 1, pc_LogLevel = []\<rparr>"

text \<open>A server that redirects every request to itself.\<close>

definition demo_env :: egress_env where
  "demo_env = \<lparr>en_U = plain_unicode, en_Parse = (\<lambda>_. Inr demo_url), en_LookupIP = (\<lambda>_. Inl ''no''),
     en_exchange = (\<lambda>t req via. Inr \<lparr>up_StatusCode = 302, up_Header = [], up_Body = ([], None), up_Redirect = Some demo_url\<rparr>),
     en_urlError = (\<lambda>req e. e), en_elapsed = 0\<rparr>"

definition demo_get :: NetworkRequest where
  "demo_get = \<lparr>nr_RequestID = [], nr_URL = ''http://1.1.1.1/'', nr_Method = ''get'', nr_Headers = [(''Accept'', ''x''), (''Cookie'', ''y'')],
     nr_Body = None, nr_ProxyMode = [], nr_TimeoutSeconds = 0\<rparr>"

definition demo_client :: Client where
  "demo_client = projr (NewClient (\<lambda>_. Inr demo_url) (\<lambda>_. Inr True) demo_cfg)"

lemma demo_NewClient: "NewClient (\<lambda>_. Inr demo_url) (\<lambda>_. Inr True) demo_cfg = Inr demo_client"
  by (simp add: demo_client_def NewClient_def torRoundTripper_def Let_def)

lemma demo_Do: "case snd (Do demo_env demo_client demo_get) of [] \<Rightarrow> False | _ \<Rightarrow> True"
  by code_simp

lemma demo_urls_ok: "urls_ok demo_env"
proof -
  have "url_ok demo_env demo_url" by (simp add: url_ok_def demo_env_def)
  then show ?thesis using plain_unicode_keeps_dot by (auto simp: urls_ok_def redirected_to_def demo_env_def)
qed

theorem egress_sends_only_allowed_witness:
  "\<exists>n < length (snd (Do demo_env demo_client demo_get)).
     or_Method (snd (Do demo_env demo_client demo_get) ! n) \<in> {''GET'', ''HEAD'', ''POST''}
     \<and> target_allowed demo_env ProxyModeDirect (or_URL (snd (Do demo_env demo_client demo_get) ! n))
     \<and> length (snd (Do demo_env demo_client demo_get)) \<le> 2"
proof -
  obtain resp rs where run: "Do demo_env demo_client demo_get = (resp, rs)" by fastforce
  have "0 < length rs" using demo_Do run by (auto split: list.splits)
  note s = egress_sends_only_allowed [OF demo_NewClient run demo_urls_ok this]
  have "pc_MaxRedirects demo_cfg = 1" "proxy_mode demo_get = ProxyModeDirect" by (simp_all add: demo_cfg_def proxy_mode_def demo_get_def)
  then show ?thesis unfolding run snd_conv using s \<open>0 < length rs\<close> by (intro exI [of _ 0]) auto
qed

text \<open>
  The header allowlist is not applied to the requests \<open>http.Client\<close> makes by itself: the target of a redirect
  is told the full URL of the request before.
\<close>

lemma redirect_sends_referer:
  "map (\<lambda>q. gm_get (or_Header q) ''Referer'') (snd (Do demo_env demo_client demo_get)) = [None, Some ''http://1.1.1.1/'']"
  by code_simp

section \<open>What comes back\<close>

text \<open>
  (C32) Bounded responses. For a configured limit below the largest 64-bit integer, the body
  handed to the caller is the first bytes of the upstream body, at most the limit; it is marked
  truncated exactly when there was more. No header named \<open>authorization\<close>, \<open>cookie\<close>,
  \<open>proxy-authorization\<close>, \<open>set-cookie\<close>, \<open>x-api-key\<close>, \<open>x-payment\<close> or \<open>payment-signature\<close>, in any letter
  case and with blanks around it, is passed on; every other header that has a value is, its values joined.
  A stream that fails within the limit gives a 502.
\<close>

theorem response_bounded:
  assumes "0 < pc_MaxResponseBodyBytes cfg" "pc_MaxResponseBodyBytes cfg < 2 ^ 63 - 1"
    "''x-hyrule-truncated'' \<notin> gm_keys (up_Header resp)" "gm_wf (up_Header resp)"
  shows "let r = buildResponse E cfg resp mode; bytes = fst (up_Body resp); limit = nat (pc_MaxResponseBodyBytes cfg) in
    (if length bytes \<le> limit \<and> snd (up_Body resp) \<noteq> None then ns_StatusCode r = 502 \<and> ns_Body r = []
     else ns_StatusCode r = up_StatusCode resp \<and> ns_Body r = take limit bytes
       \<and> (gm_get (ns_Headers r) ''x-hyrule-truncated'' \<noteq> None \<longleftrightarrow> limit < length bytes)
       \<and> (\<forall>k. k \<noteq> ''x-hyrule-truncated'' \<longrightarrow>
            gm_get (ns_Headers r) k =
              (if ToLower (en_U E) (TrimSpace (en_U E) k) \<in>
                    {''authorization'', ''cookie'', ''proxy-authorization'', ''set-cookie'', ''x-api-key'', ''x-payment'', ''payment-signature''}
               then None
               else case gm_get (up_Header resp) k of
                      None \<Rightarrow> None | Some vals \<Rightarrow> if vals = [] then None else Some (Join '', '' vals))))"
proof -
  let ?bytes = "fst (up_Body resp)" and ?max = "pc_MaxResponseBodyBytes cfg"
  define hs where "hs = foldl (\<lambda>hs (key, vals). if AllowResponseHeader (en_U E) key \<and> length vals > 0
      then gm_put key (Join '', '' vals) hs else hs) [] (up_Header resp)"
  have wrap: "wrap64 (?max + 1) = ?max + 1" using assms(1,2) by (simp add: wrap64_id in_int64_def)
  have get: "gm_get hs k = (case gm_get (up_Header resp) k of None \<Rightarrow> None
      | Some vals \<Rightarrow> if AllowResponseHeader (en_U E) k \<and> length vals > 0 then Some (Join '', '' vals) else None)" for k
    unfolding hs_def using filtered_get [OF assms(4), where k = k and Q = "\<lambda>key vals. AllowResponseHeader (en_U E) key \<and> length vals > 0" and g = "Join '', ''" and acc = "[]"]
    by (simp split: option.splits)
  have allow: "gm_get hs k = (if ToLower (en_U E) (TrimSpace (en_U E) k) \<in>
        {''authorization'', ''cookie'', ''proxy-authorization'', ''set-cookie'', ''x-api-key'', ''x-payment'', ''payment-signature''}
      then None else case gm_get (up_Header resp) k of None \<Rightarrow> None | Some vals \<Rightarrow> if vals = [] then None else Some (Join '', '' vals))" for k
    unfolding get AllowResponseHeader_def responseHeaderDenylist_def by (auto split: option.splits)
  have "gm_get (up_Header resp) ''x-hyrule-truncated'' = None" using assms(3) by (simp add: gm_get_None_iff)
  then have none: "gm_get hs ''x-hyrule-truncated'' = None" by (simp add: get)
  show ?thesis
  proof (cases "?max + 1 \<le> int (length ?bytes)")
    case True
    have gt: "nat ?max < length ?bytes" using True assms(1) by linarith
    have len: "length (take (nat (?max + 1)) ?bytes) = nat (?max + 1)" using True by simp
    have "take (nat ?max) (take (nat (?max + 1)) ?bytes) = take (nat ?max) ?bytes" using assms(1) by (simp add: min_def)
    then have "buildResponse E cfg resp mode = \<lparr>ns_StatusCode = up_StatusCode resp,
        ns_Headers = gm_put ''x-hyrule-truncated'' ''true'' hs, ns_Body = take (nat ?max) ?bytes, ns_Elapsed = en_elapsed E,
        ns_ProxyMode = mode, ns_Error = None\<rparr>"
      using True assms(1) len unfolding buildResponse_def wrap read_limited_def hs_def by (simp add: Let_def)
    then show ?thesis using gt allow unfolding Let_def by (auto simp: gomap_simps)
  next
    case False
    then have le: "length ?bytes \<le> nat ?max" by linarith
    show ?thesis
    proof (cases "snd (up_Body resp)")
      case None
      then have "buildResponse E cfg resp mode = \<lparr>ns_StatusCode = up_StatusCode resp, ns_Headers = hs, ns_Body = ?bytes,
          ns_Elapsed = en_elapsed E, ns_ProxyMode = mode, ns_Error = None\<rparr>"
        using False unfolding buildResponse_def wrap read_limited_def hs_def by (simp add: Let_def)
      then show ?thesis using le None none allow by (auto simp: Let_def)
    next
      case (Some e)
      then have "buildResponse E cfg resp mode = errorResponse 502 mode (en_elapsed E) (''response read error: '' @ e)"
        using False unfolding buildResponse_def wrap read_limited_def by simp
      then show ?thesis using le Some by (auto simp: Let_def errorResponse_def)
    qed
  qed
qed

theorem response_bounded_witness:
  "case buildResponse demo_env demo_cfg
     \<lparr>up_StatusCode = 200, up_Header = [(''Set-Cookie'', [''s'']), (''Server'', [''a'', ''b''])],
      up_Body = (''abcdef'', Some ''reset''), up_Redirect = None\<rparr> ''direct'' of r \<Rightarrow>
     ns_Body r = ''abcd'' \<and> gm_get (ns_Headers r) ''Set-Cookie'' = None \<and> gm_get (ns_Headers r) ''Server'' = Some ''a, b''"
proof -
  let ?r = "\<lparr>up_StatusCode = 200, up_Header = [(''Set-Cookie'', [''s'']), (''Server'', [''a'', ''b''])],
    up_Body = (''abcdef'', Some ''reset''), up_Redirect = None\<rparr>"
  have hyps: "0 < pc_MaxResponseBodyBytes demo_cfg" "pc_MaxResponseBodyBytes demo_cfg < 2 ^ 63 - 1"
    "''x-hyrule-truncated'' \<notin> gm_keys (up_Header ?r)" "gm_wf (up_Header ?r)"
    and cfg: "nat (pc_MaxResponseBodyBytes demo_cfg) = 4" "en_U demo_env = plain_unicode"
    by (simp_all add: demo_cfg_def demo_env_def gm_wf_def)
  have low: "ToLower plain_unicode (TrimSpace plain_unicode ''Set-Cookie'') = ''set-cookie''"
    "ToLower plain_unicode (TrimSpace plain_unicode ''Server'') = ''server''" "Join '', '' [''a'', ''b''] = ''a, b''"
    by code_simp+
  show ?thesis
    using response_bounded [OF hyps, of demo_env "''direct''"] cfg low by (simp add: Let_def)
qed

section \<open>Divergences\<close>

text \<open>
  A requested timeout beyond 9223372036 seconds wraps to a negative duration, which the clamp to
  the maximum does not catch: the request fails at once instead of getting the maximum.
\<close>

lemma timeout_overflow: "0 < pc_MaxTimeout cfg \<Longrightarrow> request_timeout cfg 9223372037 < 0"
  by (simp add: request_timeout_def Let_def seconds_dur_def wrap64_def Second_def)

text \<open>
  A name under \<open>.onion\<close> with a final full stop is recognised by the URL check and by the Tor dialer
  but not by \<open>validateHost\<close>, which asks the system resolver for it.
\<close>

lemma onion_dot_resolved:
  "validateHost (demo_env\<lparr>en_LookupIP := (\<lambda>h. Inl (''asked '' @ h))\<rparr>) ''a.onion.'' ''tor'' = Some (PlainError ''asked a.onion.'')"
  by code_simp

end
