(* ===== verification/Egress_Server.thy ===== *)
theory Egress_Server
  imports Transport
begin

text \<open>
  The HTTP front of the egress sidecar (\<open>src/internal/server\<close>) and the counters it keeps
  (\<open>src/internal/metrics/metrics.go\<close>): the bearer check, the handlers and the two routers. The
  JSON decoder is a parameter. The result of a request names the requests it sent upstream.
\<close>

section \<open>Metrics\<close>

record Metrics =
  em_RequestsTotal :: "string \<times> string \<Rightarrow> int"
  em_RequestDuration :: "(string \<times> duration) list"
  em_RequestBytesTotal :: "string \<Rightarrow> int"
  em_ResponseBytesTotal :: "string \<Rightarrow> int"
  em_PolicyDenialsTotal :: "string \<times> string \<Rightarrow> int"
  em_ModeAvailable :: "string \<Rightarrow> int option"

definition ObserveRequest :: "string \<Rightarrow> int \<Rightarrow> duration \<Rightarrow> int \<Rightarrow> int \<Rightarrow> Metrics \<Rightarrow> Metrics" where
  "ObserveRequest mode status dur reqBytes respBytes m =
     (let cls = Itoa (status div 100) @ ''xx'' in
      m\<lparr>em_RequestsTotal := (em_RequestsTotal m)((mode, cls) := em_RequestsTotal m (mode, cls) + 1),
        em_RequestDuration := em_RequestDuration m @ [(mode, dur)],
        em_RequestBytesTotal := (em_RequestBytesTotal m)(mode := em_RequestBytesTotal m mode + reqBytes),
        em_ResponseBytesTotal := (em_ResponseBytesTotal m)(mode := em_ResponseBytesTotal m mode + respBytes)\<rparr>)"

definition ObservePolicyDenial :: "string \<Rightarrow> string \<Rightarrow> Metrics \<Rightarrow> Metrics" where
  "ObservePolicyDenial mode reason m =
     m\<lparr>em_PolicyDenialsTotal := (em_PolicyDenialsTotal m)((mode, reason) := em_PolicyDenialsTotal m (mode, reason) + 1)\<rparr>"

definition SetModeAvailable :: "string \<Rightarrow> bool \<Rightarrow> Metrics \<Rightarrow> Metrics" where
  "SetModeAvailable mode available m =
     m\<lparr>em_ModeAvailable := (em_ModeAvailable m)(mode := Some (if available then 1 else 0))\<rparr>"

section \<open>Handlers\<close>

datatype egress_body = EHealth egress_Health | EModes ModesResponse | EResponse NetworkResponse | EError string

text \<open>What the surroundings supply: see \<open>Do\<close> and \<open>Modes\<close>; the decoder; the clock of the handler.\<close>

record server_env =
  se_env :: egress_env
  se_connect :: "string \<Rightarrow> duration \<Rightarrow> bool"
  se_ifaces :: "(string, iface list) result"
  se_decode :: "string \<Rightarrow> (string, NetworkRequest \<times> string) result"
  se_taken :: duration

definition client_Modes :: "server_env \<Rightarrow> Client \<Rightarrow> (string, ModeInfo) gomap" where
  "client_Modes X c = Modes (en_Parse (se_env X)) (se_connect X) (se_ifaces X) c"

definition writeJSON :: "int \<Rightarrow> egress_body \<Rightarrow> egress_body response \<Rightarrow> egress_body response" where
  "writeJSON status b w = rw_Write (JSON b) (rw_WriteHeader status (rw_SetHeader ''Content-Type'' ''application/json'' w))"

text \<open>The limit is read with one byte more, which wraps at 64 bits.\<close>

definition decodeLimitedJSON :: "(string \<Rightarrow> (string, 'a \<times> string) result) \<Rightarrow> stream \<Rightarrow> int \<Rightarrow> (string, 'a) result" where
  "decodeLimitedJSON dec r maxBytes =
     (case read_limited (wrap64 (maxBytes + 1)) r of
        Inl e \<Rightarrow> Inl e
      | Inr bytes \<Rightarrow>
          if int (length bytes) > maxBytes then Inl ''request exceeds limit''
          else (case dec bytes of Inl e \<Rightarrow> Inl e | Inr (out, rest) \<Rightarrow> Inr out))"

text \<open>A handler gives the response, the metrics, and what was sent upstream.\<close>

type_synonym egress_result = "egress_body response \<times> Metrics \<times> out_request list"

definition handleHealth :: "egress_body response \<Rightarrow> Metrics \<Rightarrow> egress_result" where
  "handleHealth w m =
     (writeJSON 200 (EHealth \<lparr>eh_Status = ''ok'', eh_Service = ''hyrule-network-proxy'', eh_Version = Version\<rparr>) w, m, [])"

definition handleModes :: "server_env \<Rightarrow> Client \<Rightarrow> egress_body response \<Rightarrow> Metrics \<Rightarrow> egress_result" where
  "handleModes X c w m =
     (let modes = client_Modes X c in
      (writeJSON 200 (EModes \<lparr>mr_Modes = modes\<rparr>) w, foldl (\<lambda>m (mode, info). SetModeAvailable mode (mi_Available info) m) m modes, []))"

definition handleRequest :: "server_env \<Rightarrow> Client \<Rightarrow> stream \<Rightarrow> egress_body response \<Rightarrow> Metrics \<Rightarrow> egress_result" where
  "handleRequest X c bdy w m =
     (case decodeLimitedJSON (se_decode X) bdy (wrap64 (pc_MaxRequestBodyBytes (cl_cfg c) + 4096)) of
        Inl e \<Rightarrow> (writeJSON 400 (EError e) w, m, [])
      | Inr in0 \<Rightarrow>
          (let inp = (if nr_ProxyMode in0 = [] then in0\<lparr>nr_ProxyMode := ProxyModeDirect\<rparr> else in0) in
           case Do (se_env X) c inp of
             (resp, sent) \<Rightarrow>
               (let m1 = (case ns_Error resp of
                            Some e \<Rightarrow> if ns_StatusCode resp = 400 \<or> ns_StatusCode resp = 403
                                      then ObservePolicyDenial (nr_ProxyMode inp) e m else m
                          | None \<Rightarrow> m);
                    requestBytes = (case nr_Body inp of None \<Rightarrow> 0 | Some b \<Rightarrow> int (length b))
                in (writeJSON 200 (EResponse resp) w,
                    ObserveRequest (nr_ProxyMode inp) (ns_StatusCode resp) (se_taken X) requestBytes (int (length (ns_Body resp))) m1,
                    sent))))"

definition handleHealthz :: "egress_body response \<Rightarrow> egress_body response" where
  "handleHealthz w = rw_Write (Plain (''ok'' @ [CHR 0x0A])) w"

definition handleReadyz :: "server_env \<Rightarrow> Client \<Rightarrow> egress_body response \<Rightarrow> egress_body response" where
  "handleReadyz X c w =
     (if list_ex (\<lambda>(mode, info). mi_Available info) (client_Modes X c) then rw_Write (Plain (''ok'' @ [CHR 0x0A])) w
      else http_Error ''no proxy modes available'' 503 w)"

section \<open>Middleware and routers\<close>

definition withAuth ::
  "unicode \<Rightarrow> string \<Rightarrow> (egress_body response \<Rightarrow> Metrics \<Rightarrow> egress_result) \<Rightarrow> string \<Rightarrow> egress_body response \<Rightarrow> Metrics \<Rightarrow> egress_result" where
  "withAuth U token next auth w m =
     (if \<not> HasPrefix auth ''Bearer '' then (http_Error ''unauthorized'' 401 w, m, [])
      else (let given = TrimSpace U (TrimPrefix auth ''Bearer '') in
            if given \<noteq> token then (http_Error ''unauthorized'' 401 w, m, []) else next w m))"

datatype egress_op = EOpHealth | EOpModes | EOpRequest

definition api_routes :: "((string \<times> seg list) \<times> egress_op) list" where
  "api_routes =
     [((''GET'', [Lit ''v1'', Lit ''health'']), EOpHealth),
      ((''GET'', [Lit ''v1'', Lit ''modes'']), EOpModes),
      ((''POST'', [Lit ''v1'', Lit ''request'']), EOpRequest)]"

definition APIRouter :: "server_env \<Rightarrow> Client \<Rightarrow> http_request \<Rightarrow> Metrics \<Rightarrow> egress_result" where
  "APIRouter X c r m =
     (case mux api_routes (hq_Method r) (hq_Path r) of
        PathNotFound \<Rightarrow> (http_Error ''404 page not found'' 404 new_response, m, [])
      | MethodNotAllowed \<Rightarrow> (http_Error ''Method Not Allowed'' 405 new_response, m, [])
      | Found oper vs \<Rightarrow>
          withAuth (en_U (se_env X)) (pc_AuthToken (cl_cfg c))
            (case oper of EOpHealth \<Rightarrow> handleHealth | EOpModes \<Rightarrow> handleModes X c | EOpRequest \<Rightarrow> handleRequest X c (hq_Body r))
            (hq_Authorization r) new_response m)"

datatype metrics_op = MOpHealthz | MOpReadyz | MOpMetrics

definition metrics_routes :: "((string \<times> seg list) \<times> metrics_op) list" where
  "metrics_routes =
     [((''GET'', [Lit ''healthz'']), MOpHealthz), ((''GET'', [Lit ''readyz'']), MOpReadyz), ((''GET'', [Lit ''metrics'']), MOpMetrics)]"

text \<open>\<open>scrape\<close> is what the Prometheus handler writes for the registry.\<close>

definition MetricsRouter ::
  "(Metrics \<Rightarrow> egress_body response \<Rightarrow> egress_body response) \<Rightarrow> server_env \<Rightarrow> Client \<Rightarrow> http_request \<Rightarrow> Metrics \<Rightarrow> egress_body response" where
  "MetricsRouter scrape X c r m =
     (case mux metrics_routes (hq_Method r) (hq_Path r) of
        PathNotFound \<Rightarrow> http_Error ''404 page not found'' 404 new_response
      | MethodNotAllowed \<Rightarrow> http_Error ''Method Not Allowed'' 405 new_response
      | Found oper vs \<Rightarrow>
          (case oper of MOpHealthz \<Rightarrow> handleHealthz new_response | MOpReadyz \<Rightarrow> handleReadyz X c new_response
           | MOpMetrics \<Rightarrow> scrape m new_response))"

section \<open>Properties\<close>

lemma sidecar_auth_eq:
  "withAuth U token next auth w m = (if bearer_ok U token auth then next w m else (http_Error ''unauthorized'' 401 w, m, []))"
  by (simp add: withAuth_def bearer_ok_iff Let_def)

text \<open>One request, on the counters and everything sent upstream so far.\<close>

definition sidecar_step :: "server_env \<Rightarrow> Client \<Rightarrow> http_request \<Rightarrow> Metrics \<times> out_request list \<Rightarrow> Metrics \<times> out_request list" where
  "sidecar_step X c r s = (case APIRouter X c r (fst s) of (w, m', sent) \<Rightarrow> (m', snd s @ sent))"

lemma APIRouter_refused:
  assumes "\<not> bearer_ok (en_U (se_env X)) (pc_AuthToken (cl_cfg c)) (hq_Authorization r)"
  shows "\<exists>w. APIRouter X c r m = (w, m, []) \<and> (rp_status w = Some 401 \<or> rp_status w = Some 404 \<or> rp_status w = Some 405)"
  using assms by (auto simp: APIRouter_def sidecar_auth_eq split: route.splits egress_op.splits)

interpretation sidecar_front: guarded_front "sidecar_step X c"
    "\<lambda>r. bearer_ok (en_U (se_env X)) (pc_AuthToken (cl_cfg c)) (hq_Authorization r)" "\<lambda>s. s" for X c
proof unfold_locales
  fix r :: http_request and s
  assume "\<not> bearer_ok (en_U (se_env X)) (pc_AuthToken (cl_cfg c)) (hq_Authorization r)"
  then show "sidecar_step X c r s = s" using APIRouter_refused [of X c r "fst s"] by (auto simp: sidecar_step_def)
qed simp

lemma decodeLimited_ok:
  assumes "decodeLimitedJSON dec r n = Inr v" "0 \<le> n" "n + 1 < 2 ^ 63"
  shows "int (length (fst r)) \<le> n \<and> snd r = None \<and> (\<exists>rest. dec (fst r) = Inr (v, rest))"
proof -
  have w: "wrap64 (n + 1) = n + 1" using assms(2,3) by (simp add: wrap64_id in_int64_def)
  show ?thesis
  proof (cases "n + 1 \<le> int (length (fst r))")
    case True
    then have "read_limited (n + 1) r = Inr (take (nat (n + 1)) (fst r))" "length (take (nat (n + 1)) (fst r)) = nat (n + 1)"
      by (simp_all add: read_limited_def)
    then show ?thesis using assms(1,2) by (simp add: decodeLimitedJSON_def w)
  next
    case False
    then show ?thesis using assms(1)
      by (auto simp: decodeLimitedJSON_def w read_limited_def split: option.splits sum.splits if_splits)
  qed
qed

lemma match_lits: "match_path (map Lit as) p = Some vs \<longleftrightarrow> p = as \<and> vs = []"
proof (induction as arbitrary: p)
  case Nil
  then show ?case by (cases p) auto
next
  case (Cons a as)
  then show ?case by (cases p) auto
qed

lemma route_request:
  assumes "mux api_routes m path = Found EOpRequest vs"
  shows "m = ''POST'' \<and> path = [''v1'', ''request'']"
  using assms match_lits [of "[''v1'', ''request'']" path]
  by (auto simp: api_routes_def match_method_def split: option.splits if_splits route.splits)

lemma handleRequest_sent:
  assumes "handleRequest X c bdy new_response m = (w, m', sent)" "sent \<noteq> []"
    "0 \<le> pc_MaxRequestBodyBytes (cl_cfg c)" "pc_MaxRequestBodyBytes (cl_cfg c) < 2 ^ 63 - 4097"
  shows "\<exists>inp. sent = snd (Do (se_env X) c inp) \<and> rp_status w = Some 200 \<and> rp_body w = [JSON (EResponse (fst (Do (se_env X) c inp)))]
    \<and> int (length (fst bdy)) \<le> pc_MaxRequestBodyBytes (cl_cfg c) + 4096 \<and> snd bdy = None"
proof -
  let ?n = "pc_MaxRequestBodyBytes (cl_cfg c) + 4096"
  have w: "wrap64 ?n = ?n" using assms(3,4) by (simp add: wrap64_id in_int64_def)
  from assms(1,2) obtain in0 where dec: "decodeLimitedJSON (se_decode X) bdy ?n = Inr in0"
    by (auto simp: handleRequest_def w split: sum.splits)
  define inp where "inp = (if nr_ProxyMode in0 = [] then in0\<lparr>nr_ProxyMode := ProxyModeDirect\<rparr> else in0)"
  obtain resp rs where run: "Do (se_env X) c inp = (resp, rs)" by fastforce
  have "sent = rs \<and> w = writeJSON 200 (EResponse resp) new_response"
    using assms(1) dec run by (auto simp: handleRequest_def w Let_def inp_def [symmetric])
  moreover have "int (length (fst bdy)) \<le> ?n \<and> snd bdy = None"
    using decodeLimited_ok [OF dec] assms(3,4) by simp
  ultimately show ?thesis using run by (intro exI [of _ inp]) (simp add: writeJSON_def)
qed

text \<open>
  (C31) The sidecar's gate. A request without the bearer token sends nothing upstream, counts
  nothing and is answered 401 (404 or 405 when it is not routed). Anything sent upstream stems from an
  authorized POST to \<open>/v1/request\<close> with a complete body within the limit, is what \<open>Do\<close> sends, and the
  answer of \<open>Do\<close> is the one returned. In any sequence of requests those without the token make no
  difference to the counters and to what is sent.
\<close>

theorem egress_gate:
  assumes "APIRouter X c r m = (w, m', sent)"
    "0 \<le> pc_MaxRequestBodyBytes (cl_cfg c)" "pc_MaxRequestBodyBytes (cl_cfg c) < 2 ^ 63 - 4097"
  shows "(\<not> bearer_ok (en_U (se_env X)) (pc_AuthToken (cl_cfg c)) (hq_Authorization r) \<longrightarrow>
       sent = [] \<and> m' = m \<and> (rp_status w = Some 401 \<or> rp_status w = Some 404 \<or> rp_status w = Some 405))
    \<and> (sent \<noteq> [] \<longrightarrow> hq_Method r = ''POST'' \<and> hq_Path r = [''v1'', ''request'']
        \<and> int (length (fst (hq_Body r))) \<le> pc_MaxRequestBodyBytes (cl_cfg c) + 4096 \<and> snd (hq_Body r) = None
        \<and> (\<exists>inp. sent = snd (Do (se_env X) c inp) \<and> rp_status w = Some 200
             \<and> rp_body w = [JSON (EResponse (fst (Do (se_env X) c inp)))]))
    \<and> serve_all (sidecar_step X c) rs s
      = serve_all (sidecar_step X c) (filter (\<lambda>r. bearer_ok (en_U (se_env X)) (pc_AuthToken (cl_cfg c)) (hq_Authorization r)) rs) s"
proof (cases "bearer_ok (en_U (se_env X)) (pc_AuthToken (cl_cfg c)) (hq_Authorization r)")
  case False
  then show ?thesis using APIRouter_refused [OF False, of m] assms(1) sidecar_front.strangers_invisible by auto
next
  case True
  have "hq_Method r = ''POST'' \<and> hq_Path r = [''v1'', ''request''] \<and> handleRequest X c (hq_Body r) new_response m = (w, m', sent)"
    if ne: "sent \<noteq> []"
  proof -
    obtain vs where "mux api_routes (hq_Method r) (hq_Path r) = Found EOpRequest vs" "handleRequest X c (hq_Body r) new_response m = (w, m', sent)"
      using assms(1) True ne
      by (auto simp: APIRouter_def sidecar_auth_eq handleHealth_def handleModes_def Let_def split: route.splits egress_op.splits)
    then show ?thesis using route_request by blast
  qed
  then show ?thesis
    using True handleRequest_sent [OF _ _ assms(2,3), of X "hq_Body r" m w m' sent] sidecar_front.strangers_invisible by blast
qed

text \<open>The direct mode is always reported available, so readiness never fails.\<close>

lemma readyz_always_ok: "rp_status (handleReadyz X c new_response) = Some 200"
proof -
  have "(ProxyModeDirect, \<lparr>mi_Available = True, mi_Reason = None\<rparr>) \<in> set (client_Modes X c)"
    by (simp add: client_Modes_def Modes_def mode_defs)
  then have "list_ex (\<lambda>(mode, info). mi_Available info) (client_Modes X c)" by (force simp: list_ex_iff)
  then show ?thesis by (simp add: handleReadyz_def)
qed

section \<open>Witness\<close>

definition demo_server_env :: server_env where
  "demo_server_env = \<lparr>se_env = demo_env, se_connect = (\<lambda>_ _. False), se_ifaces = Inr [],
     se_decode = (\<lambda>s. if s = ''go'' then Inr (demo_get, []) else Inl ''bad''), se_taken = 0\<rparr>"

definition demo_metrics :: Metrics where
  "demo_metrics = \<lparr>em_RequestsTotal = (\<lambda>_. 0), em_RequestDuration = [], em_RequestBytesTotal = (\<lambda>_. 0),
     em_ResponseBytesTotal = (\<lambda>_. 0), em_PolicyDenialsTotal = (\<lambda>_. 0), em_ModeAvailable = (\<lambda>_. None)\<rparr>"

definition demo_request :: "string \<Rightarrow> http_request" where
  "demo_request auth = \<lparr>hq_Method = ''POST'', hq_Path = [''v1'', ''request''], hq_Authorization = auth, hq_Body = (''go'', None)\<rparr>"

lemma demo_limits: "0 \<le> pc_MaxRequestBodyBytes (cl_cfg demo_client)" "pc_MaxRequestBodyBytes (cl_cfg demo_client) < 2 ^ 63 - 4097"
  by (simp_all add: demo_client_def NewClient_def torRoundTripper_def Let_def demo_cfg_def)

lemma demo_sent: "snd (snd (APIRouter demo_server_env demo_client (demo_request ''Bearer t'') demo_metrics)) \<noteq> []"
  by code_simp

lemma demo_refused: "\<not> bearer_ok (en_U (se_env demo_server_env)) (pc_AuthToken (cl_cfg demo_client)) (hq_Authorization (demo_request ''Bearer x''))"
proof -
  have "TrimSpace plain_unicode ''x'' \<noteq> ''t''" by code_simp
  then show ?thesis
    by (auto simp: bearer_ok_def demo_request_def demo_server_env_def demo_env_def demo_client_def NewClient_def torRoundTripper_def
        Let_def demo_cfg_def)
qed

theorem egress_gate_witness:
  "fst (snd (APIRouter demo_server_env demo_client (demo_request ''Bearer x'') demo_metrics)) = demo_metrics
   \<and> rp_status (fst (APIRouter demo_server_env demo_client (demo_request ''Bearer t'') demo_metrics)) = Some 200"
proof -
  obtain w m' sent where no: "APIRouter demo_server_env demo_client (demo_request ''Bearer x'') demo_metrics = (w, m', sent)"
    using prod_cases3 by blast
  obtain v n' out where ok: "APIRouter demo_server_env demo_client (demo_request ''Bearer t'') demo_metrics = (v, n', out)"
    using prod_cases3 by blast
  have "out \<noteq> []" using demo_sent ok by simp
  then show ?thesis using egress_gate [OF no demo_limits] egress_gate [OF ok demo_limits] demo_refused no ok by auto
qed

end
