(* ===== verification/Stun.thy ===== *)
theory Stun
  imports Prelude "HOL-Library.Word"
begin

text \<open>
  The STUN binding responder (\<open>src/internal/tunnel/stun/responder.go\<close>). The message codec
  \<open>pion/stun\<close> is a parameter: its message types, \<open>Decode\<close>, and \<open>Build\<close> from a list of setters.
  The loop runs on what \<open>ReadFrom\<close> returns.
\<close>

section \<open>Model\<close>

type_synonym octet = "8 word"

record udpaddr =
  ua_IP :: "octet list"
  ua_Port :: int

datatype 'ty setter = TransactionID "octet list" | MessageType 'ty | XORMappedAddress "octet list" int | Fingerprint

record 'ty stun_lib =
  sl_Decode :: "octet list \<Rightarrow> (string, 'ty \<times> octet list) result"
  sl_Build :: "'ty setter list \<Rightarrow> (string, octet list) result"
  sl_BindingRequest :: 'ty
  sl_BindingSuccess :: 'ty

text \<open>What the responder has sent and what its counter shows.\<close>

record Responder =
  rs_sent :: "(udpaddr \<times> octet list) list"
  rs_STUNRequests :: int

text \<open>\<open>writeErr\<close> is the outcome of \<open>WriteTo\<close>.\<close>

definition respond :: "'ty stun_lib \<Rightarrow> string option \<Rightarrow> udpaddr \<Rightarrow> octet list \<Rightarrow> Responder \<Rightarrow> Responder" where
  "respond L writeErr src raw r =
     (case sl_Decode L raw of
        Inl _ \<Rightarrow> r
      | Inr (ty, tid) \<Rightarrow>
          if ty \<noteq> sl_BindingRequest L then r
          else (case sl_Build L [TransactionID tid, MessageType (sl_BindingSuccess L),
                                 XORMappedAddress (ua_IP src) (ua_Port src), Fingerprint] of
                  Inl _ \<Rightarrow> r
                | Inr resp \<Rightarrow>
                    if writeErr \<noteq> None then r
                    else r\<lparr>rs_sent := rs_sent r @ [(src, resp)], rs_STUNRequests := rs_STUNRequests r + 1\<rparr>))"

text \<open>
  What \<open>ReadFrom\<close> gives: an error, with whether the context is done, or a datagram with its
  source (\<open>None\<close> when it is not a \<open>*net.UDPAddr\<close>) and the outcome of a reply to it.
\<close>

datatype packet_event = ReadError bool | Datagram "udpaddr option" "octet list" "string option"

text \<open>The loop, and whether it has returned; it is still reading when the events end.\<close>

fun stun_loop :: "'ty stun_lib \<Rightarrow> packet_event list \<Rightarrow> Responder \<Rightarrow> bool \<times> Responder" where
  "stun_loop L [] r = (False, r)"
| "stun_loop L (ReadError isDone # es) r = (if isDone then (True, r) else stun_loop L es r)"
| "stun_loop L (Datagram None raw w # es) r = stun_loop L es r"
| "stun_loop L (Datagram (Some src) raw w # es) r = stun_loop L es (respond L w src (take 1500 raw) r)"

definition stun_ListenAndServe ::
  "'ty stun_lib \<Rightarrow> string option \<Rightarrow> packet_event list \<Rightarrow> Responder \<Rightarrow> (string, bool) result \<times> Responder" where
  "stun_ListenAndServe L bindErr es r =
     (case bindErr of
        Some e \<Rightarrow> (Inl e, r)
      | None \<Rightarrow> (case stun_loop L es r of (ret, r') \<Rightarrow> (Inr ret, r')))"

section \<open>Properties\<close>

text \<open>The reply a datagram calls for, whoever sends it.\<close>

definition reply_to :: "'ty stun_lib \<Rightarrow> packet_event \<Rightarrow> (udpaddr \<times> octet list) option" where
  "reply_to L e =
     (case e of
        Datagram (Some src) raw None \<Rightarrow>
          (case sl_Decode L (take 1500 raw) of
             Inr (ty, tid) \<Rightarrow>
               if ty = sl_BindingRequest L
               then (case sl_Build L [TransactionID tid, MessageType (sl_BindingSuccess L),
                                      XORMappedAddress (ua_IP src) (ua_Port src), Fingerprint] of
                       Inr resp \<Rightarrow> Some (src, resp) | Inl _ \<Rightarrow> None)
               else None
           | Inl _ \<Rightarrow> None)
      | _ \<Rightarrow> None)"

definition reading :: "packet_event list \<Rightarrow> packet_event list" where
  "reading es = takeWhile (\<lambda>e. e \<noteq> ReadError True) es"

lemma respond_reply:
  "respond L w src (take 1500 raw) r =
     (case reply_to L (Datagram (Some src) raw w) of
        None \<Rightarrow> r | Some p \<Rightarrow> r\<lparr>rs_sent := rs_sent r @ [p], rs_STUNRequests := rs_STUNRequests r + 1\<rparr>)"
  by (auto simp: respond_def reply_to_def split: sum.splits option.splits)

lemma stun_loop_replies:
  "stun_loop L es r = (ret, r') \<Longrightarrow>
   (ret \<longleftrightarrow> ReadError True \<in> set es) \<and> rs_sent r' = rs_sent r @ List.map_filter (reply_to L) (reading es)
   \<and> rs_STUNRequests r' = rs_STUNRequests r + int (length (List.map_filter (reply_to L) (reading es)))"
proof (induction L es r rule: stun_loop.induct)
  case (4 L src raw w es r)
  then show ?case
    by (cases "reply_to L (Datagram (Some src) raw w)") (auto simp: respond_reply reading_def List.map_filter_def)
qed (auto simp: reading_def List.map_filter_def reply_to_def split: if_splits)

lemma reply_source: "reply_to L e = Some (dst, resp) \<Longrightarrow> \<exists>raw. e = Datagram (Some dst) raw None"
  by (auto simp: reply_to_def split: packet_event.splits option.splits sum.splits if_splits)

text \<open>
  (C38) The STUN responder. When the port could be bound, the datagrams sent are exactly, and in
  order, one reply to the sender of each readable binding request that arrived before the context
  was done, carrying the request's transaction and the address the sender was seen with; the
  counter grew by their number; other datagrams and read errors are passed over. So an address gets
  at most as many datagrams as it sent. The loop returns exactly when a read fails after the context
  is done.
\<close>

theorem stun_exact:
  assumes "stun_ListenAndServe L None es r = (res, r')"
  shows "res = Inr (ReadError True \<in> set es) \<and> rs_sent r' = rs_sent r @ List.map_filter (reply_to L) (reading es)
    \<and> rs_STUNRequests r' - rs_STUNRequests r = int (length (rs_sent r')) - int (length (rs_sent r))
    \<and> length (filter (\<lambda>p. fst p = a) (rs_sent r')) \<le> length (filter (\<lambda>p. fst p = a) (rs_sent r))
        + length (filter (\<lambda>e. \<exists>raw w. e = Datagram (Some a) raw w) es)"
proof -
  obtain ret where run: "stun_loop L es r = (ret, r')" and res: "res = Inr ret"
    using assms by (auto simp: stun_ListenAndServe_def split: prod.splits)
  note l = stun_loop_replies [OF run]
  have "length (filter (\<lambda>p. fst p = a) (List.map_filter (reply_to L) (reading xs)))
      \<le> length (filter (\<lambda>e. \<exists>raw w. e = Datagram (Some a) raw w) xs)" for xs
  proof (induction xs)
    case (Cons e xs)
    then show ?case using reply_source [of L e a]
      by (cases "reply_to L e") (auto simp: reading_def List.map_filter_def dest: reply_source)
  qed (simp add: reading_def List.map_filter_def)
  from this [of es] show ?thesis using l res by simp
qed

text \<open>A codec whose messages are a type octet followed by a transaction.\<close>

definition demo_lib :: "octet stun_lib" where
  "demo_lib = \<lparr>sl_Decode = (\<lambda>raw. case raw of [] \<Rightarrow> Inl ''short'' | t # tid \<Rightarrow> Inr (t, tid)),
     sl_Build = (\<lambda>ss. case ss of TransactionID tid # MessageType t # XORMappedAddress ip p # _ \<Rightarrow> Inr (t # tid @ ip) | _ \<Rightarrow> Inl ''bad''),
     sl_BindingRequest = 1, sl_BindingSuccess = 2\<rparr>"

theorem stun_exact_witness:
  "rs_sent (snd (stun_ListenAndServe demo_lib None
     [Datagram (Some \<lparr>ua_IP = [10, 0, 0, 1], ua_Port = 7\<rparr>) [1, 42] None, ReadError False, Datagram None [1] None,
      Datagram (Some \<lparr>ua_IP = [10, 0, 0, 1], ua_Port = 7\<rparr>) [3, 42] None, ReadError True]
     \<lparr>rs_sent = [], rs_STUNRequests = 0\<rparr>)) = [(\<lparr>ua_IP = [10, 0, 0, 1], ua_Port = 7\<rparr>, [2, 42, 10, 0, 0, 1])]"
  (is "rs_sent (snd (stun_ListenAndServe demo_lib None ?es ?r)) = _")
proof -
  obtain res r' where run: "stun_ListenAndServe demo_lib None ?es ?r = (res, r')" by fastforce
  have "rs_sent r' = List.map_filter (reply_to demo_lib) (reading ?es)" using stun_exact [OF run] by simp
  then show ?thesis
    by (simp add: run reading_def List.map_filter_def reply_to_def) (simp add: demo_lib_def)
qed

end
