(* ===== verification/Daemon.thy ===== *)
theory Daemon
  imports Sshd_Server Control Egress_Server Stun
begin

text \<open>
  The two programs (\<open>src/cmd/hyrule-tunnel-proxy/main.go\<close> and
  \<open>src/cmd/hyrule-network-proxy/main.go\<close>): how a start builds the components from the
  environment, and the parts of the tunnel daemon that live in its main file, the sweeper and the
  metrics endpoints. How the programs end is in \<open>Shutdown\<close>; logging is left out.
\<close>

section \<open>The tunnel daemon\<close>

text \<open>What the surroundings of a start answer.\<close>

record ('priv, 'key, 'db) boot_env =
  be_U :: unicode
  be_lookup :: "string \<Rightarrow> string list option"
  be_environ :: "string \<Rightarrow> string"
  be_mkdir :: "string \<Rightarrow> string option"
  be_open :: "string \<Rightarrow> (string, 'db) result"
  be_bolt :: "'db bolt"
  be_codec :: codec
  be_now :: time
  be_key :: "('priv, 'key) keyio"

text \<open>
  The components of a started daemon. The server and the coordinator inside the API hold the
  same manager, the API and the server the same store.
\<close>

record ('key, 'db) daemon =
  da_cfg :: Tunnel_Config.Config
  da_server :: "'key Server"
  da_api :: "'db Coordinator API"

definition control_New :: "'s \<Rightarrow> 's API" where
  "control_New svc = \<lparr>ap_svc = svc, ap_records = []\<rparr>"

definition sshd_config :: "Tunnel_Config.Config \<Rightarrow> sshd_Config" where
  "sshd_config cfg =
     \<lparr>sc_ListenAddr = c_SSHListenAddr cfg, sc_HostKeyPath = c_HostKeyPath cfg, sc_EndpointHost = c_EndpointHost cfg,
      sc_SSHPort = c_SSHPort cfg, sc_MaxVisitorConnsPerLease = c_MaxVisitorConnsPerLease cfg,
      sc_KeepaliveInterval = c_KeepaliveInterval cfg, sc_AuthAttemptsPerWindow = c_AuthAttemptsPerWindow cfg,
      sc_AuthWindow = c_AuthWindow cfg\<rparr>"

text \<open>The start up to the goroutines; a failure is the event logged before \<open>os.Exit(1)\<close> and its error.\<close>

definition tunnel_main ::
  "('priv, 'key, 'db) boot_env \<Rightarrow> (string \<rightharpoonup> string) \<Rightarrow> (string \<times> string, ('key, 'db) daemon) result \<times> (string \<rightharpoonup> string)" where
  "tunnel_main E fs =
     (case Tunnel_Config.Load (be_U E) (be_lookup E) (be_environ E) of
        Inl e \<Rightarrow> (Inl (''config_load_failed'', e), fs)
      | Inr cfg \<Rightarrow>
          (case be_mkdir E (c_StateDir cfg) of
             Some e \<Rightarrow> (Inl (''state_dir_create_failed'', e), fs)
           | None \<Rightarrow>
               (case Open (be_bolt E) (be_codec E) (be_now E) (c_DataPortMin cfg) (c_DataPortMax cfg)
                       (be_open E (filepath_Join (c_StateDir cfg) ''leases.db'')) of
                  Inl e \<Rightarrow> (Inl (''lease_store_open_failed'', e), fs)
                | Inr store \<Rightarrow>
                    (case New (be_key E) (sshd_config cfg) fs of
                       (Inl e, fs') \<Rightarrow> (Inl (''ssh_server_init_failed'', e), fs')
                     | (Inr srv, fs') \<Rightarrow>
                         (Inr \<lparr>da_cfg = cfg, da_server = srv, da_api = control_New (NewCoordinator store (sv_manager srv))\<rparr>, fs')))))"

text \<open>The HTTP servers it starts; their handlers are \<open>Router\<close> and \<open>metricsRouter\<close>.\<close>

record http_Server =
  hs_Name :: string
  hs_Addr :: string
  hs_ReadHeaderTimeout :: duration

definition tunnel_servers :: "Tunnel_Config.Config \<Rightarrow> http_Server list" where
  "tunnel_servers cfg =
     [\<lparr>hs_Name = ''control'', hs_Addr = c_ControlListenAddr cfg, hs_ReadHeaderTimeout = 5 * Second\<rparr>,
      \<lparr>hs_Name = ''metrics'', hs_Addr = c_MetricsListenAddr cfg, hs_ReadHeaderTimeout = 5 * Second\<rparr>]"

text \<open>The sweeper, on the ticks it sees until the context is done.\<close>

datatype 'db sweep_event = Tick "'db ext" | SweepDone

fun runSweeper :: "'db sweep_event list \<Rightarrow> 'db Coordinator \<Rightarrow> 'db Coordinator" where
  "runSweeper [] c = c"
| "runSweeper (SweepDone # es) c = c"
| "runSweeper (Tick x # es) c = runSweeper es (snd (SweepExpired x c))"

text \<open>The metrics endpoints; \<open>scrape\<close> is what the Prometheus handler writes.\<close>

datatype tunnel_op = TOpHealthz | TOpReadyz | TOpMetrics

definition tunnel_routes :: "((string \<times> seg list) \<times> tunnel_op) list" where
  "tunnel_routes =
     [((''GET'', [Lit ''healthz'']), TOpHealthz), ((''GET'', [Lit ''readyz'']), TOpReadyz), ((''GET'', [Lit ''metrics'']), TOpMetrics)]"

definition metricsRouter ::
  "(metric list \<Rightarrow> 'b response \<Rightarrow> 'b response) \<Rightarrow> http_request \<Rightarrow> 'db Coordinator \<Rightarrow> 'b response \<times> 'db Coordinator" where
  "metricsRouter scrape r c =
     (case mux tunnel_routes (hq_Method r) (hq_Path r) of
        PathNotFound \<Rightarrow> (http_Error ''404 page not found'' 404 new_response, c)
      | MethodNotAllowed \<Rightarrow> (http_Error ''Method Not Allowed'' 405 new_response, c)
      | Found oper vs \<Rightarrow>
          (case oper of
             TOpHealthz \<Rightarrow> (rw_Write (Plain (''ok'' @ [CHR 0x0A])) new_response, c)
           | TOpReadyz \<Rightarrow> (rw_Write (Plain (''ok'' @ [CHR 0x0A])) new_response, RefreshMetrics c)
           | TOpMetrics \<Rightarrow> (scrape (co_metrics c) new_response, c)))"

section \<open>The egress sidecar\<close>

definition egress_main ::
  "(string \<Rightarrow> (string, url) result) \<Rightarrow> (string \<Rightarrow> (string, bool) result) \<Rightarrow> (string \<Rightarrow> string) \<Rightarrow> (string \<times> string, Client) result" where
  "egress_main parse socks env =
     (case Proxy_Config.Load parse env of
        Inl e \<Rightarrow> Inl (''config_load_failed'', e)
      | Inr cfg \<Rightarrow> (case NewClient parse socks cfg of Inl e \<Rightarrow> Inl (''client_init_failed'', e) | Inr c \<Rightarrow> Inr c))"

text \<open>The server object and the HTTP servers around its routers.\<close>

record egress_Server =
  es_cfg :: Proxy_Config.Config
  es_client :: Client
  es_metrics :: Metrics

definition egress_server_New :: "Proxy_Config.Config \<Rightarrow> Client \<Rightarrow> Metrics \<Rightarrow> egress_Server" where
  "egress_server_New cfg client m = \<lparr>es_cfg = cfg, es_client = client, es_metrics = m\<rparr>"

definition egress_servers :: "Proxy_Config.Config \<Rightarrow> http_Server list" where
  "egress_servers cfg =
     [\<lparr>hs_Name = ''api'', hs_Addr = pc_APIListenAddr cfg, hs_ReadHeaderTimeout = 5 * Second\<rparr>,
      \<lparr>hs_Name = ''metrics'', hs_Addr = pc_MetricsListenAddr cfg, hs_ReadHeaderTimeout = 5 * Second\<rparr>]"

section \<open>What a start establishes\<close>

lemma tunnel_main_parts:
  assumes "tunnel_main E fs = (Inr d, fs')"
  obtains store where
    "Tunnel_Config.Load (be_U E) (be_lookup E) (be_environ E) = Inr (da_cfg d)"
    "Open (be_bolt E) (be_codec E) (be_now E) (c_DataPortMin (da_cfg d)) (c_DataPortMax (da_cfg d))
       (be_open E (filepath_Join (c_StateDir (da_cfg d)) ''leases.db'')) = Inr store"
    "New (be_key E) (sshd_config (da_cfg d)) fs = (Inr (da_server d), fs')"
    "da_api d = control_New (NewCoordinator store (sv_manager (da_server d)))"
  using assms
  by (auto simp: tunnel_main_def split: sum.splits option.splits prod.splits)

text \<open>Neither HTTP server of the daemon binds a wildcard address or waits for request headers forever.\<close>

lemma tunnel_servers_internal:
  assumes "Tunnel_Config.Load U lookup env = Inr cfg" "srv \<in> set (tunnel_servers cfg)"
  shows "internal_bind lookup (hs_Addr srv) \<and> 0 < hs_ReadHeaderTimeout srv"
proof -
  have "Tunnel_Config.config_ok lookup cfg" using load_parts [OF assms(1)] by blast
  then show ?thesis using assms(2) by (auto simp: tunnel_servers_def Tunnel_Config.config_ok_def Second_def)
qed

lemma New_server:
  assumes "New K cfg fs = (Inr srv, fs')"
  shows "sv_manager srv = NewManager (sc_MaxVisitorConnsPerLease cfg)"
    "sv_limiter srv = newAuthLimiter (sc_AuthAttemptsPerWindow cfg) (sc_AuthWindow cfg)"
    "loadOrCreateHostKey K (sc_HostKeyPath cfg) fs = (Inr (sv_signer srv), fs')"
  using assms by (auto simp: New_def split: prod.splits sum.splits)

lemma NewCoordinator_sel [simp]:
  "co_store (NewCoordinator s m) = s" "co_manager (NewCoordinator s m) = m"
  by (simp_all add: NewCoordinator_def)

lemma egress_main_ok:
  assumes "egress_main parse socks env = Inr c"
  shows "Proxy_Config.config_ok (cl_cfg c) \<and> NewClient parse socks (cl_cfg c) = Inr c"
proof -
  obtain cfg where cfg: "Proxy_Config.Load parse env = Inr cfg" "NewClient parse socks cfg = Inr c"
    using assms by (auto simp: egress_main_def split: sum.splits)
  then have "cl_cfg c = cfg" by (auto simp: NewClient_def Let_def split: sum.splits)
  then show ?thesis using cfg Load_ok by simp
qed

section \<open>The sweeper\<close>

definition ticks :: "'db sweep_event list \<Rightarrow> 'db ext list" where
  "ticks es = List.map_filter (\<lambda>e. case e of Tick x \<Rightarrow> Some x | SweepDone \<Rightarrow> None) (takeWhile (\<lambda>e. e \<noteq> SweepDone) es)"

lemma ticks_simps [simp]: "ticks [] = []" "ticks (SweepDone # es) = []" "ticks (Tick x # es) = x # ticks es"
  by (simp_all add: ticks_def List.map_filter_def)

lemma expired_at_cong: "Get s' i = Get s i \<Longrightarrow> expired_at t s' i = expired_at t s i"
  by (simp add: expired_at_def)

text \<open>
  Over all its ticks the sweeper takes every lease that had expired at one of them out of the
  manager, whatever the database answered, and touches no other lease.
\<close>

lemma sweeper_run:
  assumes "store_inv B J (co_store c)" "\<And>x. x \<in> set (ticks es) \<Longrightarrow> x_bolt x = B \<and> range_order (x_rng x)" "bolt_ok B"
  shows "store_inv B J (co_store (runSweeper es c))
    \<and> (if \<exists>x \<in> set (ticks es). expired_at (x_now x) (co_store c) i
       then gm_get (m_leases (co_manager (runSweeper es c))) i = None
       else Get (co_store (runSweeper es c)) i = Get (co_store c) i
         \<and> gm_get (m_leases (co_manager (runSweeper es c))) i = gm_get (m_leases (co_manager c)) i)"
  using assms(1,2)
proof (induction es c rule: runSweeper.induct)
  case (3 x es c)
  obtain n c1 where sw: "SweepExpired x c = (n, c1)" by fastforce
  have nxt: "snd (SweepExpired x c) = c1" by (simp add: sw)
  have x: "x_bolt x = B" "range_order (x_rng x)" using 3(3) by simp_all
  note s = sweep_spec [of x J c n c1, unfolded x(1), OF 3(2) assms(3) x(2) sw]
  have ih: "store_inv B J (co_store (runSweeper es c1))
    \<and> (if \<exists>y \<in> set (ticks es). expired_at (x_now y) (co_store c1) i
       then gm_get (m_leases (co_manager (runSweeper es c1))) i = None
       else Get (co_store (runSweeper es c1)) i = Get (co_store c1) i
         \<and> gm_get (m_leases (co_manager (runSweeper es c1))) i = gm_get (m_leases (co_manager c1)) i)"
    using 3(1) [unfolded nxt, OF conjunct1 [OF s]] 3(3) by simp
  show ?case
  proof (cases "expired_at (x_now x) (co_store c) i")
    case True
    then have "gm_get (m_leases (co_manager c1)) i = None" using s by presburger
    then have "gm_get (m_leases (co_manager (runSweeper es c1))) i = None" using ih by (auto split: if_splits)
    then show ?thesis using ih True nxt by auto
  next
    case False
    then have same: "Get (co_store c1) i = Get (co_store c) i"
      "gm_get (m_leases (co_manager c1)) i = gm_get (m_leases (co_manager c)) i" using s by presburger+
    then show ?thesis using ih False nxt expired_at_cong [OF same(1)] by auto
  qed
qed auto

end
