(* ===== verification/Shutdown.thy ===== *)
theory Shutdown
  imports Daemon
begin

text \<open>
  How the two programs end (\<open>src/cmd/hyrule-tunnel-proxy/main.go\<close> and
  \<open>src/cmd/hyrule-network-proxy/main.go\<close>): the goroutines \<open>main\<close> has started report to it, a
  signal or a failure cancels the context, and \<open>main\<close> shuts the servers down, waiting for active
  connections at most as long as the context of the shutdown allows, and returns. A process is advanced one event at a time, in whatever order the events come. The background
  loops of the tunnel daemon stop with the context.
\<close>

section \<open>Processes\<close>

text \<open>How a process ended: with an exit code, or by a signal nobody waits for any more.\<close>

datatype ending = Exit int | Killed

text \<open>What \<open>main\<close> does next once the goroutines run: wait, its shutdown calls, the deferred calls.\<close>

datatype main_pc = MWait | MShutFirst | MShutSecond | MDefers | MEnded ending

text \<open>
  \<open>pr_done\<close>: the context is done; \<open>pr_notify\<close>: signals are delivered to it (until
  \<open>stop\<close>); \<open>pr_closed\<close>: what has been shut down, in order; \<open>pr_now\<close>: the clock;
  \<open>pr_deadline\<close>: the deadline of the context the shutdown calls share, when it has one.
\<close>

record process =
  pr_pc :: main_pc
  pr_done :: bool
  pr_notify :: bool
  pr_closed :: "string list"
  pr_now :: duration
  pr_deadline :: "duration option"

text \<open>
  The events: a signal, the return of the SSH server, of the STUN responder and of an HTTP
  server with the error they return, time that passes, and a turn of \<open>main\<close>. A turn says whether
  the HTTP server \<open>main\<close> is shutting down, if it is, has no active connection left.
\<close>

datatype proc_event = Signal | SSHReturned "string option" | STUNReturned "string option"
  | HTTPReturned string "string option" | Elapse nat | MainRuns bool

definition ErrServerClosed :: string where "ErrServerClosed = ''http: Server closed''"

definition proc_stop :: "process \<Rightarrow> process" where
  "proc_stop p = p\<lparr>pr_done := True, pr_notify := False\<rparr>"

definition on_signal :: "process \<Rightarrow> process" where
  "on_signal p = (if pr_notify p then p\<lparr>pr_done := True\<rparr> else p\<lparr>pr_pc := MEnded Killed\<rparr>)"

definition proc_elapse :: "nat \<Rightarrow> process \<Rightarrow> process" where
  "proc_elapse d p = p\<lparr>pr_now := pr_now p + int d\<rparr>"

definition shut :: "string \<Rightarrow> main_pc \<Rightarrow> process \<Rightarrow> process" where
  "shut what pc p = p\<lparr>pr_closed := pr_closed p @ [what], pr_pc := pc\<rparr>"

text \<open>
  \<open>context.WithTimeout(context.Background(), 10*time.Second)\<close>, and a call of \<open>Shutdown\<close> with it: the call
  waits until the server has no active connection or the context is done.
\<close>

definition shutdown_context :: "process \<Rightarrow> process" where
  "shutdown_context p = p\<lparr>pr_deadline := Some (pr_now p + 10 * Second)\<rparr>"

definition context_done :: "process \<Rightarrow> bool" where
  "context_done p = (case pr_deadline p of None \<Rightarrow> False | Some t \<Rightarrow> t \<le> pr_now p)"

definition server_Shutdown :: "bool \<Rightarrow> string \<Rightarrow> main_pc \<Rightarrow> process \<Rightarrow> process" where
  "server_Shutdown idle what pc p = (if idle \<or> context_done p then shut what pc p else p)"

definition proc_ended :: "process \<Rightarrow> bool" where
  "proc_ended p \<longleftrightarrow> (\<exists>e. pr_pc p = MEnded e)"

subsection \<open>The tunnel daemon\<close>

definition serveHTTP :: "string \<Rightarrow> string option \<Rightarrow> process \<Rightarrow> process" where
  "serveHTTP name err p =
     (if err \<noteq> None \<and> err \<noteq> Some ErrServerClosed then p\<lparr>pr_pc := MEnded (Exit 1)\<rparr> else p)"

text \<open>Both goroutines do the same with an error: log it and stop.\<close>

definition server_goroutine :: "string option \<Rightarrow> process \<Rightarrow> process" where
  "server_goroutine err p = (if err \<noteq> None then proc_stop p else p)"

definition tunnel_main_turn :: "bool \<Rightarrow> process \<Rightarrow> process" where
  "tunnel_main_turn idle p =
     (case pr_pc p of
        MWait \<Rightarrow> if pr_done p then (shutdown_context p)\<lparr>pr_pc := MShutFirst\<rparr> else p
      | MShutFirst \<Rightarrow> server_Shutdown idle ''control'' MShutSecond p
      | MShutSecond \<Rightarrow> server_Shutdown idle ''metrics'' MDefers p
      | MDefers \<Rightarrow> shut ''store'' (MEnded (Exit 0)) (proc_stop p)
      | MEnded e \<Rightarrow> p)"

fun tunnel_event :: "proc_event \<Rightarrow> process \<Rightarrow> process" where
  "tunnel_event Signal p = on_signal p"
| "tunnel_event (SSHReturned err) p = server_goroutine err p"
| "tunnel_event (STUNReturned err) p = server_goroutine err p"
| "tunnel_event (HTTPReturned name err) p = serveHTTP name err p"
| "tunnel_event (Elapse d) p = proc_elapse d p"
| "tunnel_event (MainRuns idle) p = tunnel_main_turn idle p"

text \<open>Nothing happens in a process that has ended.\<close>

definition tunnel_process :: "proc_event \<Rightarrow> process \<Rightarrow> process" where
  "tunnel_process e p = (if proc_ended p then p else tunnel_event e p)"

definition proc_started :: process where
  "proc_started = \<lparr>pr_pc = MWait, pr_done = False, pr_notify = True, pr_closed = [], pr_now = 0, pr_deadline = None\<rparr>"

subsection \<open>The egress sidecar\<close>

text \<open>It has no SSH server and no STUN responder; \<open>stop\<close> follows the wait.\<close>

definition egress_serve :: "string \<Rightarrow> string option \<Rightarrow> process \<Rightarrow> process" where
  "egress_serve name err p =
     (if err \<noteq> None \<and> err \<noteq> Some ErrServerClosed then p\<lparr>pr_pc := MEnded (Exit 1)\<rparr> else p)"

definition egress_main_turn :: "bool \<Rightarrow> process \<Rightarrow> process" where
  "egress_main_turn idle p =
     (case pr_pc p of
        MWait \<Rightarrow> if pr_done p then (shutdown_context (proc_stop p))\<lparr>pr_pc := MShutFirst\<rparr> else p
      | MShutFirst \<Rightarrow> server_Shutdown idle ''api'' MShutSecond p
      | MShutSecond \<Rightarrow> server_Shutdown idle ''metrics'' MDefers p
      | MDefers \<Rightarrow> p\<lparr>pr_pc := MEnded (Exit 0)\<rparr>
      | MEnded e \<Rightarrow> p)"

fun egress_event :: "proc_event \<Rightarrow> process \<Rightarrow> process" where
  "egress_event Signal p = on_signal p"
| "egress_event (HTTPReturned name err) p = egress_serve name err p"
| "egress_event (Elapse d) p = proc_elapse d p"
| "egress_event (MainRuns idle) p = egress_main_turn idle p"
| "egress_event _ p = p"

definition egress_process :: "proc_event \<Rightarrow> process \<Rightarrow> process" where
  "egress_process e p = (if proc_ended p then p else egress_event e p)"

section \<open>Processes that end\<close>

text \<open>
  The contract of a process that can be stopped: it ends for good; once it is stopping it stays
  so; no event moves a stopping process away from its end; a \<open>prompt\<close> turn of \<open>main\<close> brings it nearer,
  any \<open>turn\<close> does when it is \<open>free\<close>, that is when nothing it calls can wait any longer; and only some events make
  it stop or end.
\<close>

locale stoppable =
  fixes step :: "'e \<Rightarrow> 'p \<Rightarrow> 'p" and ended stopping free :: "'p \<Rightarrow> bool" and turn prompt :: "'e \<Rightarrow> bool"
    and togo :: "'p \<Rightarrow> nat" and cause :: "'e \<Rightarrow> bool"
  assumes ended_law: "ended p \<Longrightarrow> step e p = p"
    and stopping_law: "stopping p \<Longrightarrow> stopping (step e p)"
    and near_law: "stopping p \<Longrightarrow> togo (step e p) \<le> togo p"
    and prompt_law: "stopping p \<Longrightarrow> \<not> ended p \<Longrightarrow> prompt e \<Longrightarrow> togo (step e p) < togo p"
    and turn_law: "stopping p \<Longrightarrow> \<not> ended p \<Longrightarrow> free p \<Longrightarrow> turn e \<Longrightarrow> togo (step e p) < togo p"
    and free_law: "free p \<Longrightarrow> free (step e p)"
    and end_law: "togo p = 0 \<longleftrightarrow> ended p"
    and start_law: "cause e \<Longrightarrow> stopping (step e p)"
    and cause_law: "\<not> cause e \<Longrightarrow> \<not> stopping p \<Longrightarrow> \<not> ended p \<Longrightarrow> \<not> stopping (step e p) \<and> \<not> ended (step e p)"
begin

lemma run_ended: "ended p \<Longrightarrow> fold step es p = p"
  by (induction es arbitrary: p) (simp_all add: ended_law)

text \<open>As many events that bring it nearer as there is left to do end it, whatever comes between them.\<close>

lemma run_ends:
  assumes "stopping p" "G p" "togo p \<le> length (filter Q es)"
    "\<And>p e. G p \<Longrightarrow> G (step e p)" "\<And>p e. stopping p \<Longrightarrow> \<not> ended p \<Longrightarrow> G p \<Longrightarrow> Q e \<Longrightarrow> togo (step e p) < togo p"
  shows "ended (fold step es p)"
  using assms(1-3)
proof (induction es arbitrary: p)
  case Nil
  then show ?case using end_law by simp
next
  case (Cons e es)
  show ?case
  proof (cases "ended p")
    case True
    then show ?thesis using run_ended by (simp add: ended_law)
  next
    case False
    have "togo (step e p) \<le> length (filter Q es)"
      using Cons.prems near_law [of p e] assms(5) [OF Cons.prems(1) False Cons.prems(2), of e] by (auto split: if_splits)
    then show ?thesis using Cons.IH stopping_law [OF Cons.prems(1)] assms(4) [OF Cons.prems(2)] by simp
  qed
qed

lemma run_stopping: "list_ex cause es \<or> stopping p \<Longrightarrow> stopping (fold step es p)"
  by (induction es arbitrary: p) (auto simp: stopping_law start_law)

text \<open>Enough prompt turns, without waiting for anything.\<close>

lemma run_prompt:
  assumes "list_ex cause xs" "togo (fold step xs p) \<le> length (filter prompt ys)"
  shows "ended (fold step (xs @ ys) p)"
  using run_ends [where G = "\<lambda>_. True" and Q = prompt and es = ys, OF run_stopping] assms prompt_law by simp

lemma run_idle:
  assumes "\<not> stopping p" "\<not> ended p" "list_all (\<lambda>e. \<not> cause e) es"
  shows "\<not> stopping (fold step es p) \<and> \<not> ended (fold step es p)"
  using assms by (induction es arbitrary: p) (simp_all add: cause_law)

end

text \<open>
  A stop with a grace period: its first turn begins it, and from then on what it waits for is over by a
  deadline, at most \<open>grace\<close> away.
\<close>

locale graceful = stoppable step ended stopping free turn prompt togo cause
  for step :: "'e \<Rightarrow> 'p \<Rightarrow> 'p" and ended stopping free :: "'p \<Rightarrow> bool" and turn prompt :: "'e \<Rightarrow> bool"
    and togo :: "'p \<Rightarrow> nat" and cause :: "'e \<Rightarrow> bool" +
  fixes began :: "'p \<Rightarrow> bool" and now :: "'p \<Rightarrow> int" and tick :: "'e \<Rightarrow> int" and due_by :: "int \<Rightarrow> 'p \<Rightarrow> bool"
    and wf :: "'p \<Rightarrow> bool" and grace :: int
  assumes begin_law: "stopping p \<Longrightarrow> turn e \<Longrightarrow> began (step e p)"
    and began_law: "began p \<Longrightarrow> began (step e p)"
    and now_law: "ended (step e p) \<or> now (step e p) = now p + tick e"
    and due_law: "began p \<Longrightarrow> due_by t p \<Longrightarrow> ended (step e p) \<or> due_by t (step e p)"
    and due_mono: "due_by t p \<Longrightarrow> t \<le> u \<Longrightarrow> due_by u p"
    and due_free: "began p \<Longrightarrow> due_by (now p) p \<Longrightarrow> free p"
    and wf_law: "wf p \<Longrightarrow> wf (step e p)"
    and wf_due: "wf p \<Longrightarrow> began p \<Longrightarrow> ended p \<or> due_by (now p + grace) p"
begin

definition elapsed :: "'e list \<Rightarrow> int" where "elapsed es = sum_list (map tick es)"

lemma run_began: "began p \<or> stopping p \<and> list_ex turn es \<Longrightarrow> began (fold step es p)"
proof (induction es arbitrary: p)
  case (Cons e es)
  then show ?case using begin_law began_law stopping_law by (cases "turn e") auto
qed auto

lemma run_wf: "wf p \<Longrightarrow> wf (fold step es p)"
  by (induction es arbitrary: p) (simp_all add: wf_law)

lemma run_due:
  "began p \<Longrightarrow> due_by t p \<Longrightarrow> ended (fold step es p) \<or> due_by t (fold step es p) \<and> now (fold step es p) = now p + elapsed es"
proof (induction es arbitrary: p)
  case (Cons e es)
  show ?case
  proof (cases "ended (step e p)")
    case True
    then show ?thesis using run_ended by simp
  next
    case False
    then have "due_by t (step e p)" "now (step e p) = now p + tick e" using due_law Cons.prems now_law by blast+
    then show ?thesis using Cons.IH [of "step e p"] began_law Cons.prems(1) by (simp add: elapsed_def add.assoc)
  qed
qed (simp add: elapsed_def)

text \<open>A cause, a turn, the grace period, and as many turns as are left: the process has ended.\<close>

lemma run_terminates:
  assumes "wf p" "list_ex cause xs" "list_ex turn us" "grace \<le> elapsed vs"
    "\<And>q. began q \<Longrightarrow> togo q \<le> length (filter turn ws)"
  shows "ended (fold step (xs @ us @ vs @ ws) p)"
proof -
  define p2 where "p2 = fold step us (fold step xs p)"
  have st: "stopping (fold step xs p)" using assms(2) run_stopping by blast
  then have b2: "began p2" unfolding p2_def using run_began assms(3) by blast
  have "wf p2" unfolding p2_def using run_wf assms(1) by blast
  then have d2: "ended p2 \<or> due_by (now p2 + grace) p2" using wf_due b2 by blast
  define p3 where "p3 = fold step vs p2"
  have "stopping p2" unfolding p2_def by (rule run_stopping) (simp add: st)
  then have b3: "began p3" "stopping p3"
    unfolding p3_def using run_began [of p2 vs] run_stopping [of vs p2] b2 by blast+
  have "ended p3 \<or> free p3"
  proof (cases "ended p2")
    case True
    then show ?thesis unfolding p3_def using run_ended by simp
  next
    case False
    then have "ended p3 \<or> due_by (now p2 + grace) p3 \<and> now p3 = now p2 + elapsed vs"
      using d2 run_due [OF b2] unfolding p3_def by blast
    then show ?thesis using due_mono [of "now p2 + grace" p3 "now p3"] due_free [OF b3(1)] assms(4) by auto
  qed
  then have "ended (fold step ws p3)"
    using run_ended [of p3 ws] run_ends [where G = free and Q = turn and es = ws, OF b3(2) _ assms(5) [OF b3(1)] free_law turn_law]
    by auto
  then show ?thesis by (simp add: p3_def p2_def)
qed

end

text \<open>Turns of \<open>main\<close> left, counted from the wait.\<close>

fun turns_left :: "main_pc \<Rightarrow> nat" where
  "turns_left MWait = 4"
| "turns_left MShutFirst = 3"
| "turns_left MShutSecond = 2"
| "turns_left MDefers = 1"
| "turns_left (MEnded e) = 0"

definition proc_stopping :: "process \<Rightarrow> bool" where
  "proc_stopping p \<longleftrightarrow> pr_done p \<or> pr_pc p \<noteq> MWait"

text \<open>The shutdown has begun, its context is done; and the context has a deadline within ten seconds.\<close>

definition proc_began :: "process \<Rightarrow> bool" where
  "proc_began p \<longleftrightarrow> pr_pc p \<noteq> MWait"

definition proc_free :: "process \<Rightarrow> bool" where
  "proc_free p \<longleftrightarrow> proc_ended p \<or> proc_began p \<and> context_done p"

definition proc_due :: "duration \<Rightarrow> process \<Rightarrow> bool" where
  "proc_due t p = (case pr_deadline p of None \<Rightarrow> False | Some d \<Rightarrow> d \<le> t)"

definition deadline_set :: "process \<Rightarrow> bool" where
  "deadline_set p \<longleftrightarrow> (proc_began p \<longrightarrow> proc_ended p \<or> proc_due (pr_now p + 10 * Second) p)"

fun is_turn :: "proc_event \<Rightarrow> bool" where
  "is_turn (MainRuns idle) = True"
| "is_turn _ = False"

fun prompt_turn :: "proc_event \<Rightarrow> bool" where
  "prompt_turn (MainRuns idle) = idle"
| "prompt_turn _ = False"

fun event_time :: "proc_event \<Rightarrow> duration" where
  "event_time (Elapse d) = int d"
| "event_time _ = 0"

fun stop_cause :: "proc_event \<Rightarrow> bool" where
  "stop_cause Signal = True"
| "stop_cause (SSHReturned err) = (err \<noteq> None)"
| "stop_cause (STUNReturned err) = (err \<noteq> None)"
| "stop_cause (HTTPReturned name err) = (err \<noteq> None \<and> err \<noteq> Some ErrServerClosed)"
| "stop_cause (Elapse d) = False"
| "stop_cause (MainRuns idle) = False"

text \<open>The sidecar starts no SSH server and no STUN responder.\<close>

definition egress_cause :: "proc_event \<Rightarrow> bool" where
  "egress_cause e \<longleftrightarrow> stop_cause e \<and> (case e of SSHReturned _ \<Rightarrow> False | STUNReturned _ \<Rightarrow> False | _ \<Rightarrow> True)"

lemmas proc_defs = tunnel_process_def egress_process_def tunnel_main_turn_def egress_main_turn_def serveHTTP_def
  egress_serve_def server_goroutine_def on_signal_def proc_stop_def shut_def proc_ended_def proc_stopping_def
  proc_elapse_def server_Shutdown_def shutdown_context_def context_done_def proc_began_def proc_free_def proc_due_def
  deadline_set_def

lemma turns_ended: "(turns_left \<circ> pr_pc) p = 0 \<longleftrightarrow> proc_ended p"
  by (cases "pr_pc p") (auto simp: proc_ended_def)

interpretation tunnel_proc: graceful tunnel_process proc_ended proc_stopping proc_free is_turn prompt_turn
  "turns_left \<circ> pr_pc" stop_cause proc_began pr_now event_time proc_due deadline_set "10 * Second"
proof unfold_locales
  fix p :: process and e :: proc_event
  show "proc_stopping (tunnel_process e p)" if "stop_cause e"
    using that by (cases e; cases "pr_pc p") (auto simp: proc_defs)
  show "(turns_left \<circ> pr_pc) p = 0 \<longleftrightarrow> proc_ended p" by (rule turns_ended)
  show "proc_free (tunnel_process e p)" if "proc_free p"
    using that by (cases e; cases "pr_pc p") (auto simp: proc_defs split: option.splits)
  show "proc_ended (tunnel_process e p) \<or> pr_now (tunnel_process e p) = pr_now p + event_time e"
    by (cases e; cases "pr_pc p") (auto simp: proc_defs)
  show "deadline_set (tunnel_process e p)" if "deadline_set p"
    using that by (cases e; cases "pr_pc p") (auto simp: proc_defs split: option.splits)
  assume st: "proc_stopping p"
  then show "proc_stopping (tunnel_process e p)" by (cases e; cases "pr_pc p") (auto simp: proc_defs)
  from st show "(turns_left \<circ> pr_pc) (tunnel_process e p) \<le> (turns_left \<circ> pr_pc) p" by (cases e; cases "pr_pc p") (auto simp: proc_defs)
  show "(turns_left \<circ> pr_pc) (tunnel_process e p) < (turns_left \<circ> pr_pc) p" if "\<not> proc_ended p" "prompt_turn e"
    using st that by (cases e; cases "pr_pc p") (auto simp: proc_defs)
  show "(turns_left \<circ> pr_pc) (tunnel_process e p) < (turns_left \<circ> pr_pc) p" if "\<not> proc_ended p" "proc_free p" "is_turn e"
    using st that by (cases e; cases "pr_pc p") (auto simp: proc_defs)
  show "proc_began (tunnel_process e p)" if "is_turn e"
    using st that by (cases e; cases "pr_pc p") (auto simp: proc_defs)
next
  fix p :: process and e :: proc_event and t :: duration
  assume b: "proc_began p"
  then show "proc_began (tunnel_process e p)" by (cases e; cases "pr_pc p") (auto simp: proc_defs)
  show "proc_ended (tunnel_process e p) \<or> proc_due t (tunnel_process e p)" if "proc_due t p"
    using b that by (cases e; cases "pr_pc p") (auto simp: proc_defs split: option.splits)
  show "proc_free p" if "proc_due (pr_now p) p" using b that by (auto simp: proc_defs)
next
  fix p :: process and e :: proc_event
  show "\<not> proc_stopping (tunnel_process e p) \<and> \<not> proc_ended (tunnel_process e p)"
    if "\<not> stop_cause e" "\<not> proc_stopping p" "\<not> proc_ended p"
    using that by (cases e) (auto simp: proc_defs)
qed (auto simp: tunnel_process_def proc_due_def deadline_set_def split: option.splits)

interpretation egress_proc: graceful egress_process proc_ended proc_stopping proc_free is_turn prompt_turn
  "turns_left \<circ> pr_pc" egress_cause proc_began pr_now event_time proc_due deadline_set "10 * Second"
proof unfold_locales
  fix p :: process and e :: proc_event
  show "proc_stopping (egress_process e p)" if "egress_cause e"
    using that by (cases e; cases "pr_pc p") (auto simp: proc_defs egress_cause_def)
  show "(turns_left \<circ> pr_pc) p = 0 \<longleftrightarrow> proc_ended p" by (rule turns_ended)
  show "proc_free (egress_process e p)" if "proc_free p"
    using that by (cases e; cases "pr_pc p") (auto simp: proc_defs split: option.splits)
  show "proc_ended (egress_process e p) \<or> pr_now (egress_process e p) = pr_now p + event_time e"
    by (cases e; cases "pr_pc p") (auto simp: proc_defs)
  show "deadline_set (egress_process e p)" if "deadline_set p"
    using that by (cases e; cases "pr_pc p") (auto simp: proc_defs split: option.splits)
  assume st: "proc_stopping p"
  then show "proc_stopping (egress_process e p)" by (cases e; cases "pr_pc p") (auto simp: proc_defs)
  from st show "(turns_left \<circ> pr_pc) (egress_process e p) \<le> (turns_left \<circ> pr_pc) p" by (cases e; cases "pr_pc p") (auto simp: proc_defs)
  show "(turns_left \<circ> pr_pc) (egress_process e p) < (turns_left \<circ> pr_pc) p" if "\<not> proc_ended p" "prompt_turn e"
    using st that by (cases e; cases "pr_pc p") (auto simp: proc_defs)
  show "(turns_left \<circ> pr_pc) (egress_process e p) < (turns_left \<circ> pr_pc) p" if "\<not> proc_ended p" "proc_free p" "is_turn e"
    using st that by (cases e; cases "pr_pc p") (auto simp: proc_defs)
  show "proc_began (egress_process e p)" if "is_turn e"
    using st that by (cases e; cases "pr_pc p") (auto simp: proc_defs)
next
  fix p :: process and e :: proc_event and t :: duration
  assume b: "proc_began p"
  then show "proc_began (egress_process e p)" by (cases e; cases "pr_pc p") (auto simp: proc_defs)
  show "proc_ended (egress_process e p) \<or> proc_due t (egress_process e p)" if "proc_due t p"
    using b that by (cases e; cases "pr_pc p") (auto simp: proc_defs split: option.splits)
  show "proc_free p" if "proc_due (pr_now p) p" using b that by (auto simp: proc_defs)
next
  fix p :: process and e :: proc_event
  show "\<not> proc_stopping (egress_process e p) \<and> \<not> proc_ended (egress_process e p)"
    if "\<not> egress_cause e" "\<not> proc_stopping p" "\<not> proc_ended p"
    using that by (cases e) (auto simp: proc_defs egress_cause_def)
qed (auto simp: egress_process_def proc_due_def deadline_set_def split: option.splits)

section \<open>How they end\<close>

lemma turns_bound: "turns_left pc \<le> 4" "pc \<noteq> MWait \<Longrightarrow> turns_left pc \<le> 3"
  by (cases pc; simp)+

text \<open>What has been shut down at each point, and why a process ended other than by returning.\<close>

definition proc_ok :: "string list \<Rightarrow> string list \<Rightarrow> proc_event list \<Rightarrow> process \<Rightarrow> bool" where
  "proc_ok servers rest es p =
     (case pr_pc p of
        MWait \<Rightarrow> pr_closed p = []
      | MShutFirst \<Rightarrow> pr_closed p = []
      | MShutSecond \<Rightarrow> pr_closed p = take 1 servers
      | MDefers \<Rightarrow> pr_closed p = servers
      | MEnded (Exit n) \<Rightarrow> n = 0 \<and> pr_closed p = servers @ rest
          \<or> n = 1 \<and> (\<exists>name e. HTTPReturned name (Some e) \<in> set es \<and> e \<noteq> ErrServerClosed)
      | MEnded Killed \<Rightarrow> Signal \<in> set es)"

lemma tunnel_proc_ok: "proc_ok [''control'', ''metrics''] [''store''] es (fold tunnel_process es proc_started)"
proof (induction es rule: rev_induct)
  case (snoc e es)
  have "proc_ok [''control'', ''metrics''] [''store''] (es @ [e]) (tunnel_process e p)"
    if "proc_ok [''control'', ''metrics''] [''store''] es p" for p
    using that by (cases e; cases "pr_pc p") (auto simp: proc_ok_def proc_defs split: ending.splits)
  then show ?case using snoc by simp
qed (simp add: proc_ok_def proc_started_def)

lemma egress_proc_ok: "proc_ok [''api'', ''metrics''] [] es (fold egress_process es proc_started)"
proof (induction es rule: rev_induct)
  case (snoc e es)
  have "proc_ok [''api'', ''metrics''] [] (es @ [e]) (egress_process e p)" if "proc_ok [''api'', ''metrics''] [] es p" for p
    using that by (cases e; cases "pr_pc p") (auto simp: proc_ok_def proc_defs split: ending.splits)
  then show ?case using snoc by simp
qed (simp add: proc_ok_def proc_started_def)

text \<open>A run in which a cause is followed by a turn of \<open>main\<close>, ten seconds and three more turns; or by four prompt turns.\<close>

definition stop_run :: "(proc_event \<Rightarrow> bool) \<Rightarrow> proc_event list \<Rightarrow> bool" where
  "stop_run cause es \<longleftrightarrow>
     (\<exists>xs us vs ws. es = xs @ us @ vs @ ws \<and> list_ex cause xs \<and> list_ex is_turn us
        \<and> 10 * Second \<le> sum_list (map event_time vs) \<and> 3 \<le> length (filter is_turn ws))
     \<or> (\<exists>xs ys. es = xs @ ys \<and> list_ex cause xs \<and> 4 \<le> length (filter prompt_turn ys))"

lemma deadline_started: "deadline_set proc_started" by (simp add: proc_started_def proc_defs)

lemma stop_runs_end:
  "stop_run stop_cause es \<Longrightarrow> proc_ended (fold tunnel_process es proc_started)"
  "stop_run egress_cause es \<Longrightarrow> proc_ended (fold egress_process es proc_started)"
proof -
  have three: "(turns_left \<circ> pr_pc) q \<le> k" if "3 \<le> k" "proc_began q" for q k
    using turns_bound(2) [of "pr_pc q"] that by (simp add: proc_began_def)
  have four: "(turns_left \<circ> pr_pc) q \<le> k" if "4 \<le> k" for q k using turns_bound(1) [of "pr_pc q"] that by simp
  show "stop_run stop_cause es \<Longrightarrow> proc_ended (fold tunnel_process es proc_started)"
    unfolding stop_run_def
    using tunnel_proc.run_terminates [OF deadline_started _ _ _ three] tunnel_proc.run_prompt [OF _ four]
    by (auto simp: tunnel_proc.elapsed_def simp del: fold_append)
  show "stop_run egress_cause es \<Longrightarrow> proc_ended (fold egress_process es proc_started)"
    unfolding stop_run_def
    using egress_proc.run_terminates [OF deadline_started _ _ _ three] egress_proc.run_prompt [OF _ four]
    by (auto simp: egress_proc.elapsed_def simp del: fold_append)
qed

text \<open>
  (C39) Both programs end when they should. After a signal or the failure of a server, and a turn of
  \<open>main\<close> that sees it, ten seconds and three more turns of \<open>main\<close> end the process, however many connections
  stay active and whatever else happens in between: the two shutdown calls share one context of ten seconds.
  If the servers have no active connection, four turns of \<open>main\<close> are enough, without waiting. Without such a
  cause neither program leaves its wait. A process that returns has shut its HTTP servers down, in order,
  and the tunnel daemon has then closed its store; any other exit code is 1 and due to an HTTP server that
  failed.
\<close>

theorem processes_terminate:
  "(stop_run stop_cause xs \<longrightarrow> proc_ended (fold tunnel_process xs proc_started))
   \<and> (stop_run egress_cause xs \<longrightarrow> proc_ended (fold egress_process xs proc_started))
   \<and> (list_all (\<lambda>e. \<not> stop_cause e) xs \<longrightarrow>
      pr_pc (fold tunnel_process xs proc_started) = MWait \<and> pr_pc (fold egress_process xs proc_started) = MWait)
   \<and> (pr_pc (fold tunnel_process xs proc_started) = MEnded (Exit n) \<longrightarrow>
      n = 0 \<and> pr_closed (fold tunnel_process xs proc_started) = [''control'', ''metrics'', ''store'']
      \<or> n = 1 \<and> (\<exists>name e. HTTPReturned name (Some e) \<in> set xs \<and> e \<noteq> ErrServerClosed))
   \<and> (pr_pc (fold egress_process xs proc_started) = MEnded (Exit n) \<longrightarrow>
      n = 0 \<and> pr_closed (fold egress_process xs proc_started) = [''api'', ''metrics'']
      \<or> n = 1 \<and> (\<exists>name e. HTTPReturned name (Some e) \<in> set xs \<and> e \<noteq> ErrServerClosed))"
proof -
  have fresh: "\<not> proc_stopping proc_started" "\<not> proc_ended proc_started" by (simp_all add: proc_started_def proc_defs)
  have "list_all (\<lambda>e. \<not> egress_cause e) xs" if "list_all (\<lambda>e. \<not> stop_cause e) xs"
    using that by (auto simp: list_all_iff egress_cause_def)
  then have idle: "list_all (\<lambda>e. \<not> stop_cause e) xs \<Longrightarrow>
      pr_pc (fold tunnel_process xs proc_started) = MWait \<and> pr_pc (fold egress_process xs proc_started) = MWait"
    using tunnel_proc.run_idle [OF fresh] egress_proc.run_idle [OF fresh] by (simp add: proc_stopping_def)
  show ?thesis
    using stop_runs_end [of xs] idle tunnel_proc_ok [of xs] egress_proc_ok [of xs] by (auto simp: proc_ok_def)
qed

text \<open>A connection stays active: \<open>main\<close> waits for it until the ten seconds are over.\<close>

definition demo_stop :: "proc_event list" where
  "demo_stop = [SSHReturned (Some ''bind'')] @ [MainRuns False, MainRuns False] @ [Elapse 10000000000] @
     [MainRuns False, HTTPReturned ''control'' (Some ErrServerClosed), MainRuns False, MainRuns False]"

lemma demo_stop_run: "stop_run stop_cause demo_stop"
  unfolding stop_run_def demo_stop_def
  by (intro disjI1 exI [of _ "[SSHReturned (Some ''bind'')]"] exI [of _ "[MainRuns False, MainRuns False]"]
      exI [of _ "[Elapse 10000000000]"]
      exI [of _ "[MainRuns False, HTTPReturned ''control'' (Some ErrServerClosed), MainRuns False, MainRuns False]"])
    (simp add: Second_def)

theorem processes_terminate_witness:
  "proc_ended (fold tunnel_process demo_stop proc_started)
   \<and> pr_pc (fold tunnel_process (take 3 demo_stop) proc_started) = MShutFirst
   \<and> pr_pc (fold egress_process [MainRuns True, Elapse 5, MainRuns True] proc_started) = MWait"
proof -
  have "proc_ended (fold tunnel_process demo_stop proc_started)"
    using processes_terminate [of demo_stop] demo_stop_run by simp
  moreover have "pr_pc (fold egress_process [MainRuns True, Elapse 5, MainRuns True] proc_started) = MWait"
    using processes_terminate [of "[MainRuns True, Elapse 5, MainRuns True]"] by simp
  moreover have "pr_pc (fold tunnel_process (take 3 demo_stop) proc_started) = MShutFirst"
    by (simp add: demo_stop_def proc_defs proc_started_def Second_def)
  ultimately show ?thesis by blast
qed

section \<open>Loops that stop with the context\<close>

text \<open>
  A loop over events: what it does with one event and then with the rest is determined by the
  state it goes on with, and an event that stops it is its last.
\<close>

locale event_loop =
  fixes run :: "'e list \<Rightarrow> 's \<Rightarrow> 'o" and stops :: "'e \<Rightarrow> bool"
  assumes stop_law: "stops e \<Longrightarrow> run (e # es) s = run [e] s"
    and step_law: "\<not> stops e \<Longrightarrow> \<exists>t. \<forall>es es'. run es t = run es' t \<longrightarrow> run (e # es) s = run (e # es') s"
begin

lemma stops_for_good: "stops e \<Longrightarrow> run (xs @ e # ys) s = run (xs @ [e]) s"
proof (induction xs arbitrary: s)
  case Nil
  then show ?case by (simp add: stop_law [of e ys])
next
  case (Cons x xs)
  show ?case
  proof (cases "stops x")
    case True
    then show ?thesis by (simp add: stop_law [of x "xs @ e # ys"] stop_law [of x "xs @ [e]"])
  next
    case False
    from step_law [OF this] obtain t where "\<forall>es es'. run es t = run es' t \<longrightarrow> run (x # es) s = run (x # es') s" by blast
    then have "run (x # xs @ e # ys) s = run (x # xs @ [e]) s" using Cons.IH [OF Cons.prems, of t] by blast
    then show ?thesis by (simp only: append_Cons)
  qed
qed

end

fun serve_stops :: "serve_event \<Rightarrow> bool" where
  "serve_stops (SvError isDone later) = (isDone \<or> later)"
| "serve_stops (SvAccepted c a now) = False"

interpretation visitor_loop: event_loop "\<lambda>rs b. acceptVisitors b rs" "\<lambda>r. r = AcceptClosed"
proof unfold_locales
  fix r :: accept_result and b
  assume "r \<noteq> AcceptClosed"
  then show "\<exists>t. \<forall>rs rs'. acceptVisitors t rs = acceptVisitors t rs' \<longrightarrow> acceptVisitors b (r # rs) = acceptVisitors b (r # rs')"
  proof (cases r)
    case (Accepted vc a)
    then show ?thesis by (intro exI [of _ 0]) simp
  next
    case (AcceptErr e)
    then show ?thesis by (intro exI [of _ "next_backoff b"]) simp
  qed simp
qed simp

interpretation serve_loop: event_loop "\<lambda>es (b, s). Serve b es s" serve_stops
proof unfold_locales
  fix e :: serve_event and bs :: "duration \<times> 'a Server" and es
  obtain b s where bs: "bs = (b, s)" by (cases bs)
  show "(case bs of (b, s) \<Rightarrow> Serve b (e # es) s) = (case bs of (b, s) \<Rightarrow> Serve b [e] s)" if "serve_stops e"
    using that by (cases e) (auto simp: bs Let_def)
  show "\<exists>t :: duration \<times> 'a Server. \<forall>es es'. (case t of (b, s) \<Rightarrow> Serve b es s) = (case t of (b, s) \<Rightarrow> Serve b es' s) \<longrightarrow>
      (case bs of (b, s) \<Rightarrow> Serve b (e # es) s) = (case bs of (b, s) \<Rightarrow> Serve b (e # es') s)" if "\<not> serve_stops e"
  proof (cases e)
    case (SvError isDone later)
    then show ?thesis using that by (intro exI [of _ "(next_backoff b, s)"]) (simp add: bs Let_def)
  next
    case (SvAccepted c a now)
    obtain r lim where lim: "allow now (remoteIP a) (sv_limiter s) = (r, lim)" by (cases "allow now (remoteIP a) (sv_limiter s)")
    let ?s = "if r then s\<lparr>sv_limiter := lim\<rparr>
      else upd_manager (log_close [HConn c] (sv_manager s)) (s\<lparr>sv_limiter := lim, sv_authFailures := sv_authFailures s + 1\<rparr>)"
    show ?thesis by (intro exI [of _ "(0, ?s)"]) (cases r; simp add: bs SvAccepted lim)
  qed
qed

interpretation keepalives: event_loop "\<lambda>es misses. keepalive_loop misses es" "\<lambda>e. e = KaDone"
proof unfold_locales
  fix e :: ka_event and misses :: int
  assume "e \<noteq> KaDone"
  then obtain a where e: "e = KaTick a" by (cases e) simp_all
  show "\<exists>t. \<forall>es es'. keepalive_loop t es = keepalive_loop t es' \<longrightarrow> keepalive_loop misses (e # es) = keepalive_loop misses (e # es')"
    by (intro exI [of _ "if sendKeepalive a = None then 0 else misses + 1"]) (simp add: e Let_def)
qed simp

interpretation stun_reader: event_loop "stun_loop L" "\<lambda>e. e = ReadError True" for L
proof unfold_locales
  fix e :: packet_event and r
  assume "e \<noteq> ReadError True"
  then show "\<exists>t. \<forall>es es'. stun_loop L es t = stun_loop L es' t \<longrightarrow> stun_loop L (e # es) r = stun_loop L (e # es') r"
    by (cases "(L, e # [], r)" rule: stun_loop.cases) auto
qed simp

interpretation sweeper: event_loop runSweeper "\<lambda>e. e = SweepDone"
proof unfold_locales
  fix e :: "'a sweep_event" and c
  assume "e \<noteq> SweepDone"
  then show "\<exists>t. \<forall>es es'. runSweeper es t = runSweeper es' t \<longrightarrow> runSweeper (e # es) c = runSweeper (e # es') c"
    by (cases e) auto
qed simp

text \<open>
  Background work stops. Whatever came before, the event that tells a loop that its
  listener is closed or its context is done is the last one it acts on: the accept loops of a
  forward and of the SSH server hand no further connection on, keepalives send nothing more, the
  STUN responder answers nothing more and has returned, and the sweeper leaves store and manager
  alone.
\<close>

lemma loops_stop:
  "acceptVisitors b (xs @ AcceptClosed # ys) = acceptVisitors b (xs @ [AcceptClosed])
   \<and> Serve b (cs @ SvError isDone (\<not> isDone) # ds) srv = Serve b (cs @ [SvError isDone (\<not> isDone)]) srv
   \<and> keepalive_loop n (ks @ KaDone # ls) = keepalive_loop n (ks @ [KaDone])
   \<and> keepalive_loop n (ks @ [KaDone]) \<in> {KaReturned, KaClosed}
   \<and> stun_loop L (ps @ ReadError True # qs) r = stun_loop L (ps @ [ReadError True]) r
   \<and> fst (stun_loop L (ps @ [ReadError True]) r)
   \<and> runSweeper (es @ SweepDone # fs) c = runSweeper es c"
proof -
  have "Serve b (cs @ SvError isDone (\<not> isDone) # ds) srv = Serve b (cs @ [SvError isDone (\<not> isDone)]) srv"
    using serve_loop.stops_for_good [of "SvError isDone (\<not> isDone)" cs ds "(b, srv)"] by simp
  moreover have "keepalive_loop n (ks @ [KaDone]) \<in> {KaReturned, KaClosed}"
    by (induction n ks rule: keepalive_loop.induct) (auto simp: Let_def)
  moreover have "fst (stun_loop L (ps @ [ReadError True]) r)"
    by (induction L ps r rule: stun_loop.induct) auto
  moreover have "runSweeper (es @ [SweepDone]) c = runSweeper es c"
    by (induction es c rule: runSweeper.induct) auto
  ultimately show ?thesis
    using visitor_loop.stops_for_good keepalives.stops_for_good stun_reader.stops_for_good sweeper.stops_for_good by metis
qed

end
