(* ===== verification/Instruments.thy ===== *)
theory Instruments
  imports Daemon
begin

text \<open>
  The Prometheus instruments of both programs (\<open>src/internal/tunnel/metrics/metrics.go\<close>,
  \<open>src/internal/metrics\<close>) and the request log of the sidecar (\<open>logRequest\<close> in
  \<open>src/internal/server/handlers.go\<close>). The Prometheus client is a parameter: whether a registry
  accepts a set of instruments. Shown here is what the package comment of the tunnel metrics
  promises, a bounded number of series, and that a log line tells nothing but where a request
  went and how it ended.
\<close>

section \<open>Instruments\<close>

datatype ikind = Gauge | Counter | Histogram

record instrument =
  in_Kind :: ikind
  in_Name :: string
  in_Help :: string
  in_Labels :: "string list"

abbreviation NewGauge :: "string \<Rightarrow> string \<Rightarrow> string list \<Rightarrow> instrument" where
  "NewGauge name help labels \<equiv> \<lparr>in_Kind = Gauge, in_Name = name, in_Help = help, in_Labels = labels\<rparr>"

abbreviation NewCounter :: "string \<Rightarrow> string \<Rightarrow> string list \<Rightarrow> instrument" where
  "NewCounter name help labels \<equiv> \<lparr>in_Kind = Counter, in_Name = name, in_Help = help, in_Labels = labels\<rparr>"

abbreviation NewHistogram :: "string \<Rightarrow> string \<Rightarrow> string list \<Rightarrow> instrument" where
  "NewHistogram name help labels \<equiv> \<lparr>in_Kind = Histogram, in_Name = name, in_Help = help, in_Labels = labels\<rparr>"

text \<open>
  The data model Prometheus documents: a metric name matches \<open>[a-zA-Z_:][a-zA-Z0-9_:]*\<close>, a label
  name \<open>[a-zA-Z_][a-zA-Z0-9_]*\<close>; labels beginning with two underscores are reserved, and so is \<open>le\<close> on a
  histogram; no label occurs twice on one instrument.
\<close>

definition name_letter :: "char \<Rightarrow> bool" where
  "name_letter c \<longleftrightarrow> c = CHR ''_'' \<or> 97 \<le> ord c \<and> ord c \<le> 122 \<or> 65 \<le> ord c \<and> ord c \<le> 90"

fun valid_label :: "string \<Rightarrow> bool" where
  "valid_label [] = False"
| "valid_label (c # cs) \<longleftrightarrow> name_letter c \<and> list_all (\<lambda>d. name_letter d \<or> is_digit d) cs \<and> \<not> HasPrefix (c # cs) ''__''"

fun valid_metric_name :: "string \<Rightarrow> bool" where
  "valid_metric_name [] = False"
| "valid_metric_name (c # cs) \<longleftrightarrow> (name_letter c \<or> c = CHR '':'')
     \<and> list_all (\<lambda>d. name_letter d \<or> is_digit d \<or> d = CHR '':'') cs"

definition valid_instrument :: "instrument \<Rightarrow> bool" where
  "valid_instrument i \<longleftrightarrow> valid_metric_name (in_Name i) \<and> list_all valid_label (in_Labels i) \<and> distinct (in_Labels i)
     \<and> (in_Kind i = Histogram \<longrightarrow> ''le'' \<notin> set (in_Labels i))"

text \<open>Documented behaviour of a registry: it accepts valid instruments that have different names.\<close>

definition registry_ok :: "(instrument list \<Rightarrow> bool) \<Rightarrow> bool" where
  "registry_ok accepts \<longleftrightarrow> (\<forall>ins. list_all valid_instrument ins \<and> distinct (map in_Name ins) \<longrightarrow> accepts ins)"

subsection \<open>The tunnel daemon\<close>

record tunnel_Metrics =
  tm_Registry :: "instrument list"
  tm_LeasesActive :: instrument
  tm_PortsFree :: instrument
  tm_SSHConnections :: instrument
  tm_SSHAuthFailures :: instrument
  tm_VisitorConnections :: instrument
  tm_BytesForwarded :: instrument
  tm_STUNRequests :: instrument
  tm_ControlRequests :: instrument
  tm_Reconcile :: instrument

text \<open>\<open>MustRegister\<close> panics when the registry refuses.\<close>

definition tunnel_metrics_New :: "(instrument list \<Rightarrow> bool) \<Rightarrow> tunnel_Metrics option" where
  "tunnel_metrics_New accepts =
     (let m = \<lparr>tm_Registry = [],
         tm_LeasesActive = NewGauge ''tunnel_leases_active'' ''Currently live tunnel leases.'' [],
         tm_PortsFree = NewGauge ''tunnel_ports_free'' ''Free data ports in the allocation range.'' [],
         tm_SSHConnections = NewGauge ''tunnel_ssh_connections'' ''Active SSH intake connections by state.'' [''state''],
         tm_SSHAuthFailures = NewCounter ''tunnel_ssh_auth_failures_total'' ''Rejected SSH auth attempts.'' [],
         tm_VisitorConnections = NewGauge ''tunnel_visitor_connections_active'' ''Active visitor connections across all leases.'' [],
         tm_BytesForwarded = NewCounter ''tunnel_bytes_forwarded_total'' ''Bytes forwarded through tunnels.'' [''direction''],
         tm_STUNRequests = NewCounter ''tunnel_stun_requests_total'' ''STUN binding requests answered.'' [],
         tm_ControlRequests = NewCounter ''tunnel_control_requests_total'' ''Control API requests by op and status code.'' [''op'', ''code''],
         tm_Reconcile = NewCounter ''tunnel_lease_reconcile_total'' ''Lease lifecycle events.'' [''result'']\<rparr>;
          ins = [tm_LeasesActive m, tm_PortsFree m, tm_SSHConnections m, tm_SSHAuthFailures m, tm_VisitorConnections m,
                 tm_BytesForwarded m, tm_STUNRequests m, tm_ControlRequests m, tm_Reconcile m]
      in if accepts ins then Some (m\<lparr>tm_Registry := ins\<rparr>) else None)"

text \<open>\<open>Handler\<close>: the scrape handler of the registry; \<open>gather\<close> is the client's.\<close>

definition tunnel_Handler :: "(instrument list \<Rightarrow> 'b response \<Rightarrow> 'b response) \<Rightarrow> tunnel_Metrics \<Rightarrow> 'b response \<Rightarrow> 'b response" where
  "tunnel_Handler gather m = gather (tm_Registry m)"

subsection \<open>The egress sidecar\<close>

record egress_Instruments =
  ei_Registry :: "instrument list"
  ei_RequestsTotal :: instrument
  ei_RequestDuration :: instrument
  ei_RequestBytesTotal :: instrument
  ei_ResponseBytesTotal :: instrument
  ei_PolicyDenialsTotal :: instrument
  ei_ModeAvailable :: instrument

definition egress_metrics_New :: "(instrument list \<Rightarrow> bool) \<Rightarrow> egress_Instruments option" where
  "egress_metrics_New accepts =
     (let m = \<lparr>ei_Registry = [],
         ei_RequestsTotal = NewCounter ''hyrule_network_proxy_requests_total'' ''Total handled proxy requests.'' [''mode'', ''status_class''],
         ei_RequestDuration = NewHistogram ''hyrule_network_proxy_request_duration_seconds'' ''Proxy request duration.'' [''mode''],
         ei_RequestBytesTotal = NewCounter ''hyrule_network_proxy_request_bytes_total'' ''Total request bytes accepted.'' [''mode''],
         ei_ResponseBytesTotal = NewCounter ''hyrule_network_proxy_response_bytes_total'' ''Total response bytes returned.'' [''mode''],
         ei_PolicyDenialsTotal = NewCounter ''hyrule_network_proxy_policy_denials_total'' ''Total policy denials.'' [''mode'', ''reason''],
         ei_ModeAvailable = NewGauge ''hyrule_network_proxy_mode_available'' ''Whether a mode is currently available.'' [''mode'']\<rparr>;
          ins = [ei_RequestsTotal m, ei_RequestDuration m, ei_RequestBytesTotal m, ei_ResponseBytesTotal m, ei_PolicyDenialsTotal m,
                 ei_ModeAvailable m]
      in if accepts ins then Some (m\<lparr>ei_Registry := ins\<rparr>) else None)"

definition egress_Handler :: "(instrument list \<Rightarrow> 'b response \<Rightarrow> 'b response) \<Rightarrow> instrument list \<Rightarrow> 'b response \<Rightarrow> 'b response" where
  "egress_Handler gather registry = gather registry"

text \<open>The counters and gauges of the sidecar before the first observation.\<close>

definition no_observations :: Metrics where
  "no_observations = \<lparr>em_RequestsTotal = (\<lambda>_. 0), em_RequestDuration = [], em_RequestBytesTotal = (\<lambda>_. 0),
     em_ResponseBytesTotal = (\<lambda>_. 0), em_PolicyDenialsTotal = (\<lambda>_. 0), em_ModeAvailable = (\<lambda>_. None)\<rparr>"

subsection \<open>Registration\<close>

lemma name_letters:
  "list_all name_letter ''abcdefghijklmnopqrstuvwxyzABCDEFGHIJKLMNOPQRSTUVWXYZ_''"
  by code_simp

lemma tunnel_metrics_registered:
  assumes "registry_ok accepts"
  obtains m where "tunnel_metrics_New accepts = Some m"
    "tm_Registry m = [tm_LeasesActive m, tm_PortsFree m, tm_SSHConnections m, tm_SSHAuthFailures m, tm_VisitorConnections m,
       tm_BytesForwarded m, tm_STUNRequests m, tm_ControlRequests m, tm_Reconcile m]"
    "in_Labels (tm_LeasesActive m) = []" "in_Labels (tm_PortsFree m) = []" "in_Labels (tm_Reconcile m) = [''result'']"
    "in_Labels (tm_ControlRequests m) = [''op'', ''code'']"
proof -
  have "tunnel_metrics_New accepts \<noteq> None"
    using assms name_letters by (simp add: tunnel_metrics_New_def registry_ok_def valid_instrument_def HasPrefix_iff Let_def)
  then obtain m where m: "tunnel_metrics_New accepts = Some m" by blast
  show ?thesis by (rule that [OF m]) (use m in \<open>auto simp: tunnel_metrics_New_def Let_def split: if_splits\<close>)
qed

lemma egress_metrics_registered:
  assumes "registry_ok accepts"
  shows "egress_metrics_New accepts \<noteq> None"
  using assms name_letters by (simp add: egress_metrics_New_def registry_ok_def valid_instrument_def HasPrefix_iff Let_def)

section \<open>The request log\<close>

text \<open>The attributes of the line \<open>proxy_request\<close>; its service is constant.\<close>

record log_attrs =
  lo_request_id :: string
  lo_proxy_mode :: string
  lo_method :: string
  lo_target_scheme :: string
  lo_target_host :: string
  lo_status_code :: int
  lo_elapsed :: duration
  lo_truncated :: bool
  lo_error :: string

definition logRequest :: "(string \<Rightarrow> (string, url) result) \<Rightarrow> NetworkRequest \<Rightarrow> NetworkResponse \<Rightarrow> log_attrs" where
  "logRequest parse inp resp =
     (let (host, scheme) = (case parse (nr_URL inp) of Inl _ \<Rightarrow> ([], []) | Inr u \<Rightarrow> (url_Hostname u, url_Scheme u));
          truncated = (gm_get (ns_Headers resp) ''x-hyrule-truncated'' = Some ''true'');
          errText = (case ns_Error resp of None \<Rightarrow> [] | Some e \<Rightarrow> e)
      in \<lparr>lo_request_id = nr_RequestID inp, lo_proxy_mode = nr_ProxyMode inp, lo_method = nr_Method inp,
          lo_target_scheme = scheme, lo_target_host = host, lo_status_code = ns_StatusCode resp,
          lo_elapsed = ns_Elapsed resp, lo_truncated = truncated, lo_error = errText\<rparr>)"

text \<open>
  A log line does not depend on the bodies, the request's headers, the response's headers
  beside the truncation mark, or anything of the URL but scheme and host.
\<close>

lemma log_discreet:
  assumes "nr_RequestID a = nr_RequestID b" "nr_ProxyMode a = nr_ProxyMode b" "nr_Method a = nr_Method b"
    "map_sum (\<lambda>_. ()) (\<lambda>u. (url_Hostname u, url_Scheme u)) (parse (nr_URL a))
       = map_sum (\<lambda>_. ()) (\<lambda>u. (url_Hostname u, url_Scheme u)) (parse (nr_URL b))"
    "gm_get (ns_Headers r) ''x-hyrule-truncated'' = gm_get (ns_Headers s) ''x-hyrule-truncated''"
    "ns_StatusCode r = ns_StatusCode s" "ns_Elapsed r = ns_Elapsed s" "ns_Error r = ns_Error s"
  shows "logRequest parse a r = logRequest parse b s"
  using assms by (cases "parse (nr_URL a)"; cases "parse (nr_URL b)") (simp_all add: logRequest_def)

section \<open>A bounded number of series\<close>

text \<open>The calls of \<open>WithLabelValues\<close> and of the plain instruments, from what the components record.\<close>

fun coordinator_call :: "tunnel_Metrics \<Rightarrow> metric \<Rightarrow> instrument \<times> string list" where
  "coordinator_call m (Reconcile result) = (tm_Reconcile m, [result])"
| "coordinator_call m (LeasesActive n) = (tm_LeasesActive m, [])"
| "coordinator_call m (PortsFree n) = (tm_PortsFree m, [])"

fun control_call :: "tunnel_Metrics \<Rightarrow> string \<times> string \<Rightarrow> instrument \<times> string list" where
  "control_call m (op, code) = (tm_ControlRequests m, [op, code])"

definition api_calls :: "tunnel_Metrics \<Rightarrow> 'db Coordinator API \<Rightarrow> (instrument \<times> string list) list" where
  "api_calls m a = map (coordinator_call m) (co_metrics (ap_svc a)) @ map (control_call m) (ap_records a)"

definition control_ops :: "string list" where
  "control_ops = [''create'', ''list'', ''get'', ''extend'', ''revoke'', ''health'']"

definition control_codes :: "int list" where
  "control_codes = [200, 204, 400, 401, 404, 500, 503]"

definition reconcile_results :: "string list" where
  "reconcile_results = [''create_failed'', ''created'', ''extended'', ''revoked'', ''expired'']"

text \<open>
  What happens to the API and the coordinator behind it in a running daemon: requests, sweeps,
  the metrics endpoints, and whatever SSH clients and visitors do to the manager.
\<close>

inductive api_reach :: "unicode \<Rightarrow> string \<Rightarrow> Tunnel_Config.Config \<Rightarrow> 'db Coordinator API \<Rightarrow> bool" for U token cfg where
  boot: "api_reach U token cfg (control_New (NewCoordinator store mgr))"
| request: "api_reach U token cfg a \<Longrightarrow> api_reach U token cfg (snd (Router U token (coordinator_service cfg x) D r a))"
| sweep: "api_reach U token cfg a \<Longrightarrow> api_reach U token cfg (a\<lparr>ap_svc := snd (SweepExpired x (ap_svc a))\<rparr>)"
| metrics: "api_reach U token cfg a \<Longrightarrow>
    api_reach U token cfg (a\<lparr>ap_svc := snd (metricsRouter (scrape :: metric list \<Rightarrow> unit response \<Rightarrow> unit response) r (ap_svc a))\<rparr>)"
| tunnels: "api_reach U token cfg a \<Longrightarrow> api_reach U token cfg (a\<lparr>ap_svc := (ap_svc a)\<lparr>co_manager := mgr\<rparr>\<rparr>)"

definition metric_ok :: "metric \<Rightarrow> bool" where
  "metric_ok x = (case x of Reconcile result \<Rightarrow> result \<in> set reconcile_results | _ \<Rightarrow> True)"

definition record_ok :: "string \<times> string \<Rightarrow> bool" where
  "record_ok x \<longleftrightarrow> x \<in> set (List.product control_ops (map Itoa control_codes))"

definition coord_ok :: "'db Coordinator \<Rightarrow> bool" where
  "coord_ok c \<longleftrightarrow> list_all metric_ok (co_metrics c)"

lemma coord_ok_emit [simp]: "coord_ok (emit ms c) \<longleftrightarrow> coord_ok c \<and> list_all metric_ok ms"
  by (simp add: coord_ok_def emit_def)

lemma coord_ok_upd [simp]: "coord_ok (c\<lparr>co_store := s\<rparr>) = coord_ok c" "coord_ok (c\<lparr>co_manager := m\<rparr>) = coord_ok c"
  by (simp_all add: coord_ok_def)

lemma coord_ok_refresh [simp]: "coord_ok (RefreshMetrics c) = coord_ok c"
  by (simp add: RefreshMetrics_def metric_ok_def split: prod.splits)

lemma reconcile_ok [simp]:
  "metric_ok (Reconcile ''create_failed'')" "metric_ok (Reconcile ''created'')" "metric_ok (Reconcile ''extended'')"
  "metric_ok (Reconcile ''revoked'')" "metric_ok (Reconcile ''expired'')"
  by (simp_all add: metric_ok_def reconcile_results_def)

lemma coord_ok_ops:
  assumes "coord_ok c"
  shows "CreateLease cfg x req c = (r, c') \<Longrightarrow> coord_ok c'" "ExtendLease cfg x i ereq c = (r, c') \<Longrightarrow> coord_ok c'"
    "RevokeLease x i c = (e, c') \<Longrightarrow> coord_ok c'"
  using assms by (auto simp: CreateLease_def ExtendLease_def RevokeLease_def Let_def split: prod.splits sum.splits option.splits)

lemma coord_ok_sweep:
  assumes "coord_ok c"
  shows "coord_ok (snd (SweepExpired x c))"
proof -
  have "coord_ok (snd (sweep_loop B cut is n c))" for B cut "is" n
    using assms
    by (induction B cut "is" n c rule: sweep_loop.induct) (auto simp: Let_def split: prod.splits if_splits)
  then show ?thesis by (auto simp: SweepExpired_def split: prod.splits) (metis snd_conv)+
qed

lemma handler_ok:
  assumes "control_handler U (coordinator_service cfg x) D oper vs bdy = (label, h)" "h fresh_recorder c = (w, c')" "coord_ok c"
  shows "label \<in> set control_ops \<and> sr_status w \<in> set control_codes \<and> coord_ok c'"
  using assms
  by (cases oper)
    (auto simp: control_handler_def handleCreate_def handleList_def handleGet_def handleExtend_def handleRevoke_def
      Control.handleHealth_def coordinator_service_def control_ops_def control_codes_def Let_def
      split: sum.splits option.splits prod.splits if_splits lease_error.splits dest: coord_ok_ops)

lemma api_reach_ok: "api_reach U token cfg a \<Longrightarrow> coord_ok (ap_svc a) \<and> list_all record_ok (ap_records a)"
proof (induction rule: api_reach.induct)
  case (boot store mgr)
  show ?case by (simp add: control_New_def NewCoordinator_def) (simp add: coord_ok_def)
next
  case (request a x D r)
  show ?case
  proof (cases rule: Router_cases [of U token "coordinator_service cfg x" D r])
    case (unrouted w)
    then show ?thesis using request by simp
  next
    case (routed oper vs label h)
    obtain w c' where h: "h fresh_recorder (ap_svc a) = (w, c')" by (cases "h fresh_recorder (ap_svc a)")
    have "401 \<in> set control_codes" by (simp add: control_codes_def)
    then show ?thesis using request handler_ok [OF routed(2) h] h
      by (auto simp: routed(3) withAuth_eq record_op_def record_ok_def)
  qed
next
  case (sweep a x)
  then show ?case by (simp add: coord_ok_sweep)
next
  case (metrics a scrape r)
  then show ?case by (auto simp: metricsRouter_def split: route.splits tunnel_op.splits)
qed simp

text \<open>The label tuples that can occur, and their number.\<close>

definition api_series :: "tunnel_Metrics \<Rightarrow> (instrument \<times> string list) list" where
  "api_series m = (tm_LeasesActive m, []) # (tm_PortsFree m, []) # map (\<lambda>r. (tm_Reconcile m, [r])) reconcile_results
     @ map (\<lambda>(op, code). (tm_ControlRequests m, [op, code])) (List.product control_ops (map Itoa control_codes))"

lemma api_calls_series:
  assumes "coord_ok (ap_svc a)" "list_all record_ok (ap_records a)"
  shows "set (api_calls m a) \<subseteq> set (api_series m)"
proof -
  have "coordinator_call m x \<in> set (api_series m)" if "metric_ok x" for x
    using that by (cases x) (auto simp: api_series_def metric_ok_def)
  moreover have "control_call m p \<in> set (api_series m)" if "record_ok p" for p
    using that by (cases p) (force simp: api_series_def record_ok_def)
  ultimately show ?thesis using assms by (auto simp: api_calls_def coord_ok_def list_all_iff)
qed

text \<open>
  (C40) Bounded metrics. The instruments of both programs are valid (metric and label names, no label
  twice) and have different names, so registering them never panics. In every
  state a running daemon reaches, whatever leases, requests and sweeps there were, each call of
  an instrument by the coordinator and the control API goes to a registered one with as many
  label values as it has labels, and all of these calls together make at most 49 series: the
  labels never name a lease.
\<close>

theorem series_bounded:
  assumes "registry_ok accepts" "api_reach U token cfg a"
  shows "egress_metrics_New accepts \<noteq> None \<and> (\<exists>m. tunnel_metrics_New accepts = Some m
    \<and> (\<forall>(ins, vals) \<in> set (api_calls m a). ins \<in> set (tm_Registry m) \<and> length vals = length (in_Labels ins))
    \<and> card (set (api_calls m a)) \<le> 49)"
proof -
  obtain m where m: "tunnel_metrics_New accepts = Some m"
    and reg: "tm_Registry m = [tm_LeasesActive m, tm_PortsFree m, tm_SSHConnections m, tm_SSHAuthFailures m, tm_VisitorConnections m,
       tm_BytesForwarded m, tm_STUNRequests m, tm_ControlRequests m, tm_Reconcile m]"
    and labels: "in_Labels (tm_LeasesActive m) = []" "in_Labels (tm_PortsFree m) = []" "in_Labels (tm_Reconcile m) = [''result'']"
      "in_Labels (tm_ControlRequests m) = [''op'', ''code'']"
    by (rule tunnel_metrics_registered [OF assms(1)])
  have calls: "set (api_calls m a) \<subseteq> set (api_series m)"
    using api_calls_series api_reach_ok [OF assms(2)] by blast
  have "ins \<in> set (tm_Registry m) \<and> length vals = length (in_Labels ins)" if "(ins, vals) \<in> set (api_series m)" for ins vals
    using that unfolding api_series_def by (auto simp: reg labels)
  moreover have "card (set (api_series m)) \<le> 49"
    using card_length [of "api_series m"] by (simp add: api_series_def reconcile_results_def control_ops_def control_codes_def)
  then have "card (set (api_calls m a)) \<le> 49" using card_mono [OF _ calls] by simp
  ultimately show ?thesis using m calls egress_metrics_registered [OF assms(1)] by auto
qed

text \<open>A registry that refuses everything else.\<close>

theorem series_bounded_witness:
  "\<exists>m. tunnel_metrics_New (\<lambda>ins. list_all valid_instrument ins \<and> distinct (map in_Name ins)) = Some m
     \<and> card (set (api_calls m (snd (Router plain_unicode ''t'' (coordinator_service (demo_config 2592000) demo_ext) demo_decoder
         (demo_http ''POST'' [''v1'', ''leases''] ''Bearer t'') (control_New (NewCoordinator ref_store1 (NewManager 1))))))) \<le> 49"
proof -
  have "registry_ok (\<lambda>ins. list_all valid_instrument ins \<and> distinct (map in_Name ins))" by (simp add: registry_ok_def)
  from series_bounded [OF this api_reach.request [OF api_reach.boot]] show ?thesis by blast
qed

end
