(* ===== verification/Visitor_Liveness.thy ===== *)
theory Visitor_Liveness
  imports Visitor_Invariant
begin

text \<open>
  Progress of the visitor goroutine (\<open>handleVisitor\<close> in \<open>src/internal/tunnel/sshd/forward.go\<close>).
  A rank bounds the steps a visitor still has to take. Under every interleaving each of its own
  turns lowers the rank, except a compare-and-swap that failed because another goroutine changed
  the counter in between, and a turn in which \<open>OpenChannel\<close> or a copy goes on waiting. Once the
  forward and the SSH connection are closed no call waits any longer: that is what closing
  the sockets and channels of the visitors is for. A visitor that has returned has given everything back.
\<close>

section \<open>Rank\<close>

fun defer_rank :: "deferred \<Rightarrow> nat" where
  "defer_rank DRelease = 2"
| "defer_rank _ = 1"

definition rank :: "visitor \<Rightarrow> nat" where
  "rank v =
     (case v_pc v of
        PCheck \<Rightarrow> 14 | PTrack \<Rightarrow> 13 | PLoad \<Rightarrow> 12 | PCas _ \<Rightarrow> 11 | PInc \<Rightarrow> 10 | POpen \<Rightarrow> 9 | PSet _ \<Rightarrow> 8
      | PCopy _ i out \<Rightarrow> 5 + of_bool (\<not> i) + of_bool (\<not> out)
      | PReturn \<Rightarrow> sum_list (map defer_rank (v_defers v)))"

definition returned :: "visitor \<Rightarrow> bool" where
  "returned v \<longleftrightarrow> v_pc v = PReturn \<and> v_defers v = []"

text \<open>While copying, a turn is one of a copy that is still running.\<close>

definition live_copy :: "venv \<Rightarrow> visitor \<Rightarrow> bool" where
  "live_copy env v \<longleftrightarrow> (case v_pc v of PCopy ch i out \<Rightarrow> (if ve_in env then \<not> i else \<not> out) | _ \<Rightarrow> True)"

definition lost_cas :: "visitor \<Rightarrow> Manager \<Rightarrow> bool" where
  "lost_cas v m \<longleftrightarrow> (case v_pc v of PCas cur \<Rightarrow> (case m_states m (v_st v) of None \<Rightarrow> False | Some st \<Rightarrow> ls_visitors st \<noteq> cur) | _ \<Rightarrow> False)"

text \<open>A turn in which the blocking call of the goroutine goes on waiting.\<close>

definition waits :: "venv \<Rightarrow> visitor \<Rightarrow> Manager \<Rightarrow> bool" where
  "waits env v m =
     (case v_pc v of
        POpen \<Rightarrow>
          (case (m_forwards m (v_fwd v), m_states m (v_st v)) of
             (Some f, Some st) \<Rightarrow> ve_open env (ls_conn st) (visitor_payload f (v_addr v)) = None
           | _ \<Rightarrow> False)
      | PCopy ch i out \<Rightarrow> ve_copy env = None
      | _ \<Rightarrow> False)"

text \<open>
  What the goroutine relies on: \<open>OpenChannel\<close> does not wait for the answer of a client whose
  connection is closed, and a copy does not wait when both its ends, the visitor's socket and the
  channel, are closed. A single closed end is not enough: the copy may be waiting on the other one.
\<close>

definition close_unblocks :: "venv \<Rightarrow> visitor \<Rightarrow> Manager \<Rightarrow> bool" where
  "close_unblocks env v m =
     (case v_pc v of
        POpen \<Rightarrow>
          (case (m_forwards m (v_fwd v), m_states m (v_st v)) of
             (Some f, Some st) \<Rightarrow>
               HConn (ls_conn st) \<in> set (m_closed m) \<longrightarrow> ve_open env (ls_conn st) (visitor_payload f (v_addr v)) \<noteq> None
           | _ \<Rightarrow> True)
      | PCopy ch i out \<Rightarrow>
          HVisitor (v_conn v) \<in> set (m_closed m) \<and> HChannel ch \<in> set (m_closed m) \<longrightarrow> ve_copy env \<noteq> None
      | _ \<Rightarrow> True)"

text \<open>The forward of the visitor and the connection it opens channels on have been closed.\<close>

definition cut_off :: "Manager \<Rightarrow> visitor \<Rightarrow> bool" where
  "cut_off m v =
     (case (m_forwards m (v_fwd v), m_states m (v_st v)) of
        (Some f, Some st) \<Rightarrow> f_closeOnce f \<and> HConn (ls_conn st) \<in> set (m_closed m)
      | _ \<Rightarrow> False)"

lemma rank_step:
  assumes "visitor_ok m v" "visitor_step env v m = (v', m')" "live_copy env v" "\<not> returned v"
  shows "Suc (rank v') \<le> rank v + 2 * of_bool (lost_cas v m) + of_bool (waits env v m)"
proof -
  obtain f st where "m_forwards m (v_fwd v) = Some f" "m_states m (v_st v) = Some st" "defers_at v"
    using assms(1) by (auto simp: visitor_ok_def split: option.splits)
  then show ?thesis using assms(2-4)
    by (cases "v_pc v")
      (auto simp: vstep_defs rank_def live_copy_def lost_cas_def returned_def waits_def split: if_splits sum.splits option.splits)
qed

text \<open>Cut off, the goroutine does not wait: its socket and its channel are closed with the forward.\<close>

lemma cut_off_no_wait:
  assumes "visitor_ok m v" "\<And>f. m_forwards m (v_fwd v) = Some f \<Longrightarrow> fwd_ok (set (m_closed m)) f"
    "cut_off m v" "close_unblocks env v m"
  shows "\<not> waits env v m"
proof -
  obtain f st where f: "m_forwards m (v_fwd v) = Some f" "m_states m (v_st v) = Some st"
    "f_closeOnce f" "HConn (ls_conn st) \<in> set (m_closed m)"
    using assms(3) by (auto simp: cut_off_def split: option.splits)
  have "f_closed f" using assms(2) [OF f(1)] f(3) by (simp add: fwd_ok_def)
  moreover have "track_ok (set (m_closed m)) f v" "defers_at v" using assms(1) f(1) by (simp_all add: visitor_ok_def)
  moreover from this have "v_pc v = PCopy ch i out \<Longrightarrow> tracked v" for ch i out
    by (simp add: defers_at_def base_defers_def tracked_def)
  ultimately show ?thesis
    using assms(4) f by (auto simp: waits_def close_unblocks_def track_ok_def split: vpc.splits)
qed

lemma cut_off_visit:
  assumes "visitor_ok m w" "visitor_step env w m = (w', m')" "cut_off m v"
  shows "cut_off m' v"
proof -
  obtain f st where "m_forwards m (v_fwd w) = Some f" "m_states m (v_st w) = Some st" "defers_at w"
    using assms(1) by (auto simp: visitor_ok_def split: option.splits)
  then show ?thesis using assms(2,3)
    by (cases "v_pc w") (auto simp: vstep_defs cut_off_def split: if_splits sum.splits option.splits)
qed

lemma cut_off_frame:
  assumes "mgr_frame m m'" "cut_off m v"
  shows "cut_off m' v"
proof -
  obtain f st where f: "m_forwards m (v_fwd v) = Some f" "m_states m (v_st v) = Some st"
    "f_closeOnce f" "HConn (ls_conn st) \<in> set (m_closed m)"
    using assms(2) by (auto simp: cut_off_def split: option.splits)
  obtain f' where f': "m_forwards m' (v_fwd v) = Some f'" "evolves (set (m_closed m')) f f'"
    using assms(1) f(1) unfolding mgr_frame_def by blast
  obtain st' where st': "m_states m' (v_st v) = Some st'" "ls_conn st' = ls_conn st"
    using assms(1) f(2) unfolding mgr_frame_def by blast
  have "set (m_closed m) \<subseteq> set (m_closed m')" using assms(1) by (simp add: mgr_frame_def)
  then show ?thesis using f f' st' by (auto simp: cut_off_def evolves_def)
qed

lemma cut_off_step:
  assumes "sys_step get s s'" "vis_inv s" "cut_off (sy_m s) v"
  shows "cut_off (sy_m s') v"
proof -
  have hp: "heap_ok (sy_m s)" using assms(2) by (simp add: vis_inv_def)
  from assms(1) hp show ?thesis
  proof (cases rule: step_kinds)
    case manager
    then show ?thesis using cut_off_frame [OF _ assms(3)] by (simp add: frames_def)
  next
    case (visit k env w' m')
    then have "visitor_ok (sy_m s) (sy_vs s ! k)" using assms(2) by (simp add: vis_inv_def)
    then show ?thesis using cut_off_visit [OF _ visit(2) assms(3)] visit(3) by simp
  qed (use assms(3) in simp)
qed

lemma rank_initial: "rank (new_visitor sp fp vc a) = 14"
  by (simp add: rank_def new_visitor_def)

lemma rank_bound: "defers_at v \<Longrightarrow> rank v \<le> 14"
  by (cases "v_pc v") (auto simp: rank_def defers_at_def base_defers_def)

section \<open>What a visitor leaves behind\<close>

text \<open>A socket is closed by the time its deferred close is gone, and a copy that goes on has a running side.\<close>

definition leaves_ok :: "handle set \<Rightarrow> visitor \<Rightarrow> bool" where
  "leaves_ok C v \<longleftrightarrow> (DCloseVisitor \<in> set (v_defers v) \<or> HVisitor (v_conn v) \<in> C)
     \<and> (case v_pc v of PCopy ch i out \<Rightarrow> \<not> (i \<and> out) | _ \<Rightarrow> True)"

text \<open>The map of a forward holds tracked visitors of this forward only.\<close>

definition map_ok :: "visitor list \<Rightarrow> Manager \<Rightarrow> bool" where
  "map_ok vs m \<longleftrightarrow> (\<forall>fp f k. m_forwards m fp = Some f \<longrightarrow> gm_get (f_visitors f) k \<noteq> None \<longrightarrow>
     (\<exists>v \<in> set vs. v_conn v = k \<and> v_fwd v = fp \<and> tracked v))"

definition left_inv :: "sys \<Rightarrow> bool" where
  "left_inv s \<longleftrightarrow> (\<forall>v \<in> set (sy_vs s). leaves_ok (set (m_closed (sy_m s))) v) \<and> map_ok (sy_vs s) (sy_m s)"

lemma leaves_mono: "leaves_ok C v \<Longrightarrow> C \<subseteq> D \<Longrightarrow> leaves_ok D v"
  by (auto simp: leaves_ok_def)

lemma leaves_step:
  assumes "visitor_ok m v" "visitor_step env v m = (v', m')" "leaves_ok (set (m_closed m)) v"
  shows "leaves_ok (set (m_closed m')) v'"
proof -
  obtain f st where "m_forwards m (v_fwd v) = Some f" "m_states m (v_st v) = Some st" "defers_at v"
    using assms(1) by (auto simp: visitor_ok_def split: option.splits)
  then show ?thesis using assms(2,3)
    by (cases "v_pc v") (auto simp: vstep_defs leaves_ok_def split: if_splits sum.splits option.splits)
qed

lemma own_key_step:
  assumes "visitor_ok m v" "visitor_step env v m = (v', m')" "m_forwards m (v_fwd v) = Some f"
    "m_forwards m' (v_fwd v) = Some f'" "gm_get (f_visitors f') (v_conn v) \<noteq> None"
    "gm_get (f_visitors f) (v_conn v) \<noteq> None \<Longrightarrow> tracked v"
  shows "tracked v'"
proof -
  obtain st where "m_states m (v_st v) = Some st" "defers_at v"
    using assms(1) by (auto simp: visitor_ok_def split: option.splits)
  then show ?thesis using assms(2-6)
    by (cases "v_pc v") (auto simp: vstep_defs tracked_def gomap_simps split: if_splits sum.splits option.splits)
qed

lemma map_ok_visit:
  assumes "vis_inv s" "map_ok (sy_vs s) (sy_m s)" "k < length (sy_vs s)" "visitor_step env (sy_vs s ! k) (sy_m s) = (v', m')"
  shows "map_ok ((sy_vs s)[k := v']) m'"
  unfolding map_ok_def
proof (intro allI impI)
  fix fp f' key
  assume f': "m_forwards m' fp = Some f'" and key: "gm_get (f_visitors f') key \<noteq> None"
  let ?v = "sy_vs s ! k"
  have ok: "visitor_ok (sy_m s) ?v" and dist: "distinct (map v_conn (sy_vs s))" using assms(1,3) by (simp_all add: vis_inv_def)
  then obtain f st where fs: "m_forwards (sy_m s) (v_fwd ?v) = Some f" "m_states (sy_m s) (v_st ?v) = Some st" "defers_at ?v"
    by (auto simp: visitor_ok_def split: option.splits)
  note id = step_identity [OF assms(4)]
  have old: "\<exists>w \<in> set ((sy_vs s)[k := v']). v_conn w = key \<and> v_fwd w = fp \<and> tracked w"
    if g: "m_forwards (sy_m s) fp = Some g" "gm_get (f_visitors g) key \<noteq> None" "key \<noteq> v_conn ?v \<or> fp \<noteq> v_fwd ?v" for g
  proof -
    obtain j where j: "j < length (sy_vs s)" "v_conn (sy_vs s ! j) = key" "v_fwd (sy_vs s ! j) = fp" "tracked (sy_vs s ! j)"
      using assms(2) g(1,2) unfolding map_ok_def by (metis in_set_conv_nth)
    then have "j \<noteq> k" using g(3) j(2,3) by auto
    then have "(sy_vs s)[k := v'] ! j = sy_vs s ! j" by simp
    then show ?thesis using j by (metis length_list_update nth_mem)
  qed
  show "\<exists>w \<in> set ((sy_vs s)[k := v']). v_conn w = key \<and> v_fwd w = fp \<and> tracked w"
  proof (cases "fp = v_fwd ?v")
    case False
    then show ?thesis using old f' key step_other_forwards [OF fs(3) assms(4) fs(1,2)] by simp
  next
    case fp: True
    show ?thesis
    proof (cases "key = v_conn ?v")
      case True
      have "tracked ?v" if "gm_get (f_visitors f) (v_conn ?v) \<noteq> None"
      proof -
        obtain w where w: "w \<in> set (sy_vs s)" "v_conn w = v_conn ?v" "tracked w"
          using assms(2) fs(1) \<open>gm_get (f_visitors f) (v_conn ?v) \<noteq> None\<close> unfolding map_ok_def by metis
        then have "w = ?v" using dist assms(3) by (auto simp: distinct_map inj_on_def)
        then show ?thesis using w(3) by simp
      qed
      then have "tracked v'" using own_key_step [OF ok assms(4) fs(1)] f' key fp True by simp
      then show ?thesis using id fp True assms(3) by (intro bexI [of _ v']) (simp_all add: set_update_memI)
    next
      case False
      obtain f2 where "m_forwards m' (v_fwd ?v) = Some f2" "own_entry (v_conn ?v) f f2"
        using step_forward [OF fs(3) assms(4) fs(1,2)] by blast
      then have "gm_get (f_visitors f') key = gm_get (f_visitors f) key"
        using f' fp False by (auto simp: own_entry_def)
      then show ?thesis using old [of f] fs(1) fp key False by simp
    qed
  qed
qed

lemma map_ok_frame:
  assumes "mgr_frame m m'" "map_ok vs m"
  shows "map_ok vs m'"
  unfolding map_ok_def
proof (intro allI impI)
  fix fp f' k
  assume f': "m_forwards m' fp = Some f'" "gm_get (f_visitors f') k \<noteq> None"
  show "\<exists>v \<in> set vs. v_conn v = k \<and> v_fwd v = fp \<and> tracked v"
  proof (cases "m_forwards m fp")
    case None
    with assms(1) f'(1) have "f_visitors f' = []" unfolding mgr_frame_def by blast
    then show ?thesis using f'(2) by simp
  next
    case (Some f)
    with assms(1) f'(1) have "evolves (set (m_closed m')) f f'" unfolding mgr_frame_def by (metis option.inject)
    then have "gm_get (f_visitors f) k \<noteq> None"
      using f'(2) by (auto simp: evolves_def closed_forward_def)
    then show ?thesis using assms(2) Some unfolding map_ok_def by blast
  qed
qed

lemma left_inv_step:
  assumes "sys_step get s s'" "vis_inv s" "left_inv s"
  shows "left_inv s'"
proof -
  have hp: "heap_ok (sy_m s)" using assms(2) by (simp add: vis_inv_def)
  from assms(1) hp show ?thesis
  proof (cases rule: step_kinds)
    case manager
    then have fr: "mgr_frame (sy_m s) (sy_m s')" by (simp add: frames_def)
    then have "set (m_closed (sy_m s)) \<subseteq> set (m_closed (sy_m s'))" by (simp add: mgr_frame_def)
    then show ?thesis using assms(3) manager(2) map_ok_frame [OF fr] leaves_mono unfolding left_inv_def by metis
  next
    case (spawn sp fp vc a)
    then have "leaves_ok C (new_visitor sp fp vc a)" for C by (simp add: leaves_ok_def new_visitor_def)
    then show ?thesis using assms(3) spawn(4) by (auto simp: left_inv_def map_ok_def)
  next
    case (visit k env v' m')
    have ok: "visitor_ok (sy_m s) (sy_vs s ! k)" using assms(2) visit(1) by (simp add: vis_inv_def)
    then obtain f st where "m_forwards (sy_m s) (v_fwd (sy_vs s ! k)) = Some f" "m_states (sy_m s) (v_st (sy_vs s ! k)) = Some st"
      "defers_at (sy_vs s ! k)" by (auto simp: visitor_ok_def split: option.splits)
    then have sub: "set (m_closed (sy_m s)) \<subseteq> set (m_closed m')" using step_frame [OF _ visit(2)] by blast
    have "leaves_ok (set (m_closed m')) v'"
      using leaves_step [OF ok visit(2)] assms(3) visit(1) by (simp add: left_inv_def)
    then have "leaves_ok (set (m_closed m')) w" if "w \<in> set ((sy_vs s)[k := v'])" for w
      using that assms(3) leaves_mono [OF _ sub] set_update_subset_insert [of "sy_vs s" k v'] by (auto simp: left_inv_def)
    then show ?thesis
      using map_ok_visit [OF assms(2) _ visit(1,2)] assms(3) visit(3) by (simp add: left_inv_def)
  qed
qed

lemma reach_left: "sys_reach n s \<Longrightarrow> vis_inv s \<and> left_inv s"
proof (induction rule: sys_reach.induct)
  case init
  have "left_inv (sys_init n)" by (simp add: left_inv_def map_ok_def sys_init_def NewManager_def)
  then show ?case using vis_inv_init by simp
next
  case (step s get s')
  then show ?case using vis_inv_step left_inv_step by metis
qed

section \<open>Progress\<close>

text \<open>
  A run of the system seen from visitor \<open>k\<close>: how many turns it took itself before it returned, how
  many of them were compare-and-swaps it lost, and in how many it waited; everything else may take
  any step in between.
\<close>

inductive visitor_run :: "nat \<Rightarrow> sys \<Rightarrow> nat \<Rightarrow> nat \<Rightarrow> nat \<Rightarrow> sys \<Rightarrow> bool" for k s where
  start: "visitor_run k s 0 0 0 s"
| other: "visitor_run k s n lost idle s1 \<Longrightarrow> sys_step get s1 s2 \<Longrightarrow> sy_vs s2 ! k = sy_vs s1 ! k \<Longrightarrow>
     visitor_run k s n lost idle s2"
| own: "visitor_run k s n lost idle s1 \<Longrightarrow> \<not> returned (sy_vs s1 ! k) \<Longrightarrow>
     live_copy env (sy_vs s1 ! k) \<Longrightarrow> close_unblocks env (sy_vs s1 ! k) (sy_m s1) \<Longrightarrow>
     visitor_step env (sy_vs s1 ! k) (sy_m s1) = (v', m') \<Longrightarrow>
     visitor_run k s (Suc n) (lost + of_bool (lost_cas (sy_vs s1 ! k) (sy_m s1)))
       (idle + of_bool (waits env (sy_vs s1 ! k) (sy_m s1))) (s1\<lparr>sy_m := m', sy_vs := (sy_vs s1)[k := v']\<rparr>)"

lemma step_length:
  assumes "sys_step get s s'" "vis_inv s"
  shows "length (sy_vs s) \<le> length (sy_vs s')"
proof -
  have hp: "heap_ok (sy_m s)" using assms(2) by (simp add: vis_inv_def)
  from assms(1) hp show ?thesis by (cases rule: step_kinds) auto
qed

lemma cut_off_same: "v_fwd w = v_fwd v \<Longrightarrow> v_st w = v_st v \<Longrightarrow> cut_off m w = cut_off m v"
  by (simp add: cut_off_def)

lemma run_reach:
  assumes "visitor_run k s n lost idle s'" "sys_reach c s" "k < length (sy_vs s)"
  shows "sys_reach c s' \<and> k < length (sy_vs s') \<and> n + rank (sy_vs s' ! k) \<le> rank (sy_vs s ! k) + 2 * lost + idle
    \<and> (cut_off (sy_m s) (sy_vs s ! k) \<longrightarrow> cut_off (sy_m s') (sy_vs s' ! k) \<and> idle = 0)"
  using assms
proof (induction rule: visitor_run.induct)
  case (other n lost idle s1 get s2)
  then have s1: "sys_reach c s1" "k < length (sy_vs s1)" by simp_all
  have "cut_off (sy_m s1) (sy_vs s1 ! k) \<Longrightarrow> cut_off (sy_m s2) (sy_vs s2 ! k)"
    using cut_off_step [OF other(2)] reach_inv [OF s1(1)] other(3) by simp
  then show ?case
    using other s1 step_length [OF other(2)] reach_inv [of c s1] sys_reach.step [OF _ other(2)] by (metis order_less_le_trans)
next
  case (own n lost idle s1 env v' m')
  then have s1: "sys_reach c s1" "k < length (sy_vs s1)" "n + rank (sy_vs s1 ! k) \<le> rank (sy_vs s ! k) + 2 * lost + idle"
    and cut: "cut_off (sy_m s) (sy_vs s ! k) \<Longrightarrow> cut_off (sy_m s1) (sy_vs s1 ! k) \<and> idle = 0" by simp_all
  let ?s2 = "s1\<lparr>sy_m := m', sy_vs := (sy_vs s1)[k := v']\<rparr>"
  have "sys_step (\<lambda>_. None) s1 ?s2" using sys_step.visit [OF s1(2) own(5)] .
  then have s2: "sys_reach c ?s2" using s1(1) sys_reach.step by blast
  have inv: "vis_inv s1" using reach_inv [OF s1(1)] by simp
  then have ok: "visitor_ok (sy_m s1) (sy_vs s1 ! k)" using s1(2) by (simp add: vis_inv_def)
  have "Suc (rank v') \<le> rank (sy_vs s1 ! k) + 2 * of_bool (lost_cas (sy_vs s1 ! k) (sy_m s1))
      + of_bool (waits env (sy_vs s1 ! k) (sy_m s1))"
    using rank_step [OF ok own(5,3,2)] .
  moreover have "cut_off m' v' \<and> \<not> waits env (sy_vs s1 ! k) (sy_m s1)" if "cut_off (sy_m s1) (sy_vs s1 ! k)"
  proof -
    have "\<not> waits env (sy_vs s1 ! k) (sy_m s1)"
      using cut_off_no_wait [OF ok _ that own(4)] inv by (simp add: vis_inv_def)
    then show ?thesis
      using cut_off_visit [OF ok own(5) that] cut_off_same [OF step_identity(2,1) [OF own(5)], of m'] by simp
  qed
  ultimately show ?case using s1(2,3) s2 cut by auto
qed simp

lemma can_step:
  assumes "leaves_ok C v"
  obtains env where "live_copy env v" "close_unblocks env v m"
proof -
  let ?env = "\<lambda>b. \<lparr>ve_open = (\<lambda>_ _. Some (Inl [])), ve_in = b, ve_copy = Some 0\<rparr>"
  have un: "close_unblocks (?env b) v m" for b by (auto simp: close_unblocks_def split: vpc.splits option.splits)
  show ?thesis
  proof (cases "v_pc v")
    case (PCopy ch i out)
    have "\<not> (i \<and> out)" using assms PCopy by (simp add: leaves_ok_def)
    then have "live_copy (?env (\<not> i)) v" using PCopy by (auto simp: live_copy_def)
    then show ?thesis using un by (rule that)
  qed (use that [OF _ un [of True]] in \<open>simp_all add: live_copy_def\<close>)
qed

lemma returned_released:
  assumes "sys_reach c s" "k < length (sy_vs s)" "returned (sy_vs s ! k)" "m_forwards (sy_m s) (v_fwd (sy_vs s ! k)) = Some f"
  shows "\<not> holds_slot (sy_vs s ! k) \<and> \<not> in_gauge (sy_vs s ! k) \<and> HVisitor (v_conn (sy_vs s ! k)) \<in> set (m_closed (sy_m s))
    \<and> gm_get (f_visitors f) (v_conn (sy_vs s ! k)) = None"
proof -
  let ?v = "sy_vs s ! k"
  have inv: "vis_inv s" "left_inv s" using reach_left [OF assms(1)] by simp_all
  have ret: "v_pc ?v = PReturn" "v_defers ?v = []" using assms(3) by (simp_all add: returned_def)
  have "leaves_ok (set (m_closed (sy_m s))) ?v" using inv(2) assms(2) by (simp add: left_inv_def)
  then have "HVisitor (v_conn ?v) \<in> set (m_closed (sy_m s))" using ret by (simp add: leaves_ok_def)
  moreover have "gm_get (f_visitors f) (v_conn ?v) = None"
  proof (rule ccontr)
    assume "gm_get (f_visitors f) (v_conn ?v) \<noteq> None"
    then obtain w where w: "w \<in> set (sy_vs s)" "v_conn w = v_conn ?v" "tracked w"
      using inv(2) assms(4) unfolding left_inv_def map_ok_def by metis
    then have "w = ?v" using inv(1) assms(2) by (auto simp: vis_inv_def distinct_map inj_on_def)
    then show False using w(3) ret(2) by (simp add: tracked_def)
  qed
  ultimately show ?thesis using ret by (simp add: holds_slot_def in_gauge_def)
qed

text \<open>
  (C10) A visitor returns once it is cut off. Under every interleaving with other visitors, teardowns
  and registrations, a visitor goroutine takes at most 14 turns of its own, plus two for each
  compare-and-swap it lost to another goroutine and one for each turn in which \<open>OpenChannel\<close> or
  a copy went on waiting. If its forward and its SSH connection are closed, as a teardown, a
  takeover and the end of the connection close them, no turn waits: closing the forward has closed
  the visitor's socket and channel, so both copies end, and the goroutine returns within 14 turns
  plus two for each lost compare-and-swap. When it has returned it holds no slot, is not counted in
  the gauge, its socket is closed and its forward no longer tracks it. Until then it can be scheduled.
\<close>

theorem visitor_returns:
  assumes "sys_reach maxVisitors s" "k < length (sy_vs s)" "visitor_run k s n lost idle s'"
  shows "n \<le> 14 + 2 * lost + idle
    \<and> (cut_off (sy_m s) (sy_vs s ! k) \<longrightarrow> idle = 0)
    \<and> (\<not> returned (sy_vs s' ! k) \<longrightarrow> (\<exists>lost' idle' s''. visitor_run k s (Suc n) lost' idle' s''))
    \<and> (returned (sy_vs s' ! k) \<longrightarrow> \<not> holds_slot (sy_vs s' ! k) \<and> \<not> in_gauge (sy_vs s' ! k)
        \<and> HVisitor (v_conn (sy_vs s' ! k)) \<in> set (m_closed (sy_m s'))
        \<and> (\<forall>f. m_forwards (sy_m s') (v_fwd (sy_vs s' ! k)) = Some f \<longrightarrow> gm_get (f_visitors f) (v_conn (sy_vs s' ! k)) = None))"
proof -
  have r: "sys_reach maxVisitors s'" "k < length (sy_vs s')" "n + rank (sy_vs s' ! k) \<le> rank (sy_vs s ! k) + 2 * lost + idle"
    "cut_off (sy_m s) (sy_vs s ! k) \<longrightarrow> idle = 0"
    using run_reach [OF assms(3,1,2)] by simp_all
  have "visitor_ok (sy_m s) (sy_vs s ! k)" "visitor_ok (sy_m s') (sy_vs s' ! k)"
    using reach_inv [OF assms(1)] reach_inv [OF r(1)] assms(2) r(2) by (simp_all add: vis_inv_def)
  then have "rank (sy_vs s ! k) \<le> 14" using rank_bound by (simp add: visitor_ok_def)
  then have "n \<le> 14 + 2 * lost + idle" using r(3) by simp
  moreover have "\<exists>lost' idle' s''. visitor_run k s (Suc n) lost' idle' s''" if "\<not> returned (sy_vs s' ! k)"
  proof -
    have "leaves_ok (set (m_closed (sy_m s'))) (sy_vs s' ! k)" using reach_left [OF r(1)] r(2) by (simp add: left_inv_def)
    then obtain env where "live_copy env (sy_vs s' ! k)" "close_unblocks env (sy_vs s' ! k) (sy_m s')" by (rule can_step)
    then show ?thesis using visitor_run.own [OF assms(3) that, of env] by (metis surj_pair)
  qed
  ultimately show ?thesis using returned_released [OF r(1,2)] r(4)
    \<open>visitor_ok (sy_m s') (sy_vs s' ! k)\<close> by (auto simp: visitor_ok_def split: option.splits)
qed

section \<open>A run to the end\<close>

text \<open>The lease of the example is torn down while its visitor copies; both copies end and the deferred calls run.\<close>

definition demo_returned :: "nat \<Rightarrow> sys" where
  "demo_returned n = (do_visit demo_env 0 ^^ n) (do_visit (demo_env\<lparr>ve_in := False\<rparr>) 0 (do_visit demo_env 0 demo_closed))"

lemma demo_cut: "demo_closed = \<lparr>sy_m = \<lparr>m_leases = [], m_maxVisitors = 1,
     m_states = [0 \<mapsto> (new_state 7)\<lparr>ls_forward := Some 1, ls_visitors := 1\<rparr>],
     m_forwards = [1 \<mapsto> demo_fwd\<lparr>f_closeOnce := True, f_closed := True\<rparr>], m_brk = 2,
     m_closed = [HListener 3, HVisitor 5, HChannel 9, HConn 7], m_visitorConns = 1, m_bytesFwd = (0, 0)\<rparr>,
     sy_vs = [\<lparr>v_st = 0, v_fwd = 1, v_conn = 5, v_addr = TCPAddr None ''192.0.2.1:80'', v_pc = PCopy 9 False False,
       v_defers = DCloseChannel 9 # DRelease # base_defers\<rparr>], sy_todo = []\<rparr>"
  by (simp add: demo_closed_def do_tail_def do_teardown_def Teardown_cs_def demo_copying_eq run_task_def
      forward_close_def demo_fwd_def new_state_def log_close_def upd_forward_def visitor_handles_def)

lemma run_do_visit:
  assumes "visitor_run k s n 0 0 s1" "\<not> returned (sy_vs s1 ! k)" "live_copy env (sy_vs s1 ! k)"
    "\<not> lost_cas (sy_vs s1 ! k) (sy_m s1)" "v_pc (sy_vs s1 ! k) \<noteq> POpen" "ve_copy env \<noteq> None"
  shows "visitor_run k s (Suc n) 0 0 (do_visit env k s1)"
proof -
  obtain v' m' where step: "visitor_step env (sy_vs s1 ! k) (sy_m s1) = (v', m')" by fastforce
  have "close_unblocks env (sy_vs s1 ! k) (sy_m s1)" "\<not> waits env (sy_vs s1 ! k) (sy_m s1)"
    using assms(5,6) by (auto simp: close_unblocks_def waits_def split: vpc.splits)
  from visitor_run.own [OF assms(1-3) this(1) step] this(2) show ?thesis using assms(4) step by (simp add: do_visit_def)
qed

lemmas demo_eval =
  demo_cut do_visit_def visitor_step_def handleVisitor_step_def run_deferred_def untrackVisitor_def upd_state_def
  upd_forward_def log_close_def demo_env_def base_defers_def demo_fwd_def new_state_def add_in_def add_out_def

lemma demo_in: "v_pc (sy_vs (do_visit demo_env 0 demo_closed) ! 0) = PCopy 9 True False"
  by (simp add: demo_eval)

definition demo_end :: "deferred list \<Rightarrow> visitor" where
  "demo_end ds = \<lparr>v_st = 0, v_fwd = 1, v_conn = 5, v_addr = TCPAddr None ''192.0.2.1:80'', v_pc = PReturn, v_defers = ds\<rparr>"

lemma demo_out:
  "sy_vs (demo_returned 0) = [demo_end (DCloseChannel 9 # DRelease # base_defers)]"
  "sy_vs (demo_returned 1) = [demo_end (DRelease # base_defers)]"
  "sy_vs (demo_returned 2) = [demo_end (DGaugeDec # base_defers)]"
  "sy_vs (demo_returned 3) = [demo_end base_defers]"
  "sy_vs (demo_returned 4) = [demo_end [DCloseVisitor]]"
  "sy_vs (demo_returned 5) = [demo_end []]"
  by (simp_all add: demo_returned_def demo_end_def demo_eval numeral_eq_Suc)

lemma demo_run: "visitor_run 0 demo_closed 7 0 0 (demo_returned 5)"
proof -
  let ?s1 = "do_visit demo_env 0 demo_closed"
  have env: "ve_copy demo_env \<noteq> None" "ve_in demo_env" by (simp_all add: demo_env_def)
  have 1: "visitor_run 0 demo_closed 1 0 0 ?s1"
    using run_do_visit [where k = 0 and env = demo_env, OF visitor_run.start [of 0 demo_closed]] env
    by (simp add: demo_cut returned_def live_copy_def lost_cas_def)
  have 2: "visitor_run 0 demo_closed 2 0 0 (demo_returned 0)"
    using run_do_visit [OF 1, of "demo_env\<lparr>ve_in := False\<rparr>"] env
    by (simp add: demo_in returned_def live_copy_def lost_cas_def demo_returned_def numeral_2_eq_2)
  have at: "list_all (\<lambda>n. v_pc (sy_vs (demo_returned n) ! 0) = PReturn \<and> v_defers (sy_vs (demo_returned n) ! 0) \<noteq> []) [0, 1, 2, 3, 4]"
    by (simp only: list.pred_inject demo_out) (simp add: demo_end_def base_defers_def)
  have "visitor_run 0 demo_closed (2 + n) 0 0 (demo_returned n)" if "n \<le> 5" for n
    using that
  proof (induction n)
    case (Suc n)
    then have "n \<in> {0, 1, 2, 3, 4}" by auto
    then have "v_pc (sy_vs (demo_returned n) ! 0) = PReturn" "v_defers (sy_vs (demo_returned n) ! 0) \<noteq> []" using at by auto
    then show ?case
      using Suc run_do_visit [where k = 0 and ?s1.0 = "demo_returned n" and env = demo_env] env
      by (simp add: returned_def live_copy_def lost_cas_def demo_returned_def)
  qed (use 2 in simp)
  from this [of 5] show ?thesis by simp
qed

theorem visitor_returns_witness:
  "cut_off (sy_m demo_closed) (sy_vs demo_closed ! 0)
   \<and> HVisitor 5 \<in> set (m_closed (sy_m (demo_returned 5))) \<and> \<not> holds_slot (sy_vs (demo_returned 5) ! 0)
   \<and> (\<exists>lost idle s. visitor_run 0 demo_closed 1 lost idle s)"
proof -
  have len: "0 < length (sy_vs demo_closed)" by (simp add: demo_cut)
  have "cut_off (sy_m demo_closed) (sy_vs demo_closed ! 0)" by (simp add: demo_cut cut_off_def new_state_def)
  moreover have "returned (sy_vs (demo_returned 5) ! 0) \<and> v_conn (sy_vs (demo_returned 5) ! 0) = 5"
    by (simp add: demo_out demo_end_def returned_def)
  moreover have "\<not> returned (sy_vs demo_closed ! 0)" by (simp add: demo_cut returned_def)
  ultimately show ?thesis
    using visitor_returns [OF demo_reach(2) len demo_run] visitor_returns [OF demo_reach(2) len visitor_run.start] by simp
qed

end
