(* ===== verification/Spec2Isabelle.thy ===== *)
theory Spec2Isabelle
  imports Running Shutdown Instruments Visitor_Liveness
begin

text \<open>
  Verification of hyrule-network-proxy, two Go programs under \<open>src/\<close>.

  \<^bold>\<open>The tunnel daemon\<close> (\<open>src/cmd/hyrule-tunnel-proxy\<close>, \<open>src/internal/tunnel\<close>) rents public TCP
  ports. A control API, called by the billing side, creates, extends and revokes leases; a lease has
  a token and a port. A host behind NAT connects by SSH with the token as its user name and asks for
  a remote forward; the daemon then listens on the port of the lease and copies every visitor of that
  port through an SSH channel. A sweeper ends expired leases, a STUN responder tells callers their
  address. The parts share a lease store and a forward manager and run in many goroutines.

  \<^bold>\<open>The egress sidecar\<close> (\<open>src/cmd/hyrule-network-proxy\<close>, the other packages of \<open>src/internal\<close>)
  fetches URLs for authorized callers over the open internet, Tor, I2P or Yggdrasil, and must not be
  turned against private addresses.

  \<^bold>\<open>Theories and sources.\<close>
  \<^item> \<open>Prelude\<close>: results, 64-bit wrap-around, time, Go maps as association lists with their laws, and
    the collection \<open>gomap_simps\<close>. \<open>Go_Strings\<close>, \<open>Go_Net\<close>: what the sources use of \<open>strings\<close>,
    \<open>strconv\<close>, \<open>net\<close> and \<open>netip\<close>; what depends on Unicode tables is the parameter \<open>unicode\<close>.
    \<open>Http\<close>: response writers, the router, bounded reads, the bearer check. \<open>Contract\<close>: wire types.
  \<^item> \<open>Allocator\<close> (\<open>lease/allocator.go\<close>), \<open>Token\<close>, \<open>Lease_Store\<close>, \<open>Lease_Invariant\<close>, \<open>Lease_Ops\<close>,
    \<open>Lease_Restart\<close>, \<open>Lease_Properties\<close> (\<open>lease/store.go\<close>): the record \<open>Store\<close> has the two indexes,
    the heap of leases they point to, the port allocator and the database. \<open>Reference_Store\<close> holds the
    concrete database and codec the witnesses use.
  \<^item> \<open>Forward\<close>, \<open>Visitors\<close>, \<open>Manager_Frame\<close>, \<open>Visitor_Invariant\<close>, \<open>Visitor_Liveness\<close>
    (\<open>sshd/forward.go\<close>): the record \<open>Manager\<close>, each operation as a critical section and the work left
    after it, and the visitor goroutine as a program counter with its deferred calls.
    \<open>Limiter\<close> (\<open>sshd/limiter.go\<close>). \<open>Sshd_Server\<close> (\<open>sshd/server.go\<close>): authentication, the connection
    handler step by step, the accept loop, keepalives and the host key. \<open>Connections\<close>: all
    connections of a running server together, each handler releasing the manager's lock where the code does.
    \<open>Running\<close>: those connections with the store, the API calls and the sweeper.
  \<^item> \<open>Tunnel_Config\<close> (\<open>tunnel/config\<close>), \<open>Coordinator\<close> (\<open>tunnel/coordinator.go\<close>), \<open>Lifecycle\<close> (store,
    manager, API and sweeper interleaved), \<open>Control\<close> (\<open>tunnel/control\<close>), \<open>Stun\<close> (\<open>tunnel/stun\<close>).
  \<^item> \<open>Policy\<close> (\<open>internal/policy\<close>), \<open>Proxy_Config\<close> (\<open>internal/config\<close>), \<open>Transport\<close>
    (\<open>internal/transport\<close>), \<open>Egress_Server\<close> (\<open>internal/server\<close>, \<open>internal/metrics\<close>).
  \<^item> \<open>Daemon\<close> (the two \<open>main.go\<close>): what a start builds, the sweeper loop, the metrics routes.
    \<open>Shutdown\<close>: how signals and failures end the two processes, one event at a time, and how the
    background loops stop. \<open>Instruments\<close> (\<open>tunnel/metrics\<close>, \<open>internal/metrics\<close>, \<open>logRequest\<close>): the
    Prometheus instruments and their labels, and the request log. This theory has the properties that
    span components.

  \<^bold>\<open>How code becomes definitions.\<close> An operation is a function from the state to its result and the
  next state; an error is a value. Pointers shared by goroutines are addresses in a heap. What one
  goroutine does between two accesses to shared state is one step, and \<open>sys_step\<close>, \<open>life_step\<close>,
  \<open>conn_step\<close> and \<open>running_step\<close> interleave such steps in any order. Handles (connections, listeners, channels)
  are numbers and closing one is recorded. Loops on the outside world recurse on the list of answers
  it gives.

  \<^bold>\<open>Parameters.\<close> Third-party code is an argument: bbolt (\<open>bolt\<close>, with \<open>bolt_ok\<close>: an update commits
  all or nothing, a write is read back), the JSON codec of leases (\<open>codec_ok\<close>: decoding an encoded lease
  with valid UTF-8 gives it back), JSON decoders of requests, the SSH handshake (\<open>handshake_ok\<close>: a
  connection is authenticated by one of the callbacks the configuration offers, with the permissions
  that callback returned), key encodings, \<open>pion/stun\<close>, the Prometheus client (\<open>registry_ok\<close>: valid
  instruments with different names can be registered), \<open>url.Parse\<close> (\<open>urls_ok\<close>: the text of a URL parses to
  the same scheme, host and user; nothing is assumed of the host), name lookups, the clock, randomness, and
  outcomes of system calls: what \<open>net.Listen\<close> answers when a port is probed, and what a failed write of the host
  key leaves in its file. Calls that block, \<open>OpenChannel\<close> and the copies of a visitor, wait as long as
  the environment says, with one law (\<open>close_unblocks\<close>): a call on a handle that has been closed
  ends. \<open>token_fresh\<close> says that a minted token is not one in use, which 160 random bits make as good as certain.

  \<^bold>\<open>What is shown.\<close>
  \<^item> Leases: ports and tokens are exclusive in every store any history of operations, failures and
    restarts can reach; every operation is characterised on every branch; a restart gives back the leases
    exactly. The locales \<open>port_pool\<close>, \<open>lease_lookup\<close> and \<open>lease_service\<close> are the interfaces between
    allocator and store, store and SSH server, coordinator and API; \<open>guarded_front\<close> is the contract of
    the two HTTP services, \<open>stoppable\<close> and \<open>graceful\<close> those of the two processes, \<open>event_loop\<close> that of the background
    loops; each is interpreted on the model.
  \<^item> Tunnels: the visitor cap, the reach of a teardown and the absence of orphaned listeners under every
    interleaving; the handler refines the interleaved manager and leaves no registration of its own; only the owner of a live lease opens its
    port; a lease has one live connection, whatever its holder opens; a lease that has left the store is
    cut off from connections, listeners and logins; the allowlist of a lease decides who gets past its
    port; a visitor whose forward and connection are closed returns after a bounded number of its own turns, none
    of which waits, and leaves nothing behind.
  \<^item> Intake: the rate and memory bounds of the limiter, keepalives, the host key.
  \<^item> API and start: the bearer check, exact handling of bodies, the life of a lease over HTTP, what an
    accepted configuration and a start establish, and the way from a created lease to its open port.
  \<^item> Processes: both programs end after a signal or a failure, at the latest ten seconds after \<open>main\<close> has seen it
    however many connections stay active, with their servers shut down; loops act on nothing after they are told to stop; the metric series are bounded.
  \<^item> Egress: the addresses each mode may reach, exactly; every request sent and every address dialed is
    allowed; responses are bounded and carry no denied header; nothing is sent without authorization.
    Three exceptions are part of the statements: the Tor dialer passes on names under \<open>.onion\<close>
    without a lookup; a host name that ends with a stray bracket can pass the direct-mode checks without one
    (lemma \<open>bracketed_onion_unchecked\<close>; the dialer then refuses it); and \<open>http.Client\<close> adds
    \<open>Referer\<close> to redirected requests (lemma \<open>redirect_sends_referer\<close>).

  \<^bold>\<open>Bounds and measures.\<close> There is no fuel. \<open>allocate_loop\<close> recurses on the number of candidates,
  which is the size of the range, as in the source. \<open>client_Do\<close> ends because the redirect policy refuses
  more redirects than configured. The rank of a visitor starts at 14 and falls with each of its turns but
  a lost compare-and-swap and one that goes on waiting. A stopping process has at most four turns of \<open>main\<close> left, of
  which the two shutdown calls wait for active connections until their shared context of ten seconds is done. Statements about durations assume values below the largest 64-bit integer where
  the source would wrap, and lemmas named in the findings show the wrap.

  \<^bold>\<open>Not modelled.\<close> Log lines other than the request log, which nothing reads; the text the Prometheus client writes for a scrape; the bytes of HTTP, JSON
  and SSH on the wire; the copying of bytes itself, of which only the end and the count appear; canonical
  header names; closing the database, which only releases its file.
\<close>

section \<open>A start of the tunnel daemon\<close>

text \<open>
  What a database file can hold when the daemon starts: nothing, or what a consistent store of
  an earlier run left; the leases in it.
\<close>

definition left_behind :: "'db bolt \<Rightarrow> codec \<Rightarrow> 'db \<Rightarrow> (string \<Rightarrow> Lease option) \<Rightarrow> bool" where
  "left_behind B J db G \<longleftrightarrow> rows B db = Map.empty \<and> G = Map.empty \<or> (\<exists>old. store_inv B J old \<and> db = s_db old \<and> G = Get old)"

lemma open_left_behind:
  assumes "left_behind B J db G" "bolt_ok B" "mn \<le> mx" "Open B J now mn mx (Inr db) = Inr s"
  shows "store_inv B J s" "Get s = retained now mn mx G"
proof -
  have "store_inv B J s \<and> Get s = retained now mn mx G"
    using assms(1) unfolding left_behind_def
  proof (elim disjE exE conjE)
    assume fresh: "rows B db = Map.empty" "G = Map.empty"
    then have sv: "survivors B J now mn mx db = Map.empty" by (simp add: survivors_def fun_eq_iff)
    then have "Get s = Map.empty"
      using open_spec(2) [OF assms(2,3) _ _ assms(4)] by (simp add: loadable_def)
    then show ?thesis
      using open_fresh_inv [OF assms(2,3) fresh(1) assms(4)] fresh(2) by (simp add: retained_def fun_eq_iff)
  next
    fix old assume "store_inv B J old" "db = s_db old" "G = Get old"
    then show ?thesis using restart_spec [OF _ assms(2,3)] assms(4) by simp
  qed
  then show "store_inv B J s" "Get s = retained now mn mx G" by simp_all
qed

text \<open>
  (C18) A start establishes what the components rely on. When the daemon starts on an empty
  database or one left by any earlier run, it has exactly the leases of that run that have not
  expired and whose port is in the configured range, in a consistent store over ports between 1 and
  65535; the coordinator and the SSH server share one empty manager with a positive visitor cap, so
  the interleaved system, the connections and the API start in their initial states; the limiter is fresh, with settings for which
  the rate bound holds; the control token has at least 32 bytes. A start whose configuration is refused
  has touched no file.
\<close>

theorem boot_establishes:
  assumes "tunnel_main E fs = (res, fs')" "bolt_ok (be_bolt E)"
    "\<forall>cfg db. Tunnel_Config.Load (be_U E) (be_lookup E) (be_environ E) = Inr cfg \<longrightarrow>
       be_open E (filepath_Join (c_StateDir cfg) ''leases.db'') = Inr db \<longrightarrow> left_behind (be_bolt E) (be_codec E) db G"
  shows "case res of
     Inl (ev, e) \<Rightarrow> ev \<noteq> ''ssh_server_init_failed'' \<longrightarrow> fs' = fs
   | Inr d \<Rightarrow>
       (let cfg = da_cfg d; c = ap_svc (da_api d); srv = da_server d in
        store_inv (be_bolt E) (be_codec E) (co_store c)
        \<and> (\<forall>i. Get (co_store c) i =
              (case G i of None \<Rightarrow> None
               | Some l \<Rightarrow> if be_now E < l_ExpiresAt l \<and> c_DataPortMin cfg \<le> l_AllocatedPort l \<and> l_AllocatedPort l \<le> c_DataPortMax cfg
                          then Some l else None))
        \<and> 1 \<le> c_DataPortMin cfg \<and> c_DataPortMax cfg \<le> 65535 \<and> 32 \<le> length (c_AuthToken cfg)
        \<and> co_manager c = sv_manager srv \<and> sv_manager srv = sy_m (sys_init (c_MaxVisitorConnsPerLease cfg))
        \<and> 0 < c_MaxVisitorConnsPerLease cfg
        \<and> life_reach (be_bolt E) (be_codec E)
            \<lparr>li_store = co_store c, li_sys = sys_init (c_MaxVisitorConnsPerLease cfg), li_down = []\<rparr>
        \<and> running_reach (be_bolt E) (be_codec E) W (c_MaxVisitorConnsPerLease cfg)
            \<lparr>ru_store = co_store c, ru_conns = conns_init srv, ru_down = []\<rparr>
        \<and> api_reach (be_U E) (c_AuthToken cfg) cfg (da_api d)
        \<and> sv_limiter srv = newAuthLimiter (c_AuthAttemptsPerWindow cfg) (c_AuthWindow cfg)
        \<and> 1 \<le> c_AuthAttemptsPerWindow cfg \<and> 0 < c_AuthWindow cfg \<and> c_AuthWindow cfg < 2 ^ 63 - 1)"
proof (cases res)
  case (Inl ee)
  then show ?thesis using assms(1) by (auto simp: tunnel_main_def split: sum.splits option.splits prod.splits)
next
  case (Inr d)
  obtain store where run: "Tunnel_Config.Load (be_U E) (be_lookup E) (be_environ E) = Inr (da_cfg d)"
    "Open (be_bolt E) (be_codec E) (be_now E) (c_DataPortMin (da_cfg d)) (c_DataPortMax (da_cfg d))
       (be_open E (filepath_Join (c_StateDir (da_cfg d)) ''leases.db'')) = Inr store"
    "New (be_key E) (sshd_config (da_cfg d)) fs = (Inr (da_server d), fs')"
    "da_api d = control_New (NewCoordinator store (sv_manager (da_server d)))"
    using tunnel_main_parts assms(1) Inr by metis
  have ok: "Tunnel_Config.config_ok (be_lookup E) (da_cfg d)" by (rule load_parts [OF run(1)]) simp
  then have cfg: "1 \<le> c_DataPortMin (da_cfg d)" "c_DataPortMin (da_cfg d) \<le> c_DataPortMax (da_cfg d)" "c_DataPortMax (da_cfg d) \<le> 65535"
    "32 \<le> length (c_AuthToken (da_cfg d))" "0 < c_MaxVisitorConnsPerLease (da_cfg d)" "1 \<le> c_AuthAttemptsPerWindow (da_cfg d)"
    "0 < c_AuthWindow (da_cfg d)" by (simp_all add: Tunnel_Config.config_ok_def)
  obtain db where db: "be_open E (filepath_Join (c_StateDir (da_cfg d)) ''leases.db'') = Inr db"
    "left_behind (be_bolt E) (be_codec E) db G"
    using run(1,2) assms(3)
    by (cases "be_open E (filepath_Join (c_StateDir (da_cfg d)) ''leases.db'')") (auto simp: Open_def)
  note st = open_left_behind [OF db(2) assms(2) cfg(2) run(2) [unfolded db(1)]]
  have c: "co_store (ap_svc (da_api d)) = store" "co_manager (ap_svc (da_api d)) = sv_manager (da_server d)"
    by (simp_all add: run(4) control_New_def)
  note srv = New_server [OF run(3)]
  have "Get store i = (case G i of None \<Rightarrow> None
      | Some l \<Rightarrow> if be_now E < l_ExpiresAt l \<and> c_DataPortMin (da_cfg d) \<le> l_AllocatedPort l \<and> l_AllocatedPort l \<le> c_DataPortMax (da_cfg d)
                 then Some l else None)" for i
    by (simp add: st(2) retained_def Expired_def time_Before_def split: option.splits)
  moreover have "sv_manager (da_server d) = sy_m (sys_init (c_MaxVisitorConnsPerLease (da_cfg d)))"
    "sv_limiter (da_server d) = newAuthLimiter (c_AuthAttemptsPerWindow (da_cfg d)) (c_AuthWindow (da_cfg d))"
    using srv(1,2) by (simp_all add: sshd_config_def sys_init_def)
  moreover have "running_reach (be_bolt E) (be_codec E) W (c_MaxVisitorConnsPerLease (da_cfg d))
      \<lparr>ru_store = store, ru_conns = conns_init (da_server d), ru_down = []\<rparr>"
    using running_New [OF st(1) run(3)] by (simp add: sshd_config_def)
  moreover have "api_reach (be_U E) (c_AuthToken (da_cfg d)) (da_cfg d) (da_api d)" unfolding run(4) by (rule api_reach.boot)
  ultimately show ?thesis
    unfolding Inr Let_def sum.case c using st(1) cfg load_window [OF run(1)] life_reach.boot [OF st(1)] by blast
qed

text \<open>A start on the database that holds the lease of the reference run, before it expires.\<close>

definition demo_boot_env :: "(string, string, memdb) boot_env" where
  "demo_boot_env = \<lparr>be_U = plain_unicode, be_lookup = (\<lambda>_. None), be_environ = demo_environ, be_mkdir = (\<lambda>_. None),
     be_open = (\<lambda>_. Inr (s_db ref_store1)), be_bolt = mem_bolt, be_codec = ref_codec, be_now = 9, be_key = demo_keyio ''1''\<rparr>"

lemma demo_started: "\<exists>d fs'. tunnel_main demo_boot_env Map.empty = (Inr d, fs') \<and> c_DataPortMin (da_cfg d) = 10000 \<and> c_DataPortMax (da_cfg d) = 10499"
proof -
  obtain cfg where cfg: "Tunnel_Config.Load plain_unicode (\<lambda>_. None) demo_environ = Inr cfg"
      "c_DataPortMin cfg = 10000" "c_DataPortMax cfg = 10499"
    using demo_loaded by blast
  obtain m where m: "s_db ref_store1 = Some m"
    using store_inv_parts(4) [OF ref_store1_inv] by (auto simp: mem_bolt_def)
  obtain s where "Open mem_bolt ref_codec 9 10000 10499 (Inr (s_db ref_store1)) = Inr s" using mem_open_ok m by metis
  then show ?thesis
    using cfg by (simp add: tunnel_main_def demo_boot_env_def New_def loadOrCreateHostKey_def demo_keyio_def Let_def)
qed

theorem boot_establishes_witness:
  "\<exists>d fs'. tunnel_main demo_boot_env Map.empty = (Inr d, fs') \<and> Get (co_store (ap_svc (da_api d))) ''a'' = Some ref_lease"
proof -
  obtain d fs' where run: "tunnel_main demo_boot_env Map.empty = (Inr d, fs')" and rg: "c_DataPortMin (da_cfg d) = 10000" "c_DataPortMax (da_cfg d) = 10499"
    using demo_started by blast
  have env: "be_bolt demo_boot_env = mem_bolt" "be_codec demo_boot_env = ref_codec" "be_now demo_boot_env = 9"
    "\<And>p. be_open demo_boot_env p = Inr (s_db ref_store1)" by (simp_all add: demo_boot_env_def)
  have "left_behind mem_bolt ref_codec (s_db ref_store1) (Get ref_store1)"
    using ref_store1_inv by (auto simp: left_behind_def)
  then have lb: "\<forall>cfg db. Tunnel_Config.Load (be_U demo_boot_env) (be_lookup demo_boot_env) (be_environ demo_boot_env) = Inr cfg \<longrightarrow>
      be_open demo_boot_env (filepath_Join (c_StateDir cfg) ''leases.db'') = Inr db \<longrightarrow>
      left_behind (be_bolt demo_boot_env) (be_codec demo_boot_env) db (Get ref_store1)"
    by (simp add: env)
  have "bolt_ok (be_bolt demo_boot_env)" using mem_bolt_ok by (simp add: env)
  note b = boot_establishes [OF run this lb, unfolded sum.case Let_def]
  have "Get (co_store (ap_svc (da_api d))) ''a'' = Some ref_lease"
    using b [THEN conjunct2, THEN conjunct1, THEN spec, of "''a''"]
    by (simp add: env rg ref_store1_get) (simp add: ref_lease_def)
  then show ?thesis using run by blast
qed

section \<open>From the payment to the port\<close>

lemma created_lease:
  assumes "coord_inv x c" "create_pre x req c" "CreateLease cfg x req c = (Inr r, c')"
  obtains l where "Get (co_store c') (cr_LeaseID req) = Some l" "ByToken (co_store c') (lr_Token r) = Some l"
    "l_LeaseID l = cr_LeaseID req" "lr_Port r = l_AllocatedPort l" "lr_ExpiresAt r = l_ExpiresAt l"
proof -
  define p where "p = \<lparr>cp_LeaseID = cr_LeaseID req, cp_Duration = clampDuration cfg (cr_DurationSeconds req),
    cp_AllowlistCIDRs = cr_AllowlistCIDRs req\<rparr>"
  have pre: "params_wire p" "token_fresh (x_rnd x) (co_store c)"
    using assms(2) by (simp_all add: params_wire_def p_def create_pre_def)
  obtain l where run: "Create (x_bolt x) (x_codec x) (x_probe x) (x_rnd x) (x_now x) p (co_store c) = (Inr l, co_store c')"
    and r: "r = toResponse cfg (co_manager c) l True"
    using assms(3) by (auto simp: CreateLease_def p_def Let_def split: prod.splits sum.splits)
  note cr = create_result [OF _ _ _ pre run]
  show ?thesis
    by (rule that [of l]) (use cr assms(1) in \<open>simp_all add: coord_inv_def p_def r\<close>)
qed

lemma StartForward_registered:
  assumes "RegisterConn get now c i m = (True, m')" "lease_live get now i = Some l"
  shows "fst (StartForward get now listen c i b p m') =
    (case listen (l_AllocatedPort l) of
       Inl e \<Rightarrow> Inl (ErrBind (''bind data port '' @ Itoa (l_AllocatedPort l) @ '': '' @ e))
     | Inr ln \<Rightarrow> Inr (l_AllocatedPort l, if p = 0 then word_of_int (l_AllocatedPort l) else p))"
proof -
  obtain ts m1 where cs: "RegisterConn_cs get now c i m = ((True, ts), m1)" "m' = run_tasks ts m1"
    using assms(1) by (auto simp: RegisterConn_def split: prod.splits)
  have keep: "m_states (run_tasks us m0) = m_states m0" for us m0 by (induction us arbitrary: m0) simp_all
  have "gm_get (m_leases m1) i = Some (m_brk m)" "m_states m1 (m_brk m) = Some (new_state c)"
    using cs(1) assms(2) by (auto simp: RegisterConn_cs_def Let_def upd_state_def gomap_simps split: option.splits)
  then show ?thesis
    by (auto simp: StartForward_def assms(2) cs(2) keep new_state_def Let_def split: sum.splits)
qed

text \<open>
  (C5) From the payment to the port. When an authorized create over the control API is answered
  200, the lease it returns works until it expires: an SSH client that gives the returned token as its
  user name is authenticated as that lease, its connection is registered whatever other connections
  the manager knows, and its first forward request listens on exactly the returned port and succeeds
  exactly when the port can be bound.
\<close>

theorem paid_lease_works:
  assumes "coord_inv x (ap_svc a)" "authorized U token ''POST'' [''v1'', ''leases''] q"
    "one_value (dec_create D) (hq_Body q) req" "create_pre x req (ap_svc a)"
    "Router U token (coordinator_service cfg x) D q a = (w, a')" "rp_status w = Some 200"
  shows "\<exists>r. rp_body w = [JSON (BLease r)] \<and> (\<forall>now. now < lr_ExpiresAt r \<longrightarrow>
     (let st = co_store (ap_svc a'); i = cr_LeaseID req in
      authByToken (store_moment st now) (lr_Token r) s = (Inr [(''lease_id'', i)], s)
      \<and> (case RegisterConn (Get st) now c i m of (ok, m') \<Rightarrow>
           ok \<and> fst (StartForward (Get st) now listen c i b p m') =
             (case listen (lr_Port r) of
                Inl e \<Rightarrow> Inl (ErrBind (''bind data port '' @ Itoa (lr_Port r) @ '': '' @ e))
              | Inr ln \<Rightarrow> Inr (lr_Port r, if p = 0 then word_of_int (lr_Port r) else p)))))"
proof -
  let ?S = "coordinator_service cfg x"
  obtain v c' where hc: "handleCreate U ?S D (hq_Body q) fresh_recorder (ap_svc a) = (v, c')" by fastforce
  then have w: "w = sr_writer v" "ap_svc a' = c'"
    using Router_authorized [OF assms(2) route_ops(1), of ?S D a v c'] assms(5) by (auto simp: control_handler_def)
  have dec: "decodeJSON (dec_create D) (hq_Body q) = Inr req" using assms(3) by (simp add: decodeJSON_iff)
  obtain r where r: "CreateLease cfg x req (ap_svc a) = (Inr r, c')" "rp_body w = [JSON (BLease r)]"
    using hc assms(6) dec
    by (auto simp: w handleCreate_def coordinator_service_def split: if_splits prod.splits sum.splits lease_error.splits)
  obtain l where l: "Get (co_store c') (cr_LeaseID req) = Some l" "ByToken (co_store c') (lr_Token r) = Some l"
    "l_LeaseID l = cr_LeaseID req" "lr_Port r = l_AllocatedPort l" "lr_ExpiresAt r = l_ExpiresAt l"
    using created_lease [OF assms(1,4) r(1)] .
  have "let st = co_store c'; i = cr_LeaseID req in
      authByToken (store_moment st now) (lr_Token r) s = (Inr [(''lease_id'', i)], s)
      \<and> (case RegisterConn (Get st) now c i m of (ok, m') \<Rightarrow>
           ok \<and> fst (StartForward (Get st) now listen c i b p m') =
             (case listen (lr_Port r) of
                Inl e \<Rightarrow> Inl (ErrBind (''bind data port '' @ Itoa (lr_Port r) @ '': '' @ e))
              | Inr ln \<Rightarrow> Inr (lr_Port r, if p = 0 then word_of_int (lr_Port r) else p)))" if "now < lr_ExpiresAt r" for now
  proof -
    have live: "lease_live (Get (co_store c')) now (cr_LeaseID req) = Some l" "\<not> Expired l now"
      using l(1,5) that by (simp_all add: lease_live_def Expired_def time_Before_def)
    have "fst (RegisterConn (Get (co_store c')) now c (cr_LeaseID req) m)"
      using live(1) by (simp add: RegisterConn_def RegisterConn_cs_def Let_def split: option.splits)
    then obtain m' where reg: "RegisterConn (Get (co_store c')) now c (cr_LeaseID req) m = (True, m')" by (metis (full_types) prod.collapse)
    show ?thesis
      unfolding l(4) Let_def reg prod.case StartForward_registered [OF reg live(1)]
      using l(2,3) live(2) by (simp add: authByToken_def store_moment_def)
  qed
  then show ?thesis using r(2) w(2) by blast
qed

theorem paid_lease_works_witness:
  "\<exists>w a' (r :: LeaseResponse). Router plain_unicode ''t'' (coordinator_service (demo_config 2592000) demo_ext) demo_decoder
       (demo_http ''POST'' [''v1'', ''leases''] ''Bearer t'') demo_api = (w, a')
     \<and> authByToken (store_moment (co_store (ap_svc a')) (lr_ExpiresAt r - 1)) (lr_Token r) demo_server
       = (Inr [(''lease_id'', ''a'')], demo_server)"
proof -
  let ?S = "coordinator_service (demo_config 2592000) demo_ext" and ?q = "demo_http ''POST'' [''v1'', ''leases''] ''Bearer t''"
  obtain w a' where run: "Router plain_unicode ''t'' ?S demo_decoder ?q demo_api = (w, a')" by fastforce
  have ok: "rp_status w = Some 200" using demo_posted run by simp
  have a: "ap_svc demo_api = demo_coord" "cr_LeaseID Coordinator.demo_request = ''a''" by (simp_all add: demo_api_def Coordinator.demo_request_def)
  have inv: "coord_inv demo_ext (ap_svc demo_api)" "create_pre demo_ext Coordinator.demo_request (ap_svc demo_api)"
    using demo_coord_inv by (simp_all add: a)
  obtain r :: LeaseResponse where "\<forall>now. now < lr_ExpiresAt r \<longrightarrow>
      authByToken (store_moment (co_store (ap_svc a')) now) (lr_Token r) demo_server = (Inr [(''lease_id'', ''a'')], demo_server)"
    using paid_lease_works [OF inv(1) demo_authorized demo_one_value inv(2) run ok, where s = demo_server and c = 0 and m = "NewManager 1"
        and listen = "\<lambda>_. Inr 0" and b = "[]" and p = 0] unfolding Let_def a(2) by blast
  then show ?thesis using run by (intro exI [of _ w] exI [of _ a'] exI [of _ r]) simp
qed

end
